(* ===== verification/Prelude.thy ===== *)
theory Prelude
  imports Main "HOL-Library.Word" "HOL-Library.AList"
begin

text \<open>
  What the component theories share.

  \<^item> Machine integers. \<open>uint64_t\<close>, \<open>int64_t\<close> and \<open>size_t\<close> of the Raft code are all
    \<open>64 word\<close> (abbreviated \<open>u64\<close>, \<open>i64\<close>, \<open>size_t\<close>): C++ converts freely between them and
    keeps the bits, so one type with the comparison chosen per operator (\<open><\<close> and \<open>\<le>\<close> unsigned,
    \<open><s\<close> and \<open>\<le>s\<close> signed) is the code's own arithmetic.
  \<^item> Results. A C++ operation that can run into undefined behaviour, abort the process or
    loop for ever returns \<open>fault + 'a\<close>; \<open>rbind\<close> sequences such operations.
  \<^item> The theorem collections \<open>wsimps\<close> (word facts) and \<open>handler_defs\<close> (operation definitions).
  \<^item> Interface locales: a transition system with an inductive invariant, a FIFO queue, a byte queue,
    and the refinement of an abstract machine.
\<close>

unbundle bit_operations_syntax

type_synonym u64 = "64 word"
type_synonym i64 = "64 word"
type_synonym size_t = "64 word"

named_theorems wsimps \<open>facts about 64-bit words the components share\<close>
named_theorems handler_defs \<open>definitions of the operations of a component\<close>

subsection \<open>Faults and sequencing\<close>

text \<open>
  \<open>NullDeref\<close>: a null pointer is dereferenced. \<open>OutOfBounds\<close>: an index past the end of a vector
  or a read outside the bytes of an array. \<open>LengthError\<close>: \<open>std::length_error\<close> of a container.
  \<open>Diverges\<close>: the loop never ends. \<open>Exits\<close>: the process calls \<open>exit\<close> (the \<open>LOG_FATAL\<close> macro).
  \<open>Throws\<close>: another exception leaves the operation. \<open>Blocks\<close>: the thread waits for something that
  never comes. \<open>Overflow\<close>: a signed \<open>int\<close> leaves its range.
\<close>

datatype fault = NullDeref | OutOfBounds | LengthError | Diverges | Exits | Throws | Blocks | Overflow

type_synonym 'a result = "fault + 'a"

fun rbind :: "'a result \<Rightarrow> ('a \<Rightarrow> 'b result) \<Rightarrow> 'b result" where
  "rbind (Inl e) f = Inl e"
| "rbind (Inr a) f = f a"

lemma rbind_Inr_iff: "rbind m f = Inr b \<longleftrightarrow> (\<exists>a. m = Inr a \<and> f a = Inr b)"
  by (cases m) auto

lemma rbind_InrE:
  assumes "rbind m f = Inr b"
  obtains a where "m = Inr a" "f a = Inr b"
  using assms by (auto simp: rbind_Inr_iff)

lemma rbind_cong [fundef_cong]:
  "m = m' \<Longrightarrow> (\<And>a. m' = Inr a \<Longrightarrow> f a = f' a) \<Longrightarrow> rbind m f = rbind m' f'"
  by (cases m') auto

fun is_ok :: "'a result \<Rightarrow> bool" where
  "is_ok (Inl e) = False"
| "is_ok (Inr a) = True"

lemma is_ok_iff: "is_ok m \<longleftrightarrow> (\<exists>a. m = Inr a)"
  by (cases m) auto

subsection \<open>Signed and unsigned readings of 64-bit words\<close>

lemma sint_i64_range: "- (2 ^ 63) \<le> sint (a :: i64) \<and> sint (a :: i64) < 2 ^ 63"
  using sint_ge [of a] sint_lt [of a] by simp

lemma sint_i64_inc [wsimps]: "sint (a :: i64) < 2 ^ 63 - 1 \<Longrightarrow> sint (a + 1) = sint a + 1"
proof -
  assume "sint a < 2 ^ 63 - 1"
  then have "signed_take_bit 63 (sint a + 1) = sint a + 1"
    using sint_i64_range [of a] by (intro signed_take_bit_int_eq_self) auto
  then show ?thesis by (simp add: sint_word_ariths)
qed

lemma sint_i64_sub: "- (2 ^ 63) \<le> sint (a :: i64) - sint b \<Longrightarrow> sint a - sint b < 2 ^ 63 \<Longrightarrow>
  sint (a - b) = sint a - sint b"
  by (simp add: sint_word_ariths signed_take_bit_int_eq_self)

lemma uint_i64_of_sint: "uint (a :: i64) = sint a mod 2 ^ 64"
  by (simp add: uint_sint take_bit_eq_mod)

lemma uint_i64_nonneg: "0 \<le> sint (a :: i64) \<Longrightarrow> uint a = sint a"
  using sint_i64_range [of a] by (simp add: uint_i64_of_sint)

lemma unat_i64_nonneg [wsimps]: "0 \<le> sint (a :: i64) \<Longrightarrow> unat a = nat (sint a)"
  by (metis uint_i64_nonneg unat_eq_nat_uint)

lemma uint_i64_diff: "uint (a - b :: i64) = (sint a - sint b) mod 2 ^ 64"
proof -
  have "uint (a - b) = (sint a mod 2 ^ 64 - sint b mod 2 ^ 64) mod 2 ^ 64"
    by (simp only: uint_word_ariths(2) uint_i64_of_sint [symmetric]) simp
  then show ?thesis by (simp only: mod_diff_eq)
qed

lemma sint_i64_eq_iff: "(a :: i64) = b \<longleftrightarrow> sint a = sint b"
  by (metis signed_word_eqI)

lemma unat_of_nat_u64 [wsimps]: "n < 2 ^ 64 \<Longrightarrow> unat (of_nat n :: u64) = n"
  by (simp add: unat_of_nat)
lemma sless_i64 [wsimps]: "(a :: i64) <s b \<longleftrightarrow> sint a < sint b" by (rule word_sless_alt)
lemma sle_i64 [wsimps]: "(a :: i64) \<le>s b \<longleftrightarrow> sint a \<le> sint b" by (rule word_sle_eq)

lemma sint_minus_one [simp]: "sint (-1 :: i64) = -1"
  by simp

lemma unat_u64_bound: "unat (x :: u64) < 2 ^ 64"
  using unsigned_less [of x] by simp

lemma unat_u64_max: "unat (-1 :: u64) = 2 ^ 64 - 1"
  by (simp add: unsigned_minus_1_eq_mask mask_eq_exp_minus_1)

lemma u64_less_inc: "(x :: u64) \<noteq> -1 \<Longrightarrow> x < x + 1"
proof -
  assume "x \<noteq> -1"
  then have "unat x \<noteq> unat (-1 :: u64)" by (metis unsigned_word_eqI)
  then have "unat x + 1 < 2 ^ 64" using unat_u64_bound [of x] by (simp add: unat_u64_max)
  then have "unat (x + 1) = unat x + 1" by (simp add: unat_word_ariths)
  then show ?thesis by (simp add: word_less_nat_alt)
qed

subsection \<open>Transition systems\<close>

inductive reachable :: "('s \<Rightarrow> bool) \<Rightarrow> ('s \<Rightarrow> 's \<Rightarrow> bool) \<Rightarrow> 's \<Rightarrow> bool"
  for init :: "'s \<Rightarrow> bool" and step :: "'s \<Rightarrow> 's \<Rightarrow> bool" where
  reachable_init: "init s \<Longrightarrow> reachable init step s"
| reachable_step: "reachable init step s \<Longrightarrow> step s t \<Longrightarrow> reachable init step t"

text \<open>An inductive invariant of a transition system; interpreted for every system of the model.\<close>

locale inductive_invariant =
  fixes init :: "'s \<Rightarrow> bool" and step :: "'s \<Rightarrow> 's \<Rightarrow> bool" and inv :: "'s \<Rightarrow> bool"
  assumes inv_init: "init s \<Longrightarrow> inv s"
    and inv_step: "inv s \<Longrightarrow> step s t \<Longrightarrow> inv t"
begin

lemma reachable_inv: "reachable init step s \<Longrightarrow> inv s"
  by (induction rule: reachable.induct) (auto intro: inv_init inv_step)

lemma inv_steps: "rtranclp step s t \<Longrightarrow> inv s \<Longrightarrow> inv t"
  by (induction rule: rtranclp_induct) (auto intro: inv_step)

end

subsection \<open>FIFO queues\<close>

text \<open>What a client of a queue relies on: \<open>push\<close> adds at the back, \<open>pop\<close> takes from the front.\<close>

locale fifo =
  fixes push :: "'a \<Rightarrow> 'q \<Rightarrow> 'q"
    and pop :: "'q \<Rightarrow> ('a \<times> 'q) option"
    and contents :: "'q \<Rightarrow> 'a list"
  assumes contents_push: "contents (push x q) = contents q @ [x]"
    and pop_None: "pop q = None \<longleftrightarrow> contents q = []"
    and pop_Some: "pop q = Some (x, q') \<Longrightarrow> contents q = x # contents q'"
begin

lemma pop_after_push:
  assumes "contents q = x # xs" obtains q' where "pop q = Some (x, q')" "contents q' = xs"
proof (cases "pop q")
  case None
  then show ?thesis using assms pop_None by simp
next
  case (Some yq)
  obtain y q' where "yq = (y, q')" by (cases yq)
  then show ?thesis using Some that pop_Some [of q y q'] assms by simp
qed

lemma contents_fold_push: "contents (fold push xs q) = contents q @ xs"
  by (induction xs arbitrary: q) (simp_all add: contents_push)

end

subsection \<open>Byte queues\<close>

text \<open>
  What a client of a byte buffer relies on: bytes put in come out in order, as long as the storage
  \<open>used\<close> stays below \<open>room\<close>.
\<close>

locale byte_queue =
  fixes put :: "string \<Rightarrow> 'b \<Rightarrow> 'b result" and drop_front :: "u64 \<Rightarrow> 'b \<Rightarrow> 'b"
    and holds :: "'b \<Rightarrow> string" and well :: "'b \<Rightarrow> bool" and used :: "'b \<Rightarrow> nat" and room :: nat
  assumes put_ok: "well b \<Longrightarrow> used b + length d \<le> room \<Longrightarrow>
      \<exists>b'. put d b = Inr b' \<and> well b' \<and> holds b' = holds b @ d \<and> used b' \<le> used b + length d"
    and drop_ok: "well b \<Longrightarrow> well (drop_front n b) \<and> holds (drop_front n b) = drop (unat n) (holds b) \<and>
      used (drop_front n b) \<le> used b"
begin

lemma put_Inr:
  assumes "well b" "used b + length d \<le> room" "put d b = Inr b'"
  shows "well b'" "holds b' = holds b @ d" "used b' \<le> used b + length d"
  using put_ok [OF assms(1,2)] assms(3) by auto

lemma put_not_stuck: "well b \<Longrightarrow> used b + length d \<le> room \<Longrightarrow> is_ok (put d b)"
  using put_ok by (fastforce simp: is_ok_iff)

end

subsection \<open>Refinement of an abstract machine\<close>

fun run_steps :: "('e \<Rightarrow> 'c \<Rightarrow> 'c result) \<Rightarrow> 'e list \<Rightarrow> 'c \<Rightarrow> 'c result" where
  "run_steps step [] c = Inr c"
| "run_steps step (e # es) c = rbind (step e c) (run_steps step es)"

text \<open>
  A component \<open>cstep\<close> implements the abstract operations \<open>astep\<close> on every legal event as long as a
  resource is not exhausted of which event \<open>e\<close> uses up at most \<open>cost e\<close>.
\<close>

locale refinement =
  fixes cstep :: "'e \<Rightarrow> 'c \<Rightarrow> 'c result" and astep :: "'e \<Rightarrow> 'a \<Rightarrow> 'a"
    and abs_of :: "'c \<Rightarrow> 'a" and cinv :: "'c \<Rightarrow> bool" and legal :: "'e \<Rightarrow> bool"
    and used :: "'c \<Rightarrow> nat" and cost :: "'e \<Rightarrow> nat" and room :: nat
  assumes refines: "cinv c \<Longrightarrow> legal e \<Longrightarrow> used c + cost e \<le> room \<Longrightarrow>
    \<exists>c'. cstep e c = Inr c' \<and> cinv c' \<and> abs_of c' = astep e (abs_of c) \<and> used c' \<le> used c + cost e"
begin

lemma run_refines:
  "cinv c \<Longrightarrow> list_all legal es \<Longrightarrow> used c + sum_list (map cost es) \<le> room \<Longrightarrow>
   \<exists>c'. run_steps cstep es c = Inr c' \<and> cinv c' \<and> abs_of c' = fold astep es (abs_of c)"
proof (induction es arbitrary: c)
  case Nil
  then show ?case by simp
next
  case (Cons e es)
  then obtain c1 where c1: "cstep e c = Inr c1" "cinv c1" "abs_of c1 = astep e (abs_of c)"
      "used c1 \<le> used c + cost e"
    using refines [of c e] by auto
  with Cons.IH [of c1] Cons.prems show ?case by auto
qed

end

end
