(* ===== verification/RaftMessages.thy ===== *)
theory RaftMessages
  imports Prelude
begin

text \<open>
  The messages of \<open>SRaft/raft_messages.proto\<close> as records, one field per proto field, and the
  value a freshly constructed message reads as (every getter of an unset proto2 field returns
  zero, false or the empty string). Has-bits are not kept: the code reads fields through their
  getters only. Integers keep their width (\<open>int32\<close> as \<open>32 word\<close>, \<open>int64\<close> and \<open>uint64\<close> as
  \<open>64 word\<close>); \<open>string\<close> and \<open>bytes\<close> are char lists.
\<close>

record LogEntry =
  le_index :: i64
  le_term :: u64
  le_command :: "32 word"
  le_data :: string

definition LogEntry_default :: LogEntry where
  "LogEntry_default = \<lparr>le_index = 0, le_term = 0, le_command = 0, le_data = []\<rparr>"

record AppendEntriesRequest =
  aq_name :: string
  aq_term :: u64
  aq_prev_log_index :: i64
  aq_prev_log_term :: u64
  aq_leader_commit :: i64
  aq_entries :: "LogEntry list"
  aq_time :: u64
  aq_seq :: u64
  aq_initial :: bool

record AppendEntriesResponse =
  ar_name :: string
  ar_term :: u64
  ar_success :: bool
  ar_last_log_index :: i64
  ar_last_log_term :: u64
  ar_time :: u64
  ar_seq :: u64

definition AppendEntriesResponse_default :: AppendEntriesResponse where
  "AppendEntriesResponse_default = \<lparr>ar_name = [], ar_term = 0, ar_success = False,
     ar_last_log_index = 0, ar_last_log_term = 0, ar_time = 0, ar_seq = 0\<rparr>"

record RequestVoteRequest =
  vq_name :: string
  vq_term :: u64
  vq_last_log_index :: i64
  vq_last_log_term :: u64
  vq_time :: u64
  vq_seq :: u64
  vq_initial :: bool

record RequestVoteResponse =
  vr_name :: string
  vr_term :: u64
  vr_vote_granted :: bool
  vr_time :: u64
  vr_seq :: u64

definition RequestVoteResponse_default :: RequestVoteResponse where
  "RequestVoteResponse_default = \<lparr>vr_name = [], vr_term = 0, vr_vote_granted = False,
     vr_time = 0, vr_seq = 0\<rparr>"

text \<open>\<open>Dump\<close> never sets \<open>conf_record\<close>, the one optional field of \<open>PersistRecord\<close>; it is left out.\<close>

record PersistRecord =
  pr_term :: u64
  pr_name :: string
  pr_vote_for :: string
  pr_entries :: "LogEntry list"
  pr_last_seq :: u64

record PutAppendRequest =
  pq_key :: string
  pq_value :: string
  pq_op :: string
  pq_ClerkID :: i64
  pq_cmdIndex :: i64

record PutAppendResponse =
  pp_WrongLeader :: bool
  pp_Err :: string

definition PutAppendResponse_default :: PutAppendResponse where
  "PutAppendResponse_default = \<lparr>pp_WrongLeader = False, pp_Err = []\<rparr>"

record GetRequest =
  gq_Key :: string
  gq_ClerkID :: i64
  gq_CmdIndex :: i64

record GetResponse =
  gr_WrongLeader :: bool
  gr_Err :: string
  gr_Value :: string

definition GetResponse_default :: GetResponse where
  "GetResponse_default = \<lparr>gr_WrongLeader = False, gr_Err = [], gr_Value = []\<rparr>"

end
