(* ===== verification/RaftLog.thy ===== *)
theory RaftLog
  imports RaftMessages
begin

text \<open>
  The log of \<open>SRaft\<close> (\<open>SRaft.h\<close>, \<open>SRaft.cc\<close>): the vector \<open>logs\<close> of entries, each carrying its own
  index. \<open>BaseLogIndex\<close>, \<open>LastLogIndex\<close>, \<open>LastLogTerm\<close>, \<open>FindLog\<close> and \<open>GetLogByIndex\<close> are the
  accessors; \<open>append_at\<close> is the \<open>erase\<close>/\<open>insert\<close> pair of \<open>OnAppendEntriesRequest\<close>, and
  \<open>entries_loop\<close> the loop of \<open>DoAppendEntries\<close> that copies the entries to send.
  \<open>wf_log\<close> is the invariant of the log: the indices are consecutive, start at a non-negative
  index and stay below the largest \<open>int64\<close>.
\<close>

type_synonym log = "LogEntry list"

subsection \<open>Accessors\<close>

definition BaseLogIndex :: "log \<Rightarrow> i64" where
  "BaseLogIndex logs = (if length logs = 0 then -1 else le_index (logs ! 0))"

definition LastLogIndex :: "log \<Rightarrow> i64" where
  "LastLogIndex logs = (if length logs = 0 then -1 else le_index (last logs))"

definition LastLogTerm :: "log \<Rightarrow> u64" where
  "LastLogTerm logs = (if length logs = 0 then 0 else le_term (last logs))"

text \<open>
  \<open>FindLog_from logs t i n\<close> is the rest of the downward loop when the counter is \<open>n - 1\<close>. The counter of the
  code is an \<open>int\<close>, which holds the length of every log of fewer than \<open>2 ^ 31\<close> entries.
\<close>

primrec FindLog_from :: "log \<Rightarrow> u64 \<Rightarrow> u64 \<Rightarrow> nat \<Rightarrow> u64" where
  "FindLog_from logs t i 0 = -1"
| "FindLog_from logs t i (Suc n) =
     (if le_term (logs ! n) = t \<and> le_index (logs ! n) = i then of_nat n
      else FindLog_from logs t i n)"

definition FindLog :: "log \<Rightarrow> u64 \<Rightarrow> u64 \<Rightarrow> u64" where
  "FindLog logs t i = FindLog_from logs t i (length logs)"

text \<open>\<open>index - baseIndex\<close> is unsigned, so the test \<open>index - baseIndex >= 0\<close> always succeeds.\<close>

definition GetLogByIndex :: "log \<Rightarrow> u64 \<Rightarrow> LogEntry" where
  "GetLogByIndex logs index =
     (let baseIndex = BaseLogIndex logs in
      if of_nat (length logs) \<le> index - baseIndex then LogEntry_default
      else if 0 \<le> index - baseIndex then logs ! unat (index - baseIndex)
      else LogEntry_default)"

subsection \<open>Updates\<close>

text \<open>
  \<open>logs.erase(logs.begin()+logStartIndex+1, logs.end())\<close> and the \<open>insert\<close> of the entries. When
  \<open>FindLog\<close> returns \<open>-1\<close> the sum wraps to 0 and everything is erased (the code forms the
  iterator \<open>begin()-1\<close> on the way, which every implementation computes as plain address
  arithmetic).
\<close>

definition append_at :: "log \<Rightarrow> u64 \<Rightarrow> log \<Rightarrow> log" where
  "append_at logs logStartIndex entries = take (unat (logStartIndex + 1)) logs @ entries"

text \<open>
  \<open>for(uint64_t i = max(0, nextIndex_); i <= LastLogIndex(); i++)\<close>: the comparison is unsigned,
  so with \<open>LastLogIndex() = -1\<close> the loop never ends and the result is \<open>None\<close>.
\<close>

partial_function (option) entries_loop :: "log \<Rightarrow> u64 \<Rightarrow> log option" where
  "entries_loop logs i =
     (if i \<le> LastLogIndex logs
      then Option.bind (entries_loop logs (i + 1)) (\<lambda>es. Some (GetLogByIndex logs i # es))
      else Some [])"

subsection \<open>The invariant of the log\<close>

fun consecutive :: "int \<Rightarrow> log \<Rightarrow> bool" where
  "consecutive b [] = True"
| "consecutive b (e # es) = (sint (le_index e) = b \<and> consecutive (b + 1) es)"

definition wf_log :: "log \<Rightarrow> bool" where
  "wf_log logs \<longleftrightarrow> logs = [] \<or>
     (0 \<le> sint (BaseLogIndex logs) \<and> consecutive (sint (BaseLogIndex logs)) logs
      \<and> sint (BaseLogIndex logs) + int (length logs) < 2 ^ 63)"

lemma consecutive_append:
  "consecutive b (xs @ ys) \<longleftrightarrow> consecutive b xs \<and> consecutive (b + int (length xs)) ys"
  by (induction xs arbitrary: b) (auto simp: algebra_simps)

lemma consecutive_nth: "consecutive b es \<Longrightarrow> n < length es \<Longrightarrow> sint (le_index (es ! n)) = b + int n"
proof (induction es arbitrary: b n)
  case Nil
  then show ?case by simp
next
  case (Cons e es)
  then show ?case by (cases n) auto
qed

lemma consecutive_take: "consecutive b es \<Longrightarrow> consecutive b (take n es)"
  by (metis append_take_drop_id consecutive_append)

lemma Base_of_consecutive: "consecutive b es \<Longrightarrow> es \<noteq> [] \<Longrightarrow> sint (BaseLogIndex es) = b"
  by (cases es) (auto simp: BaseLogIndex_def)

lemma wf_logI:
  "consecutive b es \<Longrightarrow> 0 \<le> b \<Longrightarrow> b + int (length es) < 2 ^ 63 \<Longrightarrow> wf_log es"
  by (cases "es = []") (auto simp: wf_log_def Base_of_consecutive)

lemma wf_log_Nil [simp]: "wf_log []"
  by (simp add: wf_log_def)

lemma wf_logE:
  assumes "wf_log es" "es \<noteq> []"
  obtains b where "sint (BaseLogIndex es) = b" "0 \<le> b" "consecutive b es" "b + int (length es) < 2 ^ 63"
  using assms by (auto simp: wf_log_def)

lemma wf_log_length: "wf_log es \<Longrightarrow> length es < 2 ^ 63"
  by (cases "es = []") (auto elim!: wf_logE)

lemma LastLogIndex_Nil [simp]: "LastLogIndex [] = -1"
  by (simp add: LastLogIndex_def)

lemma BaseLogIndex_Nil [simp]: "BaseLogIndex [] = -1"
  by (simp add: BaseLogIndex_def)

lemma sint_LastLogIndex:
  assumes "wf_log es" "es \<noteq> []"
  shows "sint (LastLogIndex es) = sint (BaseLogIndex es) + int (length es) - 1"
proof -
  from assms obtain b where b: "sint (BaseLogIndex es) = b" "consecutive b es" by (auto elim: wf_logE)
  then have "sint (le_index (es ! (length es - 1))) = b + int (length es - 1)"
    using assms(2) by (intro consecutive_nth) auto
  moreover have "int (length es - 1) = int (length es) - 1" using assms(2) by (cases es) auto
  ultimately show ?thesis using assms(2) b by (simp add: LastLogIndex_def last_conv_nth)
qed

lemma GetLogByIndex_wf:
  assumes wf: "wf_log es"
  shows "GetLogByIndex es i =
    (if es \<noteq> [] \<and> sint (BaseLogIndex es) \<le> sint i \<and> sint i \<le> sint (LastLogIndex es)
     then es ! nat (sint i - sint (BaseLogIndex es)) else LogEntry_default)"
proof (cases "es = []")
  case True
  then show ?thesis by (simp add: GetLogByIndex_def)
next
  case False
  from wf False obtain b where b: "sint (BaseLogIndex es) = b" "0 \<le> b" "b + int (length es) < 2 ^ 63"
    by (auto elim: wf_logE)
  let ?d = "i - BaseLogIndex es"
  have u: "uint ?d = (sint i - b) mod 2 ^ 64"
    by (simp only: uint_i64_diff b)
  have len: "unat (of_nat (length es) :: u64) = length es"
    using wf_log_length [OF wf] by (simp add: unat_of_nat_u64)
  have lt: "(of_nat (length es) :: u64) \<le> ?d \<longleftrightarrow> int (length es) \<le> uint ?d"
    by (metis len word_le_nat_alt of_nat_le_iff uint_nat)
  show ?thesis
  proof (cases "b \<le> sint i")
    case True
    then have d: "uint ?d = sint i - b"
      using u sint_i64_range [of i] b(2) by simp
    show ?thesis
      using True False d lt b sint_LastLogIndex [OF wf False]
      by (auto simp: GetLogByIndex_def Let_def unat_eq_nat_uint)
  next
    case neg: False
    have "uint ?d = (sint i - b + 2 ^ 64) mod 2 ^ 64" by (simp add: u)
    also have "\<dots> = sint i - b + 2 ^ 64"
      using neg sint_i64_range [of i] b by (intro mod_pos_pos_trivial) auto
    finally have "int (length es) \<le> uint ?d" using sint_i64_range [of i] b by simp
    then show ?thesis using neg lt b by (simp add: GetLogByIndex_def Let_def)
  qed
qed

subsection \<open>The copying loop\<close>

lemma entries_loop_done: "\<not> i \<le> LastLogIndex es \<Longrightarrow> entries_loop es i = Some []"
  by (simp add: entries_loop.simps)

lemma entries_loop_step:
  "i \<le> LastLogIndex es \<Longrightarrow> entries_loop es (i + 1) = Some r \<Longrightarrow>
   entries_loop es i = Some (GetLogByIndex es i # r)"
  by (subst entries_loop.simps) simp

lemma u64_le_i64: "0 \<le> sint (a :: i64) \<Longrightarrow> 0 \<le> sint b \<Longrightarrow> a \<le> b \<longleftrightarrow> sint a \<le> sint b"
  by (simp add: word_le_def uint_i64_nonneg)

lemma entries_loop_from:
  assumes wf: "wf_log es" and ne: "es \<noteq> []"
  shows "n \<le> length es \<Longrightarrow> sint i = sint (BaseLogIndex es) + int n \<Longrightarrow>
         entries_loop es i = Some (drop n es)"
proof (induction "length es - n" arbitrary: n i)
  case 0
  obtain b where b: "sint (BaseLogIndex es) = b" "0 \<le> b" using wf ne by (auto elim: wf_logE)
  have "\<not> i \<le> LastLogIndex es"
    using 0 b sint_LastLogIndex [OF wf ne] ne by (cases es) (auto simp: u64_le_i64)
  with 0 show ?case by (simp add: entries_loop_done)
next
  case (Suc k)
  obtain b where b: "sint (BaseLogIndex es) = b" "0 \<le> b" "b + int (length es) < 2 ^ 63"
    using wf ne by (auto elim: wf_logE)
  have le: "i \<le> LastLogIndex es" and n: "n < length es"
    using Suc.hyps(2) Suc.prems b sint_LastLogIndex [OF wf ne] by (auto simp: u64_le_i64)
  have "sint (i + 1) = sint i + 1"
    using n b Suc.prems by (intro sint_i64_inc) simp
  then have "entries_loop es (i + 1) = Some (drop (Suc n) es)"
    using Suc.hyps(2) Suc.prems n by (intro Suc.hyps(1)) auto
  then have "entries_loop es i = Some (GetLogByIndex es i # drop (Suc n) es)"
    by (rule entries_loop_step [OF le])
  moreover have "GetLogByIndex es i = es ! n"
    using n b ne Suc.prems sint_LastLogIndex [OF wf ne] by (simp add: GetLogByIndex_wf [OF wf])
  ultimately show ?case using n by (simp add: Cons_nth_drop_Suc)
qed

lemma entries_loop_Nil: "entries_loop [] i = None"
proof (rule ccontr)
  assume "entries_loop [] i \<noteq> None"
  then obtain r where "entries_loop [] i = Some r" by auto
  then have "LastLogIndex [] \<noteq> -1"
    by (rule entries_loop.raw_induct [where P = "\<lambda>l _ _. LastLogIndex l \<noteq> -1", rotated])
       (auto simp: bind_eq_Some_conv split: if_splits)
  then show False by simp
qed

text \<open>The loop from any index: below the base \<open>GetLogByIndex\<close> gives empty entries.\<close>

lemma entries_loop_below:
  assumes wf: "wf_log es" and ne: "es \<noteq> []"
  shows "0 \<le> sint i \<Longrightarrow> sint i + int k = sint (BaseLogIndex es) \<Longrightarrow>
         entries_loop es i = Some (replicate k LogEntry_default @ es)"
proof (induction k arbitrary: i)
  case 0
  then show ?case using entries_loop_from [OF wf ne, of 0 i] by simp
next
  case (Suc k)
  obtain b where b: "sint (BaseLogIndex es) = b" "b + int (length es) < 2 ^ 63" using wf ne by (auto elim: wf_logE)
  have i: "sint (i + 1) = sint i + 1" using Suc.prems b by (intro sint_i64_inc) simp
  have "sint i < b" using Suc.prems b(1) by simp
  have "entries_loop es (i + 1) = Some (replicate k LogEntry_default @ es)"
    using Suc.prems i by (intro Suc.IH) simp_all
  moreover have "i \<le> LastLogIndex es"
    using \<open>sint i < b\<close> Suc.prems(1) b(1) sint_LastLogIndex [OF wf ne] ne by (cases es) (auto simp: u64_le_i64)
  moreover have "GetLogByIndex es i = LogEntry_default" using \<open>sint i < b\<close> b(1) by (simp add: GetLogByIndex_wf [OF wf])
  ultimately show ?case using entries_loop_step [of i es] by simp
qed

lemma entries_loop_eq:
  assumes wf: "wf_log es" and ne: "es \<noteq> []" and i: "0 \<le> sint i"
  shows "entries_loop es i = Some (replicate (nat (sint (BaseLogIndex es) - sint i)) LogEntry_default @
     drop (nat (sint i - sint (BaseLogIndex es))) es)"
proof -
  obtain b where b: "sint (BaseLogIndex es) = b" "0 \<le> b" using wf ne by (auto elim: wf_logE)
  consider "sint i < b" | "b \<le> sint i" "sint i \<le> b + int (length es)" | "b + int (length es) < sint i" by linarith
  then show ?thesis
  proof cases
    case 1
    then show ?thesis using entries_loop_below [OF wf ne i, of "nat (b - sint i)"] b by simp
  next
    case 2
    then show ?thesis using entries_loop_from [OF wf ne, of "nat (sint i - b)" i] b by simp
  next
    case 3
    have "\<not> i \<le> LastLogIndex es" using 3 b i sint_LastLogIndex [OF wf ne] ne by (cases es) (auto simp: u64_le_i64)
    then show ?thesis using entries_loop_done [of i es] 3 b by simp
  qed
qed

subsection \<open>Searching the log\<close>

definition entry_at :: "log \<Rightarrow> u64 \<Rightarrow> u64 \<Rightarrow> nat \<Rightarrow> bool" where
  "entry_at es t i n \<longleftrightarrow> n < length es \<and> le_term (es ! n) = t \<and> le_index (es ! n) = i"

lemma FindLog_from_cases:
  "(FindLog_from es t i n = -1 \<and> (\<forall>m<n. \<not> (le_term (es ! m) = t \<and> le_index (es ! m) = i))) \<or>
   (\<exists>m<n. FindLog_from es t i n = of_nat m \<and> le_term (es ! m) = t \<and> le_index (es ! m) = i)"
  by (induction n) (auto simp: less_Suc_eq)

lemma FindLog_cases:
  obtains (absent) "FindLog es t i = -1" "\<And>m. \<not> entry_at es t i m"
  | (found) m where "FindLog es t i = of_nat m" "entry_at es t i m"
  using FindLog_from_cases [of es t i "length es"] by (auto simp: FindLog_def entry_at_def)

lemma append_at_absent [simp]: "append_at es (-1) ents = ents"
  by (simp add: append_at_def)

lemma append_at_found:
  "Suc m < 2 ^ 64 \<Longrightarrow> append_at es (of_nat m) ents = take (Suc m) es @ ents"
proof -
  assume "Suc m < 2 ^ 64"
  then have "unat (of_nat (Suc m) :: u64) = Suc m" by (rule unat_of_nat_u64)
  then show ?thesis by (simp add: append_at_def add.commute)
qed

lemma wf_log_append_found:
  assumes wf: "wf_log es" and m: "entry_at es t i m"
    and c: "consecutive (sint i + 1) ents" and b: "sint i + 1 + int (length ents) < 2 ^ 63"
  shows "wf_log (take (Suc m) es @ ents)"
proof -
  from m have ne: "es \<noteq> []" by (auto simp: entry_at_def)
  from wf ne obtain b where B: "0 \<le> b" "consecutive b es" by (auto elim: wf_logE)
  from B(2) m have i: "sint i = b + int m" using consecutive_nth [of b es m] by (auto simp: entry_at_def)
  have l: "length (take (Suc m) es) = Suc m" using m by (simp add: entry_at_def)
  then show ?thesis
    using B b c i by (intro wf_logI [of b]) (auto simp: consecutive_append consecutive_take algebra_simps)
qed

lemma wf_log_unique: 
  assumes wf: "wf_log es" and "entry_at es t i m" "entry_at es t' i m'" shows "m = m'"
proof -
  from assms(2) wf obtain b where "consecutive b es" by (auto simp: entry_at_def elim: wf_logE)
  then show ?thesis using assms(2,3) consecutive_nth [of b es m] consecutive_nth [of b es m']
    by (auto simp: entry_at_def)
qed

end
