(* ===== verification/MyChannel.thy ===== *)
theory MyChannel
  imports Prelude
begin

text \<open>
  The command queue between Raft and the key-value server: class \<open>MyChannel\<close> of \<open>MyChannel.h\<close> and
  \<open>MyChannel.cc\<close>. Both operations hold \<open>mut_\<close> throughout, so each is one step on the content of
  \<open>que\<close>, front first. \<open>popData\<close> waits on the condition variable until the queue is not empty; \<open>None\<close>
  is the caller that still waits.
\<close>

type_synonym MyChannel = "string list"

definition MyChannel_pushData :: "string \<Rightarrow> MyChannel \<Rightarrow> MyChannel" where
  "MyChannel_pushData s que = que @ [s]"

fun MyChannel_popData :: "MyChannel \<Rightarrow> (string \<times> MyChannel) option" where
  "MyChannel_popData [] = None"
| "MyChannel_popData (ans # que) = Some (ans, que)"

interpretation my_channel: fifo MyChannel_pushData MyChannel_popData "\<lambda>que. que"
proof
  fix q q' :: MyChannel and x
  show "MyChannel_pushData x q = q @ [x]" by (simp add: MyChannel_pushData_def)
  show "MyChannel_popData q = None \<longleftrightarrow> q = []" by (cases q) auto
  show "MyChannel_popData q = Some (x, q') \<Longrightarrow> q = x # q'" by (cases q) auto
qed

end
