(* ===== verification/SRaft.thy ===== *)
theory SRaft
  imports RaftLog MyChannel
begin

text \<open>
  One Raft node: class \<open>SRaft\<close> of \<open>SRaft.h\<close> and \<open>SRaft.cc\<close> with the clock and the random source of
  \<open>utils.h\<close> and the RPC client calls of \<open>SRaftRpc.cc\<close>.

  The record \<open>SRaft\<close> holds the members of the class under their own names (without the
  trailing underscore, which Isabelle does not allow), followed by what the
  node's operations read and write outside the object: \<open>clock\<close>/\<open>ticks\<close> (the value of the n-th
  reading of the system clock and the number of readings so far), \<open>rng\<close>/\<open>draws\<close> (the same for the
  random engine), \<open>persist_file\<close> (the content of the file \<open>addrStr.persist\<close>, if it exists), \<open>fs_ok\<close>
  (whether the file can be opened for writing) and \<open>calls\<close> (the RPC client threads started so far,
  in order). \<open>channel\<close> is the content of the \<open>MyChannel\<close> queue, or \<open>None\<close> for the null pointer.
  \<open>peers\<close> is an association list in the iteration order of the \<open>unordered_map\<close>; a value \<open>None\<close> is
  a null \<open>unique_ptr\<close>, which \<open>operator[]\<close> on a missing key inserts.

  Every operation runs under the node's mutex \<open>mut_\<close> from start to end, so it is one atomic
  function on this state. Dereferencing a null peer is the fault \<open>NullDeref\<close>. Logging is left out.
\<close>

datatype State = FOLLOWER | CANDIDATE | LEADER

text \<open>The text of the state for the log; its default case cannot be reached.\<close>

definition stateStr :: "State \<Rightarrow> string" where
  "stateStr st =
     (if st = FOLLOWER then ''FOLLOWER''
      else if st = CANDIDATE then ''CANDIDATE''
      else if st = LEADER then ''LEADER''
      else ''UNKNOWN'')"

lemma stateStr_inj: "inj stateStr"
proof (rule injI)
  fix a b assume "stateStr a = stateStr b"
  then show "a = b" by (cases a; cases b) (simp_all add: stateStr_def)
qed

lemma stateStr_known: "stateStr st \<noteq> ''UNKNOWN''"
  by (cases st) (simp_all add: stateStr_def)

definition interval_heartBeat :: u64 where "interval_heartBeat = 30"
definition interval_election_low :: u64 where "interval_election_low = 450"
definition interval_election_high :: u64 where "interval_election_high = 600"
definition interval_election_fail :: u64 where "interval_election_fail = 500"

record SRaftPeer =
  peer_name :: string
  peerSRaftClient :: string
  nextIndex :: i64
  matchIndex :: i64

datatype raft_call =
    CallRequestVote string RequestVoteRequest
  | CallAppendEntries string AppendEntriesRequest bool

record SRaft =
  state :: State
  logs :: log
  votedFor :: string
  votesRecieved :: u64
  commitIndex :: i64
  lastApplied :: i64
  currentTerm :: u64
  lastIncludeTerm :: u64
  lastIncludeIndex :: i64
  dueHeartBeat :: u64
  dueElection :: u64
  dueElectionFail :: u64
  toDestroy :: bool
  peers :: "(string \<times> SRaftPeer option) list"
  addrStr :: string
  running :: bool
  channel :: "MyChannel option"
  clock :: "nat \<Rightarrow> u64"
  ticks :: nat
  rng :: "nat \<Rightarrow> u64 \<Rightarrow> u64 \<Rightarrow> u64"
  draws :: nat
  persist_file :: "PersistRecord option"
  fs_ok :: bool
  calls :: "raft_call list"

subsection \<open>Clock, randomness, RPC client threads\<close>

definition get_current_ms :: "SRaft \<Rightarrow> u64 \<times> SRaft" where
  "get_current_ms s = (clock s (ticks s), s\<lparr>ticks := Suc (ticks s)\<rparr>)"

definition get_ranged_random :: "u64 \<Rightarrow> u64 \<Rightarrow> SRaft \<Rightarrow> u64 \<times> SRaft" where
  "get_ranged_random fr to s = (rng s (draws s) fr to, s\<lparr>draws := Suc (draws s)\<rparr>)"

definition SRaftClient_RequestVote :: "string \<Rightarrow> RequestVoteRequest \<Rightarrow> SRaft \<Rightarrow> SRaft" where
  "SRaftClient_RequestVote addr request s = s\<lparr>calls := calls s @ [CallRequestVote addr request]\<rparr>"

definition SRaftClient_AppendEntries ::
  "string \<Rightarrow> AppendEntriesRequest \<Rightarrow> bool \<Rightarrow> SRaft \<Rightarrow> SRaft" where
  "SRaftClient_AppendEntries addr request isHeartbeat s =
     s\<lparr>calls := calls s @ [CallAppendEntries addr request isHeartbeat]\<rparr>"

definition pushData :: "string \<Rightarrow> SRaft \<Rightarrow> SRaft" where
  "pushData cmd s = s\<lparr>channel := map_option (MyChannel_pushData cmd) (channel s)\<rparr>"

subsection \<open>Construction, start, persistence\<close>

definition new_SRaft :: "string \<Rightarrow> string list option \<Rightarrow> (nat \<Rightarrow> u64) \<Rightarrow>
    (nat \<Rightarrow> u64 \<Rightarrow> u64 \<Rightarrow> u64) \<Rightarrow> PersistRecord option \<Rightarrow> SRaft" where
  "new_SRaft addr chan clk rnd file =
     \<lparr>state = FOLLOWER, logs = [], votedFor = [], votesRecieved = 0, commitIndex = -1,
      lastApplied = -1, currentTerm = 0, lastIncludeTerm = 0, lastIncludeIndex = -1,
      dueHeartBeat = 0, dueElection = 0, dueElectionFail = 0, toDestroy = False, peers = [],
      addrStr = addr, running = False, channel = chan, clock = clk, ticks = 0,
      rng = rnd, draws = 0, persist_file = file, fs_ok = True, calls = []\<rparr>"

definition delete_SRaft :: "SRaft \<Rightarrow> SRaft" where
  "delete_SRaft s = s\<lparr>toDestroy := True\<rparr>"

definition Dump :: "SRaft \<Rightarrow> SRaft" where
  "Dump s =
     (if fs_ok s
      then s\<lparr>persist_file := Some \<lparr>pr_term = currentTerm s, pr_name = addrStr s,
                pr_vote_for = votedFor s, pr_entries = logs s, pr_last_seq = 0\<rparr>\<rparr>
      else s)"

definition Load :: "SRaft \<Rightarrow> SRaft" where
  "Load s =
     (case persist_file s of
        None \<Rightarrow> s
      | Some record \<Rightarrow> s\<lparr>currentTerm := pr_term record, votedFor := pr_vote_for record,
                          logs := pr_entries record\<rparr>)"

definition Run :: "SRaft \<Rightarrow> SRaft" where
  "Run s =
     (let s = Load s;
          s = s\<lparr>running := True\<rparr>;
          (now, s) = get_current_ms s;
          (r, s) = get_ranged_random interval_election_low interval_election_high s
      in s\<lparr>dueElection := now + r\<rparr>)"

definition AddPeer :: "string \<Rightarrow> SRaft \<Rightarrow> SRaft" where
  "AddPeer addr s =
     s\<lparr>peers := AList.update addr
         (Some \<lparr>peer_name = addr, peerSRaftClient = addr, nextIndex = 0, matchIndex = -1\<rparr>)
         (peers s)\<rparr>"

subsection \<open>Loops over the peers\<close>

fun for_peers :: "(SRaftPeer \<Rightarrow> SRaft \<Rightarrow> SRaft result) \<Rightarrow> (string \<times> SRaftPeer option) list \<Rightarrow>
    SRaft \<Rightarrow> SRaft result" where
  "for_peers f [] s = Inr s"
| "for_peers f ((k, None) # ps) s = Inl NullDeref"
| "for_peers f ((k, Some p) # ps) s = rbind (f p s) (for_peers f ps)"

subsection \<open>Election\<close>

definition election_request :: "SRaft \<Rightarrow> u64 \<Rightarrow> RequestVoteRequest" where
  "election_request s currentMs =
     \<lparr>vq_name = addrStr s, vq_term = currentTerm s,
      vq_last_log_index = of_nat (length (logs s)) - 1,
      vq_last_log_term = (if 0 < length (logs s) then le_term (last (logs s)) else -1),
      vq_time = currentMs, vq_seq = -1, vq_initial = True\<rparr>"

definition send_vote_request :: "u64 \<Rightarrow> SRaftPeer \<Rightarrow> SRaft \<Rightarrow> SRaft result" where
  "send_vote_request currentMs peer s =
     Inr (SRaftClient_RequestVote (peerSRaftClient peer) (election_request s currentMs) s)"

definition DoElection :: "SRaft \<Rightarrow> SRaft result" where
  "DoElection s =
     (let s = s\<lparr>state := CANDIDATE\<rparr>;
          s = s\<lparr>currentTerm := currentTerm s + 1\<rparr>;
          s = s\<lparr>votesRecieved := 1\<rparr>;
          s = s\<lparr>votedFor := addrStr s\<rparr>;
          s = Dump s;
          (currentMs, s) = get_current_ms s;
          s = s\<lparr>dueElectionFail := currentMs + interval_election_fail\<rparr>;
          s = (if peers s = [] then s\<lparr>state := LEADER\<rparr> else s)
      in for_peers (send_vote_request currentMs) (peers s) s)"

definition OnRequestVoteRequest ::
  "RequestVoteRequest \<Rightarrow> RequestVoteResponse \<Rightarrow> SRaft \<Rightarrow> int \<times> RequestVoteResponse \<times> SRaft" where
  "OnRequestVoteRequest request response s =
     (if \<not> running s then (-1, response, s)
      else
        let response = response\<lparr>vr_name := addrStr s\<rparr>;
            response = response\<lparr>vr_seq := vq_seq request\<rparr>;
            (now, s) = get_current_ms s;
            response = response\<lparr>vr_time := now\<rparr>;
            response = response\<lparr>vr_term := currentTerm s\<rparr>;
            candidateLogTermOld =
              (vq_last_log_term request < lastIncludeTerm s \<or>
               0 < length (logs s) \<and> vq_last_log_term request < le_term (last (logs s)));
            candidateLogIndexOld =
              (vq_last_log_index request <s lastIncludeIndex s \<or>
               0 < length (logs s) \<and> vq_last_log_term request = le_term (last (logs s)) \<and>
               vq_last_log_index request < of_nat (length (logs s)) + lastIncludeIndex s)
        in if vq_term request \<le> currentTerm s
           then (-1, response\<lparr>vr_vote_granted := False\<rparr>, s)
           else
             let s = s\<lparr>currentTerm := vq_term request\<rparr>
             in if candidateLogIndexOld then (-1, response\<lparr>vr_vote_granted := False\<rparr>, s)
                else if candidateLogTermOld then (-1, response\<lparr>vr_vote_granted := False\<rparr>, s)
                else
                  let s = (if state s = LEADER then s\<lparr>state := FOLLOWER\<rparr> else s);
                      response = response\<lparr>vr_vote_granted := True\<rparr>
                  in (1, response, Dump s))"

definition OnRequestVoteResponse :: "RequestVoteResponse \<Rightarrow> SRaft \<Rightarrow> SRaft" where
  "OnRequestVoteResponse response s =
     (let s = (if currentTerm s < vr_term response
               then (Dump (s\<lparr>state := FOLLOWER\<rparr>))\<lparr>currentTerm := vr_term response\<rparr>
               else s)
      in if state s \<noteq> CANDIDATE then s
         else if vr_vote_granted response then
           let s = s\<lparr>votesRecieved := votesRecieved s + 1\<rparr>
           in if of_nat (length (peers s)) div 2 < votesRecieved s
              then s\<lparr>state := LEADER\<rparr> else s
         else s)"

subsection \<open>Replication\<close>

text \<open>The measure is the signed distance from \<open>lastApplied\<close> to \<open>commitIndex\<close>.\<close>

function DoApply :: "SRaft \<Rightarrow> SRaft" where
  "DoApply s =
     (if lastApplied s <s commitIndex s then
        let s = s\<lparr>lastApplied := lastApplied s + 1\<rparr>;
            cmd = le_data (GetLogByIndex (logs s) (lastApplied s))
        in DoApply (if cmd \<noteq> [] then pushData cmd s else s)
      else s)"
  by pat_completeness auto
termination
proof (relation "measure (\<lambda>s. nat (sint (commitIndex s) - sint (lastApplied s)))", goal_cases)
  case (2 s x xa)
  then have "sint (lastApplied s) < sint (commitIndex s)" by (simp add: sless_i64)
  moreover have "sint (lastApplied s + 1) = sint (lastApplied s) + 1"
    using calculation sint_i64_range [of "commitIndex s"] by (intro sint_i64_inc) simp
  ultimately show ?case using 2 by (auto simp: pushData_def)
qed simp

declare DoApply.simps [simp del]

definition append_request :: "bool \<Rightarrow> SRaftPeer \<Rightarrow> u64 \<Rightarrow> SRaft \<Rightarrow> AppendEntriesRequest result" where
  "append_request isHeartbeat peer now s =
     (let request = \<lparr>aq_name = addrStr s, aq_term = currentTerm s, aq_prev_log_index = -1,
             aq_prev_log_term = -1, aq_leader_commit = commitIndex s, aq_entries = [],
             aq_time = now, aq_seq = 0, aq_initial = True\<rparr>
      in if isHeartbeat then Inr request
         else
           let prevLogIndex = nextIndex peer - 1;
               prevLogTerm = (if -1 <s prevLogIndex
                 then le_term (GetLogByIndex (logs s) prevLogIndex) else 0);
               request = request\<lparr>aq_prev_log_index := prevLogIndex\<rparr>;
               request = request\<lparr>aq_prev_log_term := prevLogTerm\<rparr>;
               first = (if 0 <s nextIndex peer then nextIndex peer else 0)
           in case entries_loop (logs s) first of
                None \<Rightarrow> Inl Diverges
              | Some es \<Rightarrow> Inr (request\<lparr>aq_entries := es\<rparr>))"

definition send_append :: "bool \<Rightarrow> SRaftPeer \<Rightarrow> SRaft \<Rightarrow> SRaft result" where
  "send_append isHeartbeat peer s =
     (let (now, s) = get_current_ms s
      in rbind (append_request isHeartbeat peer now s)
           (\<lambda>request. Inr (SRaftClient_AppendEntries (peerSRaftClient peer) request isHeartbeat s)))"

definition DoAppendEntries :: "bool \<Rightarrow> SRaft \<Rightarrow> SRaft result" where
  "DoAppendEntries isHeartbeat s =
     (let s = (if peers s = [] \<and> \<not> isHeartbeat
               then DoApply (s\<lparr>commitIndex := LastLogIndex (logs s)\<rparr>) else s)
      in for_peers (send_append isHeartbeat) (peers s) s)"

definition SendHeartbeat :: "SRaft \<Rightarrow> SRaft result" where
  "SendHeartbeat s = DoAppendEntries True s"

definition DoLog :: "string \<Rightarrow> SRaft \<Rightarrow> (int \<times> SRaft) result" where
  "DoLog cmd s =
     (if \<not> running s then Inr (-1, s)
      else if state s \<noteq> LEADER then Inr (-2, s)
      else
        let entry = \<lparr>le_index = LastLogIndex (logs s) + 1, le_term = currentTerm s,
                     le_command = 0, le_data = cmd\<rparr>;
            s = s\<lparr>logs := logs s @ [entry]\<rparr>;
            s = Dump s
        in rbind (DoAppendEntries False s) (\<lambda>s. Inr (1, s)))"

definition OnAppendEntriesRequest ::
  "AppendEntriesRequest \<Rightarrow> AppendEntriesResponse \<Rightarrow> SRaft \<Rightarrow>
   int \<times> AppendEntriesResponse \<times> SRaft" where
  "OnAppendEntriesRequest request response s =
     (let response = response\<lparr>ar_name := addrStr s\<rparr>;
          response = response\<lparr>ar_success := False\<rparr>;
          response = response\<lparr>ar_seq := aq_seq request\<rparr>;
          response = response\<lparr>ar_term := currentTerm s\<rparr>;
          response = response\<lparr>ar_last_log_index := LastLogIndex (logs s)\<rparr>;
          response = response\<lparr>ar_last_log_term := LastLogTerm (logs s)\<rparr>;
          (now, s) = get_current_ms s;
          response = response\<lparr>ar_time := now\<rparr>
      in if \<not> running s then (-1, response, s)
         else if aq_term request < currentTerm s then (-1, response, s)
         else if length (aq_entries request) = 0 then
           let (now, s) = get_current_ms s;
               (r, s) = get_ranged_random interval_election_low interval_election_high s;
               s = s\<lparr>dueElection := now + r\<rparr>;
               s = s\<lparr>state := FOLLOWER\<rparr>;
               s = s\<lparr>currentTerm := aq_term request\<rparr>
           in (1, response, s)
         else if BaseLogIndex (logs s) \<le>s aq_prev_log_index request then
           let response = response\<lparr>ar_success := True\<rparr>;
               logStartIndex =
                 FindLog (logs s) (aq_prev_log_term request) (aq_prev_log_index request);
               s = s\<lparr>logs := append_at (logs s) logStartIndex (aq_entries request)\<rparr>;
               response = response\<lparr>ar_last_log_index := LastLogIndex (logs s)\<rparr>;
               response = response\<lparr>ar_last_log_term := LastLogTerm (logs s)\<rparr>
           in (1, response, Dump s)
         else (1, response, Dump s))"

text \<open>
  \<open>peers_[name]\<close>: a missing key is inserted with a null pointer. Its place at the end stands for the place the
  \<open>unordered_map\<close> gives it in its iteration order, which is not specified.
\<close>

definition peers_index :: "string \<Rightarrow> SRaft \<Rightarrow> SRaft" where
  "peers_index name s =
     (if map_of (peers s) name = None then s\<lparr>peers := peers s @ [(name, None)]\<rparr> else s)"

text \<open>
  A write through the reference \<open>*(peers_[name])\<close>. When the pointer is null the reference is
  already undefined behaviour; here, as in a compiled program, the fault comes at its first use.
\<close>

definition set_peer :: "string \<Rightarrow> (SRaftPeer \<Rightarrow> SRaftPeer) \<Rightarrow> SRaft \<Rightarrow> SRaft result" where
  "set_peer name f s =
     (case map_of (peers s) name of
        Some (Some p) \<Rightarrow> Inr (s\<lparr>peers := AList.update name (Some (f p)) (peers s)\<rparr>)
      | _ \<Rightarrow> Inl NullDeref)"

fun count_votes :: "i64 \<Rightarrow> (string \<times> SRaftPeer option) list \<Rightarrow> size_t \<Rightarrow> size_t result" where
  "count_votes newCommit [] commitVote = Inr commitVote"
| "count_votes newCommit ((k, None) # ps) commitVote = Inl NullDeref"
| "count_votes newCommit ((k, Some p) # ps) commitVote =
     count_votes newCommit ps (if newCommit \<le>s matchIndex p then commitVote + 1 else commitVote)"

definition OnAppendEntriesReponse :: "AppendEntriesResponse \<Rightarrow> bool \<Rightarrow> SRaft \<Rightarrow> SRaft result" where
  "OnAppendEntriesReponse response isHeartbeat s =
     (let s = peers_index (ar_name response) s
      in if state s \<noteq> LEADER then Inr s
         else
           let s = (if currentTerm s < ar_term response then Dump (s\<lparr>state := FOLLOWER\<rparr>) else s)
           in if isHeartbeat then Inr s
              else if \<not> ar_success response then
                set_peer (ar_name response)
                  (\<lambda>p. p\<lparr>nextIndex := ar_last_log_index response + 1\<rparr>) s
              else
                let newCommit = ar_last_log_index response
                in if newCommit \<le>s commitIndex s then Inr s
                   else
                     rbind (set_peer (ar_name response)
                              (\<lambda>p. p\<lparr>nextIndex := ar_last_log_index response + 1,
                                    matchIndex := ar_last_log_index response\<rparr>) s)
                       (\<lambda>s. rbind (count_votes newCommit (peers s) 1)
                         (\<lambda>commitVote.
                            if of_nat (length (peers s)) div 2 \<le> commitVote
                            then Inr (DoApply (s\<lparr>commitIndex := newCommit\<rparr>))
                            else Inr s)))"

subsection \<open>The timer\<close>

definition timer_heartbeat :: "u64 \<Rightarrow> SRaft \<Rightarrow> SRaft result" where
  "timer_heartbeat currentMs s =
     (if state s = LEADER \<and> dueHeartBeat s < currentMs \<and> peers s \<noteq> []
      then let s = s\<lparr>dueHeartBeat := currentMs + interval_heartBeat\<rparr> in SendHeartbeat s
      else Inr s)"

definition timer_election :: "u64 \<Rightarrow> SRaft \<Rightarrow> SRaft result" where
  "timer_election currentMs s =
     (if state s = FOLLOWER \<and> dueElection s < currentMs then DoElection s else Inr s)"

definition timer_fail :: "u64 \<Rightarrow> SRaft \<Rightarrow> SRaft" where
  "timer_fail currentMs s =
     (if state s = CANDIDATE \<and> dueElectionFail s < currentMs
      then let s = s\<lparr>state := FOLLOWER\<rparr>;
               (now, s) = get_current_ms s;
               (r, s) = get_ranged_random interval_election_low interval_election_high s
           in s\<lparr>dueElection := now + r\<rparr>
      else s)"

definition OnTimer :: "SRaft \<Rightarrow> SRaft result" where
  "OnTimer s =
     (if \<not> running s then Inr s
      else
        let (currentMs, s) = get_current_ms s
        in rbind (timer_heartbeat currentMs s)
             (\<lambda>s. rbind (timer_election currentMs s)
                (\<lambda>s. Inr (timer_fail currentMs s))))"

text \<open>
  One pass of the timer thread's loop (\<open>None\<close>: the thread has returned). The fixed sleep of 30 ms
  only spaces the passes.
\<close>

definition timer_iteration :: "SRaft \<Rightarrow> SRaft result option" where
  "timer_iteration s = (if toDestroy s then None else Some (OnTimer s))"

end
