(* ===== verification/SRaftRpc.thy ===== *)
theory SRaftRpc
  imports SRaft
begin

text \<open>
  The RPC glue of \<open>SRaftRpc.h\<close> and \<open>SRaftRpc.cc\<close>. The transport is gRPC and not modelled: what a stub
  call gives is a parameter, \<open>Some response\<close> for status OK and \<open>None\<close> for any other status. A failed
  call leaves the response object as it was constructed, and the code goes on with it.

  The client's \<open>RequestVote\<close> and \<open>AppendEntries\<close> start a detached thread; starting it is the entry
  in \<open>calls\<close> that \<open>SRaftClient_RequestVote\<close> and \<open>SRaftClient_AppendEntries\<close> of \<open>SRaft\<close> make, and
  the body that runs once the call has returned is here. The service methods hand the request to the
  node and ignore its result: the status is always OK.
\<close>

datatype Status = OK

definition response_of :: "'r option \<Rightarrow> 'r \<Rightarrow> 'r" where
  "response_of status response = (case status of Some r \<Rightarrow> r | None \<Rightarrow> response)"

lemma response_of_simps [simp]: "response_of (Some r) d = r" "response_of None d = d"
  by (simp_all add: response_of_def)

definition RequestVote_thread :: "RequestVoteResponse option \<Rightarrow> SRaft \<Rightarrow> SRaft" where
  "RequestVote_thread status node =
     (let response = response_of status RequestVoteResponse_default
      in OnRequestVoteResponse response node)"

definition AppendEntries_thread ::
  "AppendEntriesResponse option \<Rightarrow> bool \<Rightarrow> SRaft \<Rightarrow> SRaft result" where
  "AppendEntries_thread status isHeartbeat node =
     (let response = response_of status AppendEntriesResponse_default
      in OnAppendEntriesReponse response isHeartbeat node)"

definition RaftMessagesServiceImpl_RequestVote ::
  "RequestVoteRequest \<Rightarrow> SRaft \<Rightarrow> Status \<times> RequestVoteResponse \<times> SRaft" where
  "RaftMessagesServiceImpl_RequestVote request node =
     (let (result, response, node) = OnRequestVoteRequest request RequestVoteResponse_default node
      in (OK, response, node))"

definition RaftMessagesServiceImpl_AppendEntries ::
  "AppendEntriesRequest \<Rightarrow> SRaft \<Rightarrow> Status \<times> AppendEntriesResponse \<times> SRaft" where
  "RaftMessagesServiceImpl_AppendEntries request node =
     (let (result, response, node) = OnAppendEntriesRequest request AppendEntriesResponse_default node
      in (OK, response, node))"

text \<open>\<open>InstallSnapshot\<close> does nothing and leaves the response as it is.\<close>

definition RaftMessagesServiceImpl_InstallSnapshot :: "'q \<Rightarrow> 'r \<Rightarrow> SRaft \<Rightarrow> Status \<times> 'r \<times> SRaft" where
  "RaftMessagesServiceImpl_InstallSnapshot request response node = (OK, response, node)"

lemma failed_vote_call:
  "RequestVote_thread None s = s"
proof -
  have "\<not> currentTerm s < 0" by simp
  then show ?thesis
    by (simp add: RequestVote_thread_def OnRequestVoteResponse_def RequestVoteResponse_default_def)
qed

end
