(* ===== verification/SRaftLemmas.thy ===== *)
theory SRaftLemmas
  imports SRaft
begin

text \<open>
  What the operations of \<open>SRaft\<close> leave alone: frame lemmas for the loops over the peers, the closed
  form of \<open>DoApply\<close> (one step to the committed index, pushing the commands in between) and, for each
  handler, the fields it writes. The later theories use these instead of the definitions.
\<close>

subsection \<open>Frame facts of the loops\<close>

lemma for_peers_inv:
  assumes "\<And>p s s'. f p s = Inr s' \<Longrightarrow> I s \<Longrightarrow> I s'"
  shows "for_peers f ps s = Inr s' \<Longrightarrow> I s \<Longrightarrow> I s'"
proof (induction ps arbitrary: s)
  case Nil
  then show ?case by simp
next
  case (Cons kp ps)
  obtain k q where kp: "kp = (k, q)" by (cases kp)
  with Cons.prems obtain p a where "q = Some p" "f p s = Inr a" "for_peers f ps a = Inr s'"
    by (cases q) (auto simp: rbind_Inr_iff)
  then show ?case using Cons assms by blast
qed

text \<open>Two states that differ at most in the started calls and the number of clock readings.\<close>

definition same_but_calls :: "SRaft \<Rightarrow> SRaft \<Rightarrow> bool" where
  "same_but_calls s s' \<longleftrightarrow> s\<lparr>ticks := 0, calls := []\<rparr> = s'\<lparr>ticks := 0, calls := []\<rparr>"

lemma same_but_calls_refl [simp]: "same_but_calls s s"
  by (simp add: same_but_calls_def)

lemma same_but_calls_trans: "same_but_calls a b \<Longrightarrow> same_but_calls b c \<Longrightarrow> same_but_calls a c"
  by (simp add: same_but_calls_def)

lemma same_but_calls_eq: "same_but_calls s s' \<Longrightarrow> s' = s\<lparr>ticks := ticks s', calls := calls s'\<rparr>"
  by (cases s; cases s') (simp add: same_but_calls_def)

lemma same_but_callsD:
  assumes "same_but_calls s s'"
  shows "state s' = state s" "logs s' = logs s" "votedFor s' = votedFor s"
    "votesRecieved s' = votesRecieved s" "commitIndex s' = commitIndex s"
    "lastApplied s' = lastApplied s" "currentTerm s' = currentTerm s" "peers s' = peers s"
    "addrStr s' = addrStr s" "running s' = running s" "channel s' = channel s"
    "persist_file s' = persist_file s" "fs_ok s' = fs_ok s" "dueElection s' = dueElection s"
    "lastIncludeTerm s' = lastIncludeTerm s" "lastIncludeIndex s' = lastIncludeIndex s"
    "clock s' = clock s" "rng s' = rng s" "draws s' = draws s" "toDestroy s' = toDestroy s"
  by (subst same_but_calls_eq [OF assms], simp)+

text \<open>What no RPC changes: who a node is, that it runs, and what its snapshot holds.\<close>

definition same_identity :: "SRaft \<Rightarrow> SRaft \<Rightarrow> bool" where
  "same_identity s t \<longleftrightarrow> addrStr t = addrStr s \<and> running t = running s \<and> fs_ok t = fs_ok s \<and>
     lastIncludeIndex t = lastIncludeIndex s \<and> lastIncludeTerm t = lastIncludeTerm s"

lemma same_identity_refl [simp]: "same_identity s s"
  by (simp add: same_identity_def)

lemma same_identity_trans: "same_identity a b \<Longrightarrow> same_identity b c \<Longrightarrow> same_identity a c"
  by (simp add: same_identity_def)

lemma same_identity_calls: "same_but_calls s t \<Longrightarrow> same_identity s t"
  by (simp add: same_identity_def same_but_callsD)

lemma send_vote_request_frame: "send_vote_request n p s = Inr s' \<Longrightarrow> same_but_calls s s'"
  by (auto simp: send_vote_request_def SRaftClient_RequestVote_def same_but_calls_def)

lemma send_append_frame: "send_append hb p s = Inr s' \<Longrightarrow> same_but_calls s s'"
  by (auto simp: send_append_def get_current_ms_def SRaftClient_AppendEntries_def
        same_but_calls_def rbind_Inr_iff)

lemma for_peers_votes_frame:
  "for_peers (send_vote_request n) ps s = Inr s' \<Longrightarrow> same_but_calls s s'"
  by (rule for_peers_inv [where I = "same_but_calls s"])
     (auto intro: same_but_calls_trans send_vote_request_frame)

lemma for_peers_append_frame:
  "for_peers (send_append hb) ps s = Inr s' \<Longrightarrow> same_but_calls s s'"
  by (rule for_peers_inv [where I = "same_but_calls s"])
     (auto intro: same_but_calls_trans send_append_frame)

subsection \<open>Applying the log\<close>

definition pending_cmds :: "SRaft \<Rightarrow> string list" where
  "pending_cmds s = filter (\<lambda>cmd. cmd \<noteq> [])
     (map (\<lambda>i. le_data (GetLogByIndex (logs s) (word_of_int i)))
        [sint (lastApplied s) + 1 .. sint (commitIndex s)])"

lemma word_of_int_sint_inc: "(word_of_int (sint (a :: i64) + 1) :: i64) = a + 1"
  by simp

lemma DoApply_idle: "\<not> lastApplied s <s commitIndex s \<Longrightarrow> DoApply s = s"
  by (simp add: DoApply.simps)

lemma DoApply_eq:
  "DoApply s = s\<lparr>lastApplied := (if lastApplied s <s commitIndex s then commitIndex s else lastApplied s),
                 channel := map_option (\<lambda>que. que @ pending_cmds s) (channel s)\<rparr>"
proof (induction s rule: DoApply.induct)
  case (1 s)
  show ?case
  proof (cases "lastApplied s <s commitIndex s")
    case False
    then have "pending_cmds s = []" by (simp add: pending_cmds_def sless_i64)
    moreover have "map_option (\<lambda>que. que) (channel s) = channel s" by (simp add: option.map_ident)
    ultimately show ?thesis using False by (simp add: DoApply_idle)
  next
    case True
    define t where "t = s\<lparr>lastApplied := lastApplied s + 1\<rparr>"
    define cmd where "cmd = le_data (GetLogByIndex (logs t) (lastApplied t))"
    define u where "u = (if cmd \<noteq> [] then pushData cmd t else t)"
    have lt: "sint (lastApplied s) < sint (commitIndex s)" using True by (simp add: sless_i64)
    have inc: "sint (lastApplied s + 1) = sint (lastApplied s) + 1"
      using lt sint_i64_range [of "commitIndex s"] by (intro sint_i64_inc) simp
    have step: "DoApply s = DoApply u"
      using True by (subst DoApply.simps) (simp add: Let_def t_def cmd_def u_def)
    have IH: "DoApply u = u\<lparr>lastApplied := (if lastApplied u <s commitIndex u then commitIndex u else lastApplied u),
                 channel := map_option (\<lambda>que. que @ pending_cmds u) (channel u)\<rparr>"
      using 1 True by (simp add: t_def cmd_def u_def)
    have u: "lastApplied u = lastApplied s + 1" "commitIndex u = commitIndex s" "logs u = logs s"
      by (simp_all add: u_def t_def pushData_def)
    have p: "pending_cmds s = (if cmd \<noteq> [] then [cmd] else []) @ pending_cmds u"
      using lt inc u by (simp add: pending_cmds_def upto_rec1 cmd_def t_def)
    have la: "(if lastApplied u <s commitIndex u then commitIndex u else lastApplied u) = commitIndex s"
      using lt inc u by (auto simp: sless_i64 sint_i64_eq_iff)
    show ?thesis
      unfolding step IH la p using True
      by (auto simp: u_def t_def pushData_def MyChannel_pushData_def option.map_comp comp_def)
  qed
qed

subsection \<open>What each handler writes\<close>

lemma Dump_simps [simp]:
  "state (Dump s) = state s" "logs (Dump s) = logs s" "votedFor (Dump s) = votedFor s"
  "votesRecieved (Dump s) = votesRecieved s" "commitIndex (Dump s) = commitIndex s"
  "lastApplied (Dump s) = lastApplied s" "currentTerm (Dump s) = currentTerm s"
  "peers (Dump s) = peers s" "addrStr (Dump s) = addrStr s" "running (Dump s) = running s"
  "channel (Dump s) = channel s" "fs_ok (Dump s) = fs_ok s"
  "lastIncludeTerm (Dump s) = lastIncludeTerm s" "lastIncludeIndex (Dump s) = lastIncludeIndex s"
  "toDestroy (Dump s) = toDestroy s" "calls (Dump s) = calls s"
  by (simp_all add: Dump_def)

lemma persist_Dump: "fs_ok s \<Longrightarrow> persist_file (Dump s) = Some \<lparr>pr_term = currentTerm s,
    pr_name = addrStr s, pr_vote_for = votedFor s, pr_entries = logs s, pr_last_seq = 0\<rparr>"
  by (simp add: Dump_def)

lemma DoApply_simps [simp]:
  "state (DoApply s) = state s" "logs (DoApply s) = logs s" "votedFor (DoApply s) = votedFor s"
  "votesRecieved (DoApply s) = votesRecieved s" "commitIndex (DoApply s) = commitIndex s"
  "currentTerm (DoApply s) = currentTerm s" "peers (DoApply s) = peers s"
  "addrStr (DoApply s) = addrStr s" "running (DoApply s) = running s" "fs_ok (DoApply s) = fs_ok s"
  "persist_file (DoApply s) = persist_file s" "calls (DoApply s) = calls s"
  "lastIncludeTerm (DoApply s) = lastIncludeTerm s" "lastIncludeIndex (DoApply s) = lastIncludeIndex s"
  by (simp_all add: DoApply_eq)

lemma DoApply_applied: "commitIndex s \<le>s lastApplied (DoApply s)"
  by (auto simp: DoApply_eq sless_i64 sle_i64)

lemma DoAppendEntries_same:
  assumes "DoAppendEntries hb s = Inr s'"
  shows "same_but_calls
    (if peers s = [] \<and> \<not> hb then DoApply (s\<lparr>commitIndex := LastLogIndex (logs s)\<rparr>) else s) s'"
  by (rule for_peers_append_frame [OF assms [unfolded DoAppendEntries_def Let_def]])

lemma DoAppendEntries_frame:
  assumes "DoAppendEntries hb s = Inr s'"
  shows "state s' = state s" "logs s' = logs s" "votedFor s' = votedFor s"
    "votesRecieved s' = votesRecieved s" "currentTerm s' = currentTerm s" "peers s' = peers s"
    "addrStr s' = addrStr s" "running s' = running s" "persist_file s' = persist_file s"
    "fs_ok s' = fs_ok s" "lastIncludeTerm s' = lastIncludeTerm s"
    "lastIncludeIndex s' = lastIncludeIndex s"
  by (simp_all add: same_but_callsD [OF DoAppendEntries_same [OF assms]])

lemma SendHeartbeat_frame: "SendHeartbeat s = Inr s' \<Longrightarrow> same_but_calls s s'"
  by (auto simp: SendHeartbeat_def DoAppendEntries_def dest: for_peers_append_frame)

definition elected :: "SRaft \<Rightarrow> SRaft" where
  "elected s = (Dump (s\<lparr>state := CANDIDATE, currentTerm := currentTerm s + 1, votesRecieved := 1,
       votedFor := addrStr s\<rparr>))
     \<lparr>dueElectionFail := clock s (ticks s) + interval_election_fail,
      state := (if peers s = [] then LEADER else CANDIDATE)\<rparr>"

lemma DoElection_eq:
  "DoElection s = for_peers (send_vote_request (clock s (ticks s))) (peers s)
     ((elected s)\<lparr>ticks := Suc (ticks s)\<rparr>)"
  by (cases s) (simp add: DoElection_def get_current_ms_def elected_def Dump_def)

lemma DoElection_same:
  assumes "DoElection s = Inr s'"
  shows "same_but_calls (elected s) s'"
proof -
  have "same_but_calls ((elected s)\<lparr>ticks := Suc (ticks s)\<rparr>) s'"
    using assms by (simp add: DoElection_eq for_peers_votes_frame)
  then show ?thesis by (simp add: same_but_calls_def)
qed

lemma DoElection_effect:
  assumes "DoElection s = Inr s'"
  shows "state s' = (if peers s = [] then LEADER else CANDIDATE)"
    "currentTerm s' = currentTerm s + 1" "votesRecieved s' = 1" "votedFor s' = addrStr s"
    "logs s' = logs s" "peers s' = peers s" "addrStr s' = addrStr s" "running s' = running s"
    "commitIndex s' = commitIndex s" "lastApplied s' = lastApplied s" "channel s' = channel s"
    "fs_ok s' = fs_ok s" "lastIncludeTerm s' = lastIncludeTerm s"
    "lastIncludeIndex s' = lastIncludeIndex s"
    "persist_file s' = (if fs_ok s then Some \<lparr>pr_term = currentTerm s + 1, pr_name = addrStr s,
       pr_vote_for = addrStr s, pr_entries = logs s, pr_last_seq = 0\<rparr> else persist_file s)"
  by (simp_all add: same_but_callsD [OF DoElection_same [OF assms]] elected_def Dump_def)

text \<open>The fields the correctness arguments are about; timeouts, clock and started calls left out.\<close>

definition core :: "SRaft \<Rightarrow> State \<times> log \<times> string \<times> u64 \<times> i64 \<times> i64 \<times> u64 \<times>
    (string \<times> SRaftPeer option) list \<times> string \<times> bool \<times> string list option \<times>
    PersistRecord option \<times> bool" where
  "core s = (state s, logs s, votedFor s, votesRecieved s, commitIndex s, lastApplied s,
     currentTerm s, peers s, addrStr s, running s, channel s, persist_file s, fs_ok s)"

lemma core_same_but_calls: "same_but_calls s s' \<Longrightarrow> core s' = core s"
  by (simp add: core_def same_but_callsD)

lemma timer_heartbeat_core: "timer_heartbeat now s = Inr s' \<Longrightarrow> core s' = core s"
  by (auto simp: timer_heartbeat_def core_def dest!: SendHeartbeat_frame simp: same_but_callsD
      split: if_splits)

lemma timer_fail_core:
  "core (timer_fail now s) = core s \<or>
   state s = CANDIDATE \<and> core (timer_fail now s) = core (s\<lparr>state := FOLLOWER\<rparr>)"
  by (simp add: timer_fail_def core_def get_current_ms_def get_ranged_random_def)

lemma timer_election_cases:
  assumes "timer_election now s = Inr s'"
  obtains (idle) "s' = s" | (election) "state s = FOLLOWER" "DoElection s = Inr s'"
  using assms by (auto simp: timer_election_def split: if_splits)

text \<open>
  A pass of the timer either starts an election, from the follower state, or keeps everything but
  that an unsuccessful candidate becomes a follower.
\<close>

lemma OnTimer_cases:
  assumes "OnTimer s = Inr s'"
  obtains (quiet) "core s' = core s"
    | (give_up) "state s = CANDIDATE" "core s' = core (s\<lparr>state := FOLLOWER\<rparr>)"
    | (election) e t where "running s" "state s = FOLLOWER" "core e = core s" "DoElection e = Inr t"
        "core s' = core t \<or> state t = CANDIDATE \<and> core s' = core (t\<lparr>state := FOLLOWER\<rparr>)"
proof (cases "running s")
  case False
  with assms have "s' = s" by (simp add: OnTimer_def)
  then show ?thesis by (intro quiet) simp
next
  case True
  define now where "now = clock s (ticks s)"
  obtain s1 s2 where s1: "timer_heartbeat now (s\<lparr>ticks := Suc (ticks s)\<rparr>) = Inr s1"
    and s2: "timer_election now s1 = Inr s2" and s': "s' = timer_fail now s2"
    using assms True by (auto simp: OnTimer_def get_current_ms_def now_def rbind_Inr_iff)
  have c1: "core s1 = core s"
    using timer_heartbeat_core [OF s1] by (simp add: core_def)
  show ?thesis
    using s2
  proof (cases rule: timer_election_cases)
    case idle
    then show ?thesis
      using timer_fail_core [of now s2] c1 s' quiet give_up by (auto simp: core_def)
  next
    case E: election
    show ?thesis
      using timer_fail_core [of now s2] s' c1 E True
      by (intro election [of s1 s2]) (auto simp: core_def)
  qed
qed

lemma OnRequestVoteResponse_frame:
  "logs (OnRequestVoteResponse r s) = logs s" "peers (OnRequestVoteResponse r s) = peers s"
  "running (OnRequestVoteResponse r s) = running s" "fs_ok (OnRequestVoteResponse r s) = fs_ok s"
  "addrStr (OnRequestVoteResponse r s) = addrStr s" "channel (OnRequestVoteResponse r s) = channel s"
  "commitIndex (OnRequestVoteResponse r s) = commitIndex s"
  "lastApplied (OnRequestVoteResponse r s) = lastApplied s"
  "votedFor (OnRequestVoteResponse r s) = votedFor s"
  "currentTerm (OnRequestVoteResponse r s) = max (currentTerm s) (vr_term r)"
  "persist_file (OnRequestVoteResponse r s) =
     (if currentTerm s < vr_term r then persist_file (Dump s) else persist_file s)"
  by (auto simp: OnRequestVoteResponse_def Let_def max_def Dump_def)

subsection \<open>The vote request handler by cases\<close>

definition log_outdated :: "RequestVoteRequest \<Rightarrow> SRaft \<Rightarrow> bool" where
  "log_outdated request s \<longleftrightarrow>
     vq_last_log_index request <s lastIncludeIndex s \<or>
     vq_last_log_term request < lastIncludeTerm s \<or>
     logs s \<noteq> [] \<and>
       (vq_last_log_term request < le_term (last (logs s)) \<or>
        vq_last_log_term request = le_term (last (logs s)) \<and>
        vq_last_log_index request < of_nat (length (logs s)) + lastIncludeIndex s)"

definition grants :: "RequestVoteRequest \<Rightarrow> SRaft \<Rightarrow> bool" where
  "grants request s \<longleftrightarrow> running s \<and> currentTerm s < vq_term request \<and> \<not> log_outdated request s"

definition vote_reply :: "RequestVoteRequest \<Rightarrow> SRaft \<Rightarrow> RequestVoteResponse" where
  "vote_reply request s =
     \<lparr>vr_name = addrStr s, vr_term = currentTerm s, vr_vote_granted = grants request s,
      vr_time = clock s (ticks s), vr_seq = vq_seq request\<rparr>"

definition granted_state :: "RequestVoteRequest \<Rightarrow> SRaft \<Rightarrow> SRaft" where
  "granted_state request s =
     (let t = s\<lparr>ticks := Suc (ticks s), currentTerm := vq_term request\<rparr>
      in Dump (if state s = LEADER then t\<lparr>state := FOLLOWER\<rparr> else t))"

lemma granted_state_simps [simp]:
  "logs (granted_state r s) = logs s" "running (granted_state r s) = running s"
  "currentTerm (granted_state r s) = vq_term r" "fs_ok (granted_state r s) = fs_ok s"
  "peers (granted_state r s) = peers s" "addrStr (granted_state r s) = addrStr s"
  "commitIndex (granted_state r s) = commitIndex s" "channel (granted_state r s) = channel s"
  "lastApplied (granted_state r s) = lastApplied s" "votedFor (granted_state r s) = votedFor s"
  "votesRecieved (granted_state r s) = votesRecieved s"
  "state (granted_state r s) = (if state s = LEADER then FOLLOWER else state s)"
  by (simp_all add: granted_state_def Let_def)

lemma persist_granted_state: "fs_ok s \<Longrightarrow> persist_file (granted_state r s) =
    Some \<lparr>pr_term = vq_term r, pr_name = addrStr s, pr_vote_for = votedFor s,
          pr_entries = logs s, pr_last_seq = 0\<rparr>"
  by (simp add: granted_state_def Let_def persist_Dump)

lemma OnRequestVoteRequest_stopped:
  "\<not> running s \<Longrightarrow> OnRequestVoteRequest request response s = (-1, response, s)"
  by (simp add: OnRequestVoteRequest_def)

lemma OnRequestVoteRequest_old_term:
  "running s \<Longrightarrow> vq_term request \<le> currentTerm s \<Longrightarrow>
   OnRequestVoteRequest request response s =
     (-1, vote_reply request s, s\<lparr>ticks := Suc (ticks s)\<rparr>)"
  by (cases response)
     (auto simp add: OnRequestVoteRequest_def get_current_ms_def vote_reply_def grants_def Let_def)

lemma OnRequestVoteRequest_outdated:
  "running s \<Longrightarrow> currentTerm s < vq_term request \<Longrightarrow> log_outdated request s \<Longrightarrow>
   OnRequestVoteRequest request response s =
     (-1, vote_reply request s, s\<lparr>ticks := Suc (ticks s), currentTerm := vq_term request\<rparr>)"
  by (cases response)
     (auto simp add: OnRequestVoteRequest_def get_current_ms_def vote_reply_def grants_def Let_def
        log_outdated_def not_le)

lemma OnRequestVoteRequest_granted:
  "grants request s \<Longrightarrow>
   OnRequestVoteRequest request response s =
     (1, vote_reply request s,
      granted_state request s)"
  by (cases response)
     (auto simp add: OnRequestVoteRequest_def get_current_ms_def vote_reply_def grants_def Let_def
        log_outdated_def granted_state_def not_le)

lemma OnRequestVoteRequest_cases:
  assumes "OnRequestVoteRequest request response s = (r, response', s')"
  obtains (stopped) "\<not> running s" "r = -1" "response' = response" "s' = s"
  | (old_term) "running s" "vq_term request \<le> currentTerm s" "r = -1"
      "response' = vote_reply request s" "s' = s\<lparr>ticks := Suc (ticks s)\<rparr>"
      "\<not> vr_vote_granted response'"
  | (outdated) "running s" "currentTerm s < vq_term request" "log_outdated request s" "r = -1"
      "response' = vote_reply request s" "\<not> vr_vote_granted response'"
      "s' = s\<lparr>ticks := Suc (ticks s), currentTerm := vq_term request\<rparr>"
  | (granted) "grants request s" "r = 1" "response' = vote_reply request s"
      "vr_vote_granted response'"
      "s' = granted_state request s"
proof (cases "running s")
  case False
  from OnRequestVoteRequest_stopped [OF this, of request response] assms
  have "r = -1" "response' = response" "s' = s" by simp_all
  with False show ?thesis by (rule stopped)
next
  case run: True
  consider "vq_term request \<le> currentTerm s" | "currentTerm s < vq_term request" "log_outdated request s"
    | "grants request s" using run by (metis grants_def not_le)
  then show ?thesis
  proof cases
    case 1
    from OnRequestVoteRequest_old_term [OF run 1, of response] assms
    have "r = -1" "response' = vote_reply request s" "s' = s\<lparr>ticks := Suc (ticks s)\<rparr>" by simp_all
    moreover have "\<not> vr_vote_granted (vote_reply request s)"
      using 1 by (auto simp: vote_reply_def grants_def)
    ultimately show ?thesis using run 1 old_term by blast
  next
    case 2
    from OnRequestVoteRequest_outdated [OF run 2, of response] assms
    have "r = -1" "response' = vote_reply request s"
      "s' = s\<lparr>ticks := Suc (ticks s), currentTerm := vq_term request\<rparr>" by simp_all
    moreover have "\<not> vr_vote_granted (vote_reply request s)"
      using 2 by (simp add: vote_reply_def grants_def)
    ultimately show ?thesis using run 2 outdated by blast
  next
    case 3
    from OnRequestVoteRequest_granted [OF 3, of response] assms
    have "r = 1" "response' = vote_reply request s" "s' = granted_state request s" by simp_all
    moreover have "vr_vote_granted (vote_reply request s)"
      using 3 by (simp add: vote_reply_def)
    ultimately show ?thesis using 3 granted by blast
  qed
qed

end
