(* ===== verification/NodeSystem.thy ===== *)
theory NodeSystem
  imports SRaftLemmas
begin

text \<open>
  One Raft node and everything that can happen to it: the operations of \<open>SRaft\<close> as the events of a
  transition system, in any order (each runs under the node's mutex), including a crash between
  two operations followed by a new process that finds the file again (\<open>Restart\<close>). The history \<open>h\<close>
  lists the votes the node has cast since its file was first written, in order: its own candidacies
  and the votes it granted.

  An event is \<open>enabled\<close> when it can occur: a reply only arrives for a call of this process, which
  therefore runs; the timer fires while the 64-bit term counter is not exhausted.
\<close>

datatype node_event =
    Tick
  | VoteRequest RequestVoteRequest
  | VoteReply RequestVoteResponse
  | AppendRequest AppendEntriesRequest
  | AppendReply AppendEntriesResponse bool
  | ClientCommand string
  | JoinPeer string
  | Start
  | Restart "nat \<Rightarrow> u64" "nat \<Rightarrow> u64 \<Rightarrow> u64 \<Rightarrow> u64"

fun node_step :: "node_event \<Rightarrow> SRaft \<Rightarrow> SRaft result" where
  "node_step Tick s = OnTimer s"
| "node_step (VoteRequest r) s = Inr (snd (snd (OnRequestVoteRequest r RequestVoteResponse_default s)))"
| "node_step (VoteReply r) s = Inr (OnRequestVoteResponse r s)"
| "node_step (AppendRequest r) s =
     Inr (snd (snd (OnAppendEntriesRequest r AppendEntriesResponse_default s)))"
| "node_step (AppendReply r hb) s = OnAppendEntriesReponse r hb s"
| "node_step (ClientCommand cmd) s = rbind (DoLog cmd s) (\<lambda>(r, s). Inr s)"
| "node_step (JoinPeer addr) s = Inr (AddPeer addr s)"
| "node_step Start s = Inr (Run s)"
| "node_step (Restart clk rnd) s =
     Inr (new_SRaft (addrStr s) (map_option (\<lambda>_. []) (channel s)) clk rnd (persist_file s))"

fun enabled :: "node_event \<Rightarrow> SRaft \<Rightarrow> bool" where
  "enabled Tick s \<longleftrightarrow> currentTerm s \<noteq> -1"
| "enabled (VoteReply r) s \<longleftrightarrow> running s"
| "enabled (AppendReply r hb) s \<longleftrightarrow> running s"
| "enabled _ s \<longleftrightarrow> True"

type_synonym votes = "(u64 \<times> string) list"

fun votes_cast :: "node_event \<Rightarrow> SRaft \<Rightarrow> votes" where
  "votes_cast Tick s =
     (case OnTimer s of
        Inl e \<Rightarrow> []
      | Inr s' \<Rightarrow> if currentTerm s' \<noteq> currentTerm s then [(currentTerm s', addrStr s)] else [])"
| "votes_cast (VoteRequest r) s =
     (if vr_vote_granted (fst (snd (OnRequestVoteRequest r RequestVoteResponse_default s)))
      then [(vq_term r, vq_name r)] else [])"
| "votes_cast _ s = []"

inductive node_run :: "SRaft \<times> votes \<Rightarrow> SRaft \<times> votes \<Rightarrow> bool" where
  node_runI: "enabled ev s \<Longrightarrow> node_step ev s = Inr s' \<Longrightarrow>
     node_run (s, h) (s', h @ votes_cast ev s)"

inductive_cases node_runE: "node_run (s, h) (s', h')"

definition fresh_node :: "SRaft \<times> votes \<Rightarrow> bool" where
  "fresh_node = (\<lambda>(s, h). (\<exists>addr chan clk rnd. s = new_SRaft addr chan clk rnd None) \<and> h = [])"

text \<open>The invariant: the terms of the votes grow, and the node and its file know them all.\<close>

definition votes_inv :: "SRaft \<times> votes \<Rightarrow> bool" where
  "votes_inv = (\<lambda>(s, h). sorted_wrt (<) (map fst h) \<and> fs_ok s \<and>
     (\<forall>v \<in> set h. (\<exists>r. persist_file s = Some r \<and> fst v \<le> pr_term r) \<and>
        (running s \<longrightarrow> fst v \<le> currentTerm s)))"

text \<open>A step of a node without a vote: the file may be rewritten, with the node's term.\<close>

definition votes_kept :: "SRaft \<Rightarrow> SRaft \<Rightarrow> bool" where
  "votes_kept s s' \<longleftrightarrow> fs_ok s' = fs_ok s \<and> (running s' \<longrightarrow> running s \<and> currentTerm s \<le> currentTerm s') \<and>
     (persist_file s' = persist_file s \<or>
      running s \<and> (\<exists>r. persist_file s' = Some r \<and> currentTerm s \<le> pr_term r))"

lemma votes_inv_kept: "votes_inv (s, h) \<Longrightarrow> votes_kept s s' \<Longrightarrow> votes_inv (s', h)"
  by (fastforce simp: votes_inv_def votes_kept_def)

lemma votes_inv_cast:
  assumes "votes_inv (s, h)" "running s" "currentTerm s < t" "fs_ok s'" "persist_file s' = Some r"
    "pr_term r = t" "currentTerm s' = t"
  shows "votes_inv (s', h @ [(t, c)])"
  using assms by (fastforce simp: votes_inv_def sorted_wrt_append)

lemma votes_kept_AppendRequest:
  "votes_kept s (snd (snd (OnAppendEntriesRequest r rsp s)))"
  by (auto simp: OnAppendEntriesRequest_def Let_def get_current_ms_def get_ranged_random_def
      votes_kept_def Dump_def)

lemma votes_kept_VoteReply: "running s \<Longrightarrow> votes_kept s (OnRequestVoteResponse r s)"
  by (auto simp: votes_kept_def OnRequestVoteResponse_frame Dump_def max_def)
lemma set_peer_frame:
  "set_peer n f s = Inr s' \<Longrightarrow> \<exists>ps. s' = s\<lparr>peers := ps\<rparr>"
  by (auto simp: set_peer_def split: option.splits)
lemma votes_kept_AppendReply:
  assumes "OnAppendEntriesReponse r hb s = Inr s'" "running s"
  shows "votes_kept s s'"
proof -
  have P: "votes_kept s (DoApply (t\<lparr>commitIndex := c\<rparr>)) \<longleftrightarrow> votes_kept s t"
     "votes_kept s (t\<lparr>peers := ps\<rparr>) \<longleftrightarrow> votes_kept s t" for t c ps
    by (simp_all add: votes_kept_def)
  have "votes_kept s (peers_index n s)" for n by (simp add: votes_kept_def peers_index_def)
  moreover have "votes_kept s (Dump ((peers_index n s)\<lparr>state := FOLLOWER\<rparr>))" for n 
    using assms(2) by (simp add: votes_kept_def peers_index_def Dump_def)
  ultimately show ?thesis using assms
    by (auto simp: OnAppendEntriesReponse_def Let_def rbind_Inr_iff P dest!: set_peer_frame split: if_splits)
qed

lemma votes_kept_Client:
  assumes "DoLog cmd s = Inr (r, s')" 
  shows "votes_kept s s'"
  using assms
    by (auto simp: DoLog_def Let_def rbind_Inr_iff votes_kept_def DoAppendEntries_frame persist_Dump Dump_def split: if_splits)

lemma votes_inv_Tick:
  assumes "votes_inv (s, h)" "OnTimer s = Inr s'" "currentTerm s \<noteq> -1"
  shows "votes_inv (s', h @ votes_cast Tick s)"
  using assms(2)
proof (cases rule: OnTimer_cases)
  case quiet
  then have "votes_kept s s'" by (auto simp: core_def votes_kept_def)
  moreover have "votes_cast Tick s = []" using quiet assms(2) by (simp add: core_def)
  ultimately show ?thesis using votes_inv_kept [OF assms(1)] by simp
next
  case give_up
  then have "votes_kept s s'" by (auto simp: core_def votes_kept_def)
  moreover have "votes_cast Tick s = []" using give_up assms(2) by (simp add: core_def)
  ultimately show ?thesis using votes_inv_kept [OF assms(1)] by simp
next
  case (election e t)
  have ok: "fs_ok s" using assms(1) by (simp add: votes_inv_def)
  from election have e: "currentTerm e = currentTerm s" "fs_ok e = fs_ok s" "addrStr e = addrStr s"
    by (simp_all add: core_def)
  from election(5) have t: "currentTerm s' = currentTerm t" "persist_file s' = persist_file t"
      "fs_ok s' = fs_ok t" by (auto simp: core_def)
  note eff = DoElection_effect [OF election(4)]
  have "votes_cast Tick s = [(currentTerm s + 1, addrStr s)]"
    using assms(2) t e eff(2) by simp
  then show ?thesis
    using votes_inv_cast [OF assms(1) election(1) u64_less_inc [OF assms(3)], of s'] t e eff ok by simp
qed

lemma votes_inv_VoteRequest:
  assumes "votes_inv (s, h)"
  shows "votes_inv (snd (snd (OnRequestVoteRequest r RequestVoteResponse_default s)),
                    h @ votes_cast (VoteRequest r) s)"
proof -
  obtain x rsp s' where o: "OnRequestVoteRequest r RequestVoteResponse_default s = (x, rsp, s')"
    by (cases "OnRequestVoteRequest r RequestVoteResponse_default s") auto
  then show ?thesis
  proof (cases rule: OnRequestVoteRequest_cases)
    case granted
    have ok: "fs_ok s" using assms by (simp add: votes_inv_def)
    then show ?thesis using granted o
       votes_inv_cast [OF assms, of "vq_term r" s'] 
      by (simp add: grants_def persist_granted_state)
  next
    case outdated
    then have "votes_kept s s'" by (auto simp: votes_kept_def)
    then show ?thesis using outdated o votes_inv_kept [OF assms] by simp
  next
    case old_term
    then have "votes_kept s s'" by (auto simp: votes_kept_def)
    then show ?thesis using old_term o votes_inv_kept [OF assms] by simp
  next
    case stopped
    then show ?thesis using o assms by (simp add: RequestVoteResponse_default_def)
  qed
qed

lemma votes_inv_Start: "votes_inv (s, h) \<Longrightarrow> votes_inv (Run s, h)"
  by (fastforce simp: votes_inv_def Run_def Load_def get_current_ms_def get_ranged_random_def
      split: option.splits)

lemma votes_inv_step:
  assumes "votes_inv (s, h)" "enabled ev s" "node_step ev s = Inr s'"
  shows "votes_inv (s', h @ votes_cast ev s)"
proof (cases ev)
  case Tick
  then show ?thesis using assms votes_inv_Tick by simp
next
  case (VoteRequest r)
  then show ?thesis using assms(3) votes_inv_VoteRequest [OF assms(1), of r] by simp
next
  case (VoteReply r)
  then show ?thesis using assms votes_inv_kept [OF assms(1) votes_kept_VoteReply] by auto
next
  case (AppendRequest r)
  then show ?thesis using assms(3) votes_inv_kept [OF assms(1) votes_kept_AppendRequest] by auto
next
  case (AppendReply r hb)
  then show ?thesis using assms(2,3) votes_inv_kept [OF assms(1) votes_kept_AppendReply] by auto
next
  case (ClientCommand cmd)
  then show ?thesis
    using assms(3) votes_inv_kept [OF assms(1) votes_kept_Client] by (auto simp: rbind_Inr_iff)
next
  case (JoinPeer a)
  then show ?thesis using assms(1,3) by (auto simp: votes_inv_def AddPeer_def)
next
  case Start
  then show ?thesis using assms(1,3) votes_inv_Start by auto
next
  case (Restart clk rnd)
  then show ?thesis using assms(1,3) by (auto simp: votes_inv_def new_SRaft_def)
qed

interpretation node: inductive_invariant fresh_node node_run votes_inv
proof
  show "fresh_node c \<Longrightarrow> votes_inv c" for c
    by (auto simp: fresh_node_def votes_inv_def new_SRaft_def)
  show "votes_inv c \<Longrightarrow> node_run c d \<Longrightarrow> votes_inv d" for c d
    by (cases c; cases d) (auto elim!: node_runE intro: votes_inv_step)
qed

lemma reachable_event:
  "reachable fresh_node node_run (s, h) \<Longrightarrow> enabled ev s \<Longrightarrow> node_step ev s = Inr s' \<Longrightarrow>
   reachable fresh_node node_run (s', h @ votes_cast ev s)"
  by (rule reachable_step) (auto intro: node_runI)

subsection \<open>At most one vote per term\<close>

text \<open>
  Claim C1. A node votes for at most one candidate per term, counting its own candidacies, over
  any sequence of its operations and including crashes between two operations: whatever it has
  voted before, \<open>OnRequestVoteRequest\<close> and \<open>DoElection\<close> only vote in a term above it, and the file
  written by \<open>Dump\<close> keeps \<open>Load\<close> from going back. (Only the term makes this so: the grant does not
  record the candidate in \<open>votedFor\<close>.)
\<close>

theorem one_vote_per_term:
  assumes "reachable fresh_node node_run (s, h)" "(t, c) \<in> set h" "(t, c') \<in> set h"
  shows "c = c'"
proof -
  have "sorted_wrt (<) (map fst h)" using node.reachable_inv [OF assms(1)] by (simp add: votes_inv_def)
  then have "distinct (map fst h)" by (simp add: strict_sorted_iff)
  then show ?thesis using assms(2,3) by (simp add: eq_key_imp_eq_value)
qed

definition example_ask :: RequestVoteRequest where
  "example_ask = \<lparr>vq_name = ''B'', vq_term = 1, vq_last_log_index = -1, vq_last_log_term = -1,
     vq_time = 0, vq_seq = 0, vq_initial = True\<rparr>"

definition example_node :: SRaft where
  "example_node = new_SRaft ''A'' None (\<lambda>_. 0) (\<lambda>_ fr _. fr) None"

lemma example_reach:
  "\<exists>s. reachable fresh_node node_run (s, [(1, ''B'')]) \<and> running s"
proof -
  let ?s0 = "example_node" and ?s1 = "Run example_node"
  have "reachable fresh_node node_run (?s0, [])"
    by (rule reachable_init) (auto simp: fresh_node_def example_node_def)
  from reachable_event [OF this, of Start ?s1] have r1: "reachable fresh_node node_run (?s1, [])"
    by simp
  have g: "grants example_ask ?s1"
    by (simp add: grants_def log_outdated_def example_ask_def example_node_def Run_def Load_def
        new_SRaft_def get_current_ms_def get_ranged_random_def)
  have o: "OnRequestVoteRequest example_ask RequestVoteResponse_default ?s1 =
      (1, vote_reply example_ask ?s1, granted_state example_ask ?s1)"
    by (rule OnRequestVoteRequest_granted [OF g])
  have "reachable fresh_node node_run (granted_state example_ask ?s1, [(1, ''B'')])"
    using reachable_event [OF r1, of "VoteRequest example_ask"] o g
    by (simp add: vote_reply_def example_ask_def)
  then show ?thesis using g by (auto simp: grants_def)
qed

theorem one_vote_per_term_witness:
  "\<exists>s h. reachable fresh_node node_run (s, h) \<and> (1, ''B'') \<in> set h \<and>
     (\<forall>c. (1, c) \<in> set h \<longrightarrow> c = ''B'')"
proof -
  obtain s where r: "reachable fresh_node node_run (s, [(1, ''B'')])" using example_reach by blast
  have "(1, ''B'') \<in> set [(1 :: u64, ''B'')]" by simp
  from one_vote_per_term [OF r _ this] r show ?thesis by (intro exI [of _ s] exI) auto
qed

subsection \<open>The file always holds the log\<close>

definition file_log :: "PersistRecord option \<Rightarrow> log" where
  "file_log f = (case f of None \<Rightarrow> [] | Some r \<Rightarrow> pr_entries r)"

lemma file_log_simps [simp]: "file_log None = []" "file_log (Some r) = pr_entries r"
  by (simp_all add: file_log_def)

definition log_saved :: "SRaft \<Rightarrow> bool" where
  "log_saved s \<longleftrightarrow> logs s = file_log (persist_file s)"

definition saved_inv :: "SRaft \<times> votes \<Rightarrow> bool" where
  "saved_inv = (\<lambda>(s, h). fs_ok s \<and> (if running s then log_saved s else logs s = []) \<and>
     commitIndex s \<le>s lastApplied s)"

text \<open>A step either keeps log and file, or ends by writing the file.\<close>

definition log_kept :: "SRaft \<Rightarrow> SRaft \<Rightarrow> bool" where
  "log_kept s s' \<longleftrightarrow> fs_ok s' = fs_ok s \<and> running s' = running s \<and>
     (logs s' = logs s \<and> persist_file s' = persist_file s \<or>
      running s \<and> log_saved s')"

lemma log_saved_Dump: "fs_ok s \<Longrightarrow> log_saved (Dump s)"
  by (simp add: log_saved_def persist_Dump)

lemma saved_inv_kept:
  "saved_inv (s, h) \<Longrightarrow> log_kept s s' \<Longrightarrow> commitIndex s' \<le>s lastApplied s' \<Longrightarrow> saved_inv (s', h')"
  by (auto simp: saved_inv_def log_kept_def log_saved_def split: if_splits)

definition app_eq :: "SRaft \<Rightarrow> SRaft \<Rightarrow> bool" where
  "app_eq s s' \<longleftrightarrow> commitIndex s' = commitIndex s \<and> lastApplied s' = lastApplied s \<and> channel s' = channel s"

lemma OnTimer_log:
  assumes "OnTimer s = Inr s'" "fs_ok s"
  shows "log_kept s s' \<and> app_eq s s'"
  using assms(1)
proof (cases rule: OnTimer_cases)
  case quiet
  then show ?thesis by (simp add: core_def log_kept_def app_eq_def)
next
  case give_up
  then show ?thesis by (simp add: core_def log_kept_def app_eq_def)
next
  case (election e t)
  note eff = DoElection_effect [OF election(4)]
  have "logs s' = logs t" "persist_file s' = persist_file t" "running s' = running t" "fs_ok s' = fs_ok t"
    "app_eq t s'" using election(5) by (auto simp: core_def app_eq_def)
  moreover have "running e = running s" "fs_ok e = fs_ok s" "app_eq e s" "logs e = logs s" using election(3) by (auto simp: core_def app_eq_def)
  ultimately show ?thesis using assms(2) eff election(1)
    by (simp add: log_kept_def app_eq_def log_saved_def)
qed

lemma OnRequestVoteRequest_log:
  assumes "OnRequestVoteRequest r rsp s = (x, rsp', s')" "fs_ok s"
  shows "log_kept s s' \<and> app_eq s s'"
  using assms(1)
proof (cases rule: OnRequestVoteRequest_cases)
  case granted
  then show ?thesis using assms(2)
    by (simp add: log_kept_def app_eq_def log_saved_def grants_def persist_granted_state)
qed (auto simp: log_kept_def app_eq_def)

lemma OnRequestVoteResponse_log:
  "fs_ok s \<Longrightarrow> running s \<Longrightarrow> log_kept s (OnRequestVoteResponse r s) \<and> app_eq s (OnRequestVoteResponse r s)"
  by (auto simp: log_kept_def app_eq_def log_saved_def OnRequestVoteResponse_frame persist_Dump)

lemma OnAppendEntriesRequest_log:
  assumes "OnAppendEntriesRequest r rsp s = (x, rsp', s')" "fs_ok s"
  shows "log_kept s s' \<and> app_eq s s'"
  using assms
  by (auto simp: OnAppendEntriesRequest_def Let_def get_current_ms_def get_ranged_random_def
      log_kept_def app_eq_def log_saved_Dump split: if_splits)

lemma DoLog_log:
  assumes "DoLog cmd s = Inr (x, s')" "fs_ok s" "commitIndex s \<le>s lastApplied s"
  shows "log_kept s s' \<and> commitIndex s' \<le>s lastApplied s'"
proof (cases "running s \<and> state s = LEADER")
  case False
  then show ?thesis using assms by (auto simp: DoLog_def log_kept_def split: if_splits)
next
  case True
  let ?e = "\<lparr>le_index = LastLogIndex (logs s) + 1, le_term = currentTerm s, le_command = 0, le_data = cmd\<rparr>"
  let ?t = "Dump (s\<lparr>logs := logs s @ [?e]\<rparr>)"
  have d: "DoAppendEntries False ?t = Inr s'"
    using assms(1) True by (auto simp: DoLog_def Let_def rbind_Inr_iff)
  note fr = DoAppendEntries_frame [OF d] 
  note sb = same_but_callsD [OF DoAppendEntries_same [OF d]]
  have "log_saved ?t" using assms(2) by (simp add: log_saved_Dump)
  then have "log_saved s'" using fr by (simp add: log_saved_def)
  moreover have "commitIndex s' \<le>s lastApplied s'"
    using assms(3) DoApply_applied [of "?t\<lparr>commitIndex := LastLogIndex (logs ?t)\<rparr>"] sb(5,6) by (cases "peers s = []") simp_all
  ultimately show ?thesis using fr True by (simp add: log_kept_def)
qed

lemma OnAppendEntriesReponse_log:
  assumes "OnAppendEntriesReponse r hb s = Inr s'" "fs_ok s" "running s"
    "commitIndex s \<le>s lastApplied s"
  shows "log_kept s s' \<and> commitIndex s' \<le>s lastApplied s'"
proof -
  define t where "t = peers_index (ar_name r) s"
  have t: "logs t = logs s" "persist_file t = persist_file s" "fs_ok t = fs_ok s" "running t = running s"
    "app_eq s t" by (simp_all add: t_def peers_index_def app_eq_def)
  define u where "u = (if currentTerm t < ar_term r then Dump (t\<lparr>state := FOLLOWER\<rparr>) else t)"
  have u: "log_kept s u" "app_eq s u"
    using t assms(2,3) by (auto simp: u_def log_kept_def app_eq_def log_saved_def persist_Dump)
  have P: "log_kept s (DoApply (t\<lparr>commitIndex := c\<rparr>)) \<longleftrightarrow> log_kept s t"
     "log_kept s (t\<lparr>peers := ps\<rparr>) \<longleftrightarrow> log_kept s t" for t c ps
    by (simp_all add: log_kept_def log_saved_def)
  have Q: "c \<le>s lastApplied (DoApply (t\<lparr>commitIndex := c\<rparr>))" for t c
    using DoApply_applied [of "t\<lparr>commitIndex := c\<rparr>"] by simp
  have "log_kept s t" using t by (simp add: log_kept_def)
  then show ?thesis using assms(1) t u assms(4)
    by (auto simp: OnAppendEntriesReponse_def Let_def t_def [symmetric] u_def [symmetric] rbind_Inr_iff P Q app_eq_def
        dest!: set_peer_frame split: if_splits)
qed

lemma saved_inv_step:
  assumes "saved_inv (s, h)" "enabled ev s" "node_step ev s = Inr s'"
  shows "saved_inv (s', h')"
proof -
  have ok: "fs_ok s" "commitIndex s \<le>s lastApplied s" using assms(1) by (auto simp: saved_inv_def)
  note kept = saved_inv_kept [OF assms(1), of s' h']
  show ?thesis
  proof (cases ev)
    case Tick
    then show ?thesis using assms(3) OnTimer_log [of s s'] ok kept by (simp add: app_eq_def)
  next
    case (VoteRequest r)
    then show ?thesis
      using assms(3) OnRequestVoteRequest_log [of r RequestVoteResponse_default s] ok kept
      by (cases "OnRequestVoteRequest r RequestVoteResponse_default s") (auto simp: app_eq_def)
  next
    case (VoteReply r)
    then show ?thesis using assms(2,3) OnRequestVoteResponse_log [of s r] ok kept by (auto simp: app_eq_def)
  next
    case (AppendRequest r)
    then show ?thesis
      using assms(3) OnAppendEntriesRequest_log [of r AppendEntriesResponse_default s] ok kept
      by (cases "OnAppendEntriesRequest r AppendEntriesResponse_default s") (auto simp: app_eq_def)
  next
    case (AppendReply r hb)
    then show ?thesis using assms(2,3) OnAppendEntriesReponse_log [of r hb s s'] ok kept by simp
  next
    case (ClientCommand cmd)
    then show ?thesis using assms(3) DoLog_log [of cmd s] ok kept by (auto simp: rbind_Inr_iff)
  next
    case (JoinPeer a)
    then show ?thesis using assms(1,3) by (auto simp: saved_inv_def AddPeer_def log_saved_def)
  next
    case Start
    then show ?thesis using assms(1,3)
      by (auto simp: saved_inv_def Run_def Load_def get_current_ms_def get_ranged_random_def
          log_saved_def split: option.splits if_splits)
  next
    case (Restart clk rnd)
    then show ?thesis using assms(1,3) by (auto simp: saved_inv_def new_SRaft_def sle_i64)
  qed
qed

interpretation saved: inductive_invariant fresh_node node_run saved_inv
proof
  show "fresh_node c \<Longrightarrow> saved_inv c" for c
    by (auto simp: fresh_node_def saved_inv_def new_SRaft_def sle_i64)
  show "saved_inv c \<Longrightarrow> node_run c d \<Longrightarrow> saved_inv d" for c d
    by (cases c; cases d) (auto elim!: node_runE intro: saved_inv_step)
qed

text \<open>
  Claim C3. A crash between two operations loses neither log entries nor votes: whenever the node
  runs, a new process on the same file comes back with exactly the same log and with a term at
  least as high as every term the node has voted in.
\<close>

theorem crash_keeps_log_and_votes:
  assumes "reachable fresh_node node_run (s, h)" "running s"
    and "s' = Run (new_SRaft (addrStr s) chan clk rnd (persist_file s))"
  shows "logs s' = logs s \<and> running s' \<and> (\<forall>(t, c) \<in> set h. t \<le> currentTerm s')"
proof -
  have "logs s = file_log (persist_file s)"
    using saved.reachable_inv [OF assms(1)] assms(2) by (simp add: saved_inv_def log_saved_def)
  moreover have "\<forall>v \<in> set h. \<exists>r. persist_file s = Some r \<and> fst v \<le> pr_term r"
    using node.reachable_inv [OF assms(1)] by (auto simp: votes_inv_def)
  ultimately show ?thesis
    by (auto simp: assms(3) Run_def Load_def new_SRaft_def get_current_ms_def get_ranged_random_def
        split: option.splits)
qed

theorem crash_keeps_log_and_votes_witness:
  "\<exists>s. reachable fresh_node node_run (s, [(1, ''B'')]) \<and> running s \<and>
     1 \<le> currentTerm (Run (new_SRaft (addrStr s) None (\<lambda>_. 0) (\<lambda>_ fr _. fr) (persist_file s)))"
proof -
  obtain s where r: "reachable fresh_node node_run (s, [(1, ''B'')])" "running s"
    using example_reach by blast
  from crash_keeps_log_and_votes [OF r refl, of None "\<lambda>_. 0" "\<lambda>_ fr _. fr"] r show ?thesis
    by (intro exI [of _ s]) simp
qed

text \<open>
  Between two operations nothing committed is left unapplied: \<open>commitIndex\<close> never exceeds
  \<open>lastApplied\<close>, because every operation that moves \<open>commitIndex\<close> ends in \<open>DoApply\<close>.
\<close>

lemma committed_is_applied:
  assumes "reachable fresh_node node_run (s, h)"
  shows "commitIndex s \<le>s lastApplied s"
  using saved.reachable_inv [OF assms] by (simp add: saved_inv_def)

lemma committed_is_applied_example:
  "\<exists>s h. reachable fresh_node node_run (s, h) \<and> running s \<and> commitIndex s \<le>s lastApplied s"
  using example_reach committed_is_applied by blast

end
