(* ===== verification/Replication.thy ===== *)
theory Replication
  imports NodeSystem
begin

text \<open>
  Log replication: \<open>DoLog\<close>, \<open>DoAppendEntries\<close>, \<open>OnAppendEntriesRequest\<close>,
  \<open>OnAppendEntriesReponse\<close> and \<open>DoApply\<close>. The first part gives the append handler by cases, the
  preservation of the log's shape, and what a leader sends; the second one a whole round between a
  leader and a follower, the commit rule and the repeated delivery of a request; the third concrete nodes. The places where the
  code departs from the Raft rules are in \<open>RaftBehaviour\<close>.
\<close>

subsection \<open>The append handler by cases\<close>

lemma OnAppendEntriesRequest_append:
  assumes "running s" "\<not> aq_term r < currentTerm s" "aq_entries r \<noteq> []"
    and "BaseLogIndex (logs s) \<le>s aq_prev_log_index r"
    and "OnAppendEntriesRequest r rsp s = (x, rsp', s')"
  shows "x = 1" "ar_success rsp'"
    "logs s' = append_at (logs s) (FindLog (logs s) (aq_prev_log_term r) (aq_prev_log_index r)) (aq_entries r)"
    "ar_last_log_index rsp' = LastLogIndex (logs s')" "ar_last_log_term rsp' = LastLogTerm (logs s')"
    "ar_name rsp' = addrStr s" "ar_term rsp' = currentTerm s" "currentTerm s' = currentTerm s"
    "state s' = state s"
  using assms by (auto simp: OnAppendEntriesRequest_def Let_def get_current_ms_def split: if_splits)

lemma OnAppendEntriesRequest_identity:
  "OnAppendEntriesRequest r rsp s = (x, rsp', s') \<Longrightarrow> same_identity s s'"
  by (auto simp: OnAppendEntriesRequest_def Let_def get_current_ms_def get_ranged_random_def same_identity_def Dump_def split: if_splits)

lemma OnAppendEntriesRequest_refused:
  assumes "\<not> running s \<or> aq_term r < currentTerm s \<or>
     (aq_entries r \<noteq> [] \<and> \<not> BaseLogIndex (logs s) \<le>s aq_prev_log_index r)"
    and "OnAppendEntriesRequest r rsp s = (x, rsp', s')"
  shows "logs s' = logs s" "\<not> ar_success rsp'" "ar_last_log_index rsp' = LastLogIndex (logs s)"
    "currentTerm s' = currentTerm s" "state s' = state s"
  using assms by (auto simp: OnAppendEntriesRequest_def Let_def get_current_ms_def split: if_splits)

lemma OnAppendEntriesRequest_heartbeat:
  assumes "running s" "\<not> aq_term r < currentTerm s" "aq_entries r = []"
    and "OnAppendEntriesRequest r rsp s = (x, rsp', s')"
  shows "logs s' = logs s" "\<not> ar_success rsp'" "ar_last_log_index rsp' = LastLogIndex (logs s)"
    "currentTerm s' = aq_term r" "state s' = FOLLOWER" "persist_file s' = persist_file s"
  using assms by (auto simp: OnAppendEntriesRequest_def Let_def get_current_ms_def get_ranged_random_def split: if_splits)

subsection \<open>The log keeps its shape\<close>

definition valid_append :: "AppendEntriesRequest \<Rightarrow> bool" where
  "valid_append r \<longleftrightarrow> -1 \<le> sint (aq_prev_log_index r) \<and>
     consecutive (sint (aq_prev_log_index r) + 1) (aq_entries r) \<and>
     sint (aq_prev_log_index r) + 1 + int (length (aq_entries r)) < 2 ^ 63"

lemma wf_log_append_at:
  assumes "wf_log es" "valid_append r"
  shows "wf_log (append_at es (FindLog es (aq_prev_log_term r) (aq_prev_log_index r)) (aq_entries r))"
proof (cases es "aq_prev_log_term r" "aq_prev_log_index r" rule: FindLog_cases)
  case absent
  then show ?thesis using assms(2)
    by (auto simp: valid_append_def intro!: wf_logI [of "sint (aq_prev_log_index r) + 1"])
next
  case (found m)
  have "Suc m < 2 ^ 64" using found(2) wf_log_length [OF assms(1)] by (simp add: entry_at_def)
  then show ?thesis
    using wf_log_append_found [OF assms(1) found(2)] assms(2) found(1)
    by (simp add: append_at_found valid_append_def)
qed

lemma wf_log_AppendRequest:
  assumes "wf_log (logs s)" "valid_append r"
  shows "wf_log (logs (snd (snd (OnAppendEntriesRequest r rsp s))))"
  using wf_log_append_at [OF assms] assms(1)
  by (auto simp: OnAppendEntriesRequest_def Let_def get_current_ms_def get_ranged_random_def split: if_splits)

definition log_room :: "log \<Rightarrow> bool" where
  "log_room es \<longleftrightarrow> sint (LastLogIndex es) < 2 ^ 63 - 2"

lemma wf_log_snoc:
  assumes wf: "wf_log es" and room: "log_room es" and e: "le_index e = LastLogIndex es + 1"
  shows "wf_log (es @ [e])"
proof (cases "es = []")
  case True
  then show ?thesis using e by (intro wf_logI [of 0]) simp_all
next
  case False
  from wf False obtain b where b: "sint (BaseLogIndex es) = b" "0 \<le> b" "consecutive b es"
    by (auto elim: wf_logE)
  have "sint (le_index e) = sint (LastLogIndex es) + 1"
    unfolding e using room by (intro sint_i64_inc) (simp add: log_room_def)
  then show ?thesis using b room sint_LastLogIndex [OF wf False]
    by (intro wf_logI [of b]) (auto simp: consecutive_append log_room_def)
qed

lemma wf_log_DoLog:
  assumes "DoLog cmd s = Inr (x, s')" "wf_log (logs s)" "log_room (logs s)"
  shows "wf_log (logs s')"
  using assms by (auto simp: DoLog_def Let_def rbind_Inr_iff DoAppendEntries_frame wf_log_snoc split: if_splits)

text \<open>What a leader sends is well-formed: the entries from the peer's next index on.\<close>

lemma append_request_entries:
  assumes wf: "wf_log (logs s)" and n: "n < length (logs s)"
    and nx: "sint (nextIndex p) = sint (BaseLogIndex (logs s)) + int n"
    and rq: "append_request False p now s = Inr rq"
  shows "aq_entries rq = drop n (logs s)" "sint (aq_prev_log_index rq) = sint (nextIndex p) - 1"
    "aq_term rq = currentTerm s" "aq_name rq = addrStr s"
    "aq_prev_log_index rq = nextIndex p - 1"
    "aq_prev_log_term rq = (if -1 <s nextIndex p - 1 then le_term (GetLogByIndex (logs s) (nextIndex p - 1)) else 0)"
proof -
  have ne: "logs s \<noteq> []" using n by auto
  from wf ne obtain b where b: "sint (BaseLogIndex (logs s)) = b" "0 \<le> b" "b + int (length (logs s)) < 2 ^ 63"
    by (auto elim: wf_logE)
  have "(if 0 <s nextIndex p then nextIndex p else 0) = nextIndex p"
    using nx b by (auto simp: sless_i64 sint_i64_eq_iff)
  moreover have "entries_loop (logs s) (nextIndex p) = Some (drop n (logs s))"
    using n nx by (intro entries_loop_from [OF wf ne]) auto
  ultimately have "rq = \<lparr>aq_name = addrStr s, aq_term = currentTerm s, aq_prev_log_index = nextIndex p - 1,
     aq_prev_log_term = (if -1 <s nextIndex p - 1 then le_term (GetLogByIndex (logs s) (nextIndex p - 1)) else 0),
     aq_leader_commit = commitIndex s, aq_entries = drop n (logs s), aq_time = now, aq_seq = 0, aq_initial = True\<rparr>"
    using rq by (simp add: append_request_def Let_def)
  moreover have "sint (nextIndex p - 1) = sint (nextIndex p) - 1"
    using nx b sint_i64_range [of "nextIndex p"] by (subst sint_i64_sub) simp_all
  ultimately show "aq_entries rq = drop n (logs s)" "sint (aq_prev_log_index rq) = sint (nextIndex p) - 1"
    "aq_term rq = currentTerm s" "aq_name rq = addrStr s" "aq_prev_log_index rq = nextIndex p - 1"
    "aq_prev_log_term rq = (if -1 <s nextIndex p - 1 then le_term (GetLogByIndex (logs s) (nextIndex p - 1)) else 0)"
    by simp_all
qed

lemma append_request_valid:
  assumes wf: "wf_log (logs s)" and n: "n < length (logs s)"
    and nx: "sint (nextIndex p) = sint (BaseLogIndex (logs s)) + int n"
    and rq: "append_request False p now s = Inr rq"
  shows "valid_append rq"
proof -
  have ne: "logs s \<noteq> []" using n by auto
  from wf ne obtain b where b: "sint (BaseLogIndex (logs s)) = b" "0 \<le> b" "consecutive b (logs s)"
      "b + int (length (logs s)) < 2 ^ 63"
    by (auto elim: wf_logE)
  have "consecutive (b + int n) (drop n (logs s))"
    using b(3) consecutive_append [of b "take n (logs s)" "drop n (logs s)"] n by simp
  then show ?thesis
    using append_request_entries [OF assms] b n nx by (simp add: valid_append_def)
qed

text \<open>Runs in which every append request is of the shape leaders send and the index counter has room.\<close>

fun well_shaped :: "node_event \<Rightarrow> SRaft \<Rightarrow> bool" where
  "well_shaped (AppendRequest r) s \<longleftrightarrow> valid_append r"
| "well_shaped (ClientCommand cmd) s \<longleftrightarrow> log_room (logs s)"
| "well_shaped _ s \<longleftrightarrow> True"

inductive shaped_run :: "SRaft \<times> votes \<Rightarrow> SRaft \<times> votes \<Rightarrow> bool" where
  shaped_runI: "enabled ev s \<Longrightarrow> well_shaped ev s \<Longrightarrow> node_step ev s = Inr s' \<Longrightarrow>
     shaped_run (s, h) (s', h @ votes_cast ev s)"

inductive_cases shaped_runE: "shaped_run (s, h) (s', h')"

lemma shaped_run_node_run: "shaped_run c d \<Longrightarrow> node_run c d"
  by (cases c; cases d) (auto elim!: shaped_runE intro: node_runI)

definition shape_inv :: "SRaft \<times> votes \<Rightarrow> bool" where
  "shape_inv = (\<lambda>(s, h). saved_inv (s, h) \<and> wf_log (logs s) \<and> wf_log (file_log (persist_file s)))"

lemma log_kept_wf:
  "saved_inv (s, h) \<Longrightarrow> log_kept s s' \<Longrightarrow> wf_log (logs s') \<Longrightarrow> wf_log (file_log (persist_file s)) \<Longrightarrow>
   wf_log (file_log (persist_file s'))"
  by (auto simp: log_kept_def log_saved_def)

lemma OnAppendEntriesReponse_logs: "OnAppendEntriesReponse r hb s = Inr s' \<Longrightarrow> logs s' = logs s"
  by (auto simp: OnAppendEntriesReponse_def Let_def peers_index_def rbind_Inr_iff
      dest!: set_peer_frame split: if_splits)

lemma OnTimer_logs: "OnTimer s = Inr s' \<Longrightarrow> logs s' = logs s"
  by (erule OnTimer_cases) (auto simp: core_def DoElection_effect)

lemma OnRequestVoteRequest_logs: "logs (snd (snd (OnRequestVoteRequest r rsp s))) = logs s"
  by (cases "OnRequestVoteRequest r rsp s" rule: prod_cases3)
     (auto elim!: OnRequestVoteRequest_cases)

lemma shape_inv_step:
  assumes inv: "shape_inv (s, h)" and en: "enabled ev s" "well_shaped ev s" and st: "node_step ev s = Inr s'"
  shows "shape_inv (s', h')"
proof -
  have I: "saved_inv (s, h)" "wf_log (logs s)" "wf_log (file_log (persist_file s))" 
    using inv by (auto simp: shape_inv_def)
  have ok: "fs_ok s" "commitIndex s \<le>s lastApplied s" using I by (auto simp: saved_inv_def)
  have J: "saved_inv (s', h')" by (rule saved_inv_step [OF I(1) en(1) st])
  have K: "wf_log (logs s') \<Longrightarrow> log_kept s s' \<Longrightarrow> ?thesis"
    using log_kept_wf [OF I(1)] I J by (auto simp: shape_inv_def)
  show ?thesis
  proof (cases ev)
    case Tick
    then show ?thesis using st OnTimer_log [of s s'] OnTimer_logs [of s s'] ok I K by simp
  next
    case (VoteRequest r)
    then show ?thesis
      using st OnRequestVoteRequest_log [of r RequestVoteResponse_default s] ok I K
         OnRequestVoteRequest_logs [of r RequestVoteResponse_default s]
      by (cases "OnRequestVoteRequest r RequestVoteResponse_default s") auto
  next
    case (VoteReply r)
    then show ?thesis using en(1) st OnRequestVoteResponse_log [of s r] ok K I(2)
      by (auto simp: OnRequestVoteResponse_frame)
  next
    case (AppendRequest r)
    then show ?thesis
      using st OnAppendEntriesRequest_log [of r AppendEntriesResponse_default s] ok K en(2)
        wf_log_AppendRequest [OF I(2), of r AppendEntriesResponse_default]
      by (cases "OnAppendEntriesRequest r AppendEntriesResponse_default s") auto
  next
    case (AppendReply r hb)
    then show ?thesis using en(1) st OnAppendEntriesReponse_log [of r hb s s'] 
       OnAppendEntriesReponse_logs [of r hb s s'] ok K I(2) by simp
  next
    case (ClientCommand cmd)
    then show ?thesis using st DoLog_log [of cmd s] ok K wf_log_DoLog [of cmd s] I(2) en(2) 
      by (auto simp: rbind_Inr_iff)
  next
    case (JoinPeer a)
    then show ?thesis using I J st by (auto simp: shape_inv_def AddPeer_def)
  next
    case Start
    then show ?thesis using I J st
      by (auto simp: shape_inv_def Run_def Load_def get_current_ms_def get_ranged_random_def
          split: option.splits)
  next
    case (Restart clk rnd)
    then show ?thesis using I J st by (auto simp: shape_inv_def new_SRaft_def)
  qed
qed

interpretation shape: inductive_invariant fresh_node shaped_run shape_inv
proof
  show "fresh_node c \<Longrightarrow> shape_inv c" for c
    using saved.inv_init [of c] by (auto simp: fresh_node_def shape_inv_def new_SRaft_def)
  show "shape_inv c \<Longrightarrow> shaped_run c d \<Longrightarrow> shape_inv d" for c d
    by (cases c; cases d) (auto elim!: shaped_runE intro: shape_inv_step)
qed

lemma wf_log_entry:
  assumes "wf_log es" "n < length es"
  shows "GetLogByIndex es (le_index (es ! n)) = es ! n"
proof -
  have ne: "es \<noteq> []" using assms(2) by auto
  obtain b where "sint (BaseLogIndex es) = b" "consecutive b es" using assms(1) ne by (auto elim: wf_logE)
  then show ?thesis using assms consecutive_nth [of b es n] sint_LastLogIndex [OF assms(1) ne] ne
    by (simp add: GetLogByIndex_wf)
qed

text \<open>
  Claim C9. The shape of the log: in every run in which append requests are of the form leaders with such logs send
  (their entries are numbered one after the other, beginning right after \<open>prev_log_index\<close>: \<open>valid_append\<close>)
  and the index counter has room, entry \<open>n\<close> of the log carries the index \<open>BaseLogIndex() + n\<close>, no index
  is negative, and \<open>GetLogByIndex\<close> finds every entry under its own index. Crashes and restarts are
  among the steps.
\<close>

theorem log_shape:
  assumes "reachable fresh_node shaped_run (s, h)" "n < length (logs s)"
  shows "sint (le_index (logs s ! n)) = sint (BaseLogIndex (logs s)) + int n
    \<and> 0 \<le> sint (BaseLogIndex (logs s))
    \<and> GetLogByIndex (logs s) (le_index (logs s ! n)) = logs s ! n"
proof -
  have wf: "wf_log (logs s)" using shape.reachable_inv [OF assms(1)] by (simp add: shape_inv_def)
  have "logs s \<noteq> []" using assms(2) by auto
  then show ?thesis using wf assms(2) wf_log_entry [OF wf assms(2)]
    by (auto elim!: wf_logE simp: consecutive_nth)
qed

subsection \<open>A replication round\<close>

lemma append_at_prefix:
  assumes wf: "wf_log L" and base: "sint (BaseLogIndex L) = 0" and n: "n < length L"
    and wf': "wf_log (take n L @ junk)" and nj: "n = 0 \<Longrightarrow> junk = []"
    and idx: "sint nx = int n"
  shows "append_at (take n L @ junk) (FindLog (take n L @ junk)
      (if -1 <s nx - 1 then le_term (GetLogByIndex L (nx - 1)) else 0) (nx - 1)) (drop n L) = L"
proof (cases n)
  case 0
  then show ?thesis using nj by (simp add: FindLog_def append_at_def)
next
  case (Suc k)
  let ?F = "take n L @ junk"
  have ne: "L \<noteq> []" using n by auto
  have nx1: "sint (nx - 1) = int k"
    using idx Suc sint_i64_range [of nx] by (subst sint_i64_sub) simp_all
  have "consecutive 0 L" using wf ne base by (auto elim: wf_logE)
  then have ik: "le_index (L ! k) = nx - 1"
    using consecutive_nth [of 0 L k] n Suc nx1 by (simp add: sint_i64_eq_iff)
  have get: "GetLogByIndex L (nx - 1) = L ! k"
    using wf_log_entry [OF wf, of k] ik n Suc by simp
  have Fk: "?F ! k = L ! k" "k < length ?F" using n Suc by (simp_all add: nth_append)
  have ent: "entry_at ?F (le_term (L ! k)) (nx - 1) k" using Fk ik by (simp add: entry_at_def)
  have "FindLog ?F (le_term (L ! k)) (nx - 1) = of_nat k"
  proof (cases ?F "le_term (L ! k)" "nx - 1" rule: FindLog_cases)
    case absent
    then show ?thesis using ent by blast
  next
    case (found m)
    then show ?thesis using wf_log_unique [OF wf' ent found(2)] by simp
  qed
  moreover have "Suc k < 2 ^ 64" using wf_log_length [OF wf] n Suc by simp
  ultimately show ?thesis using nx1 get n Suc by (simp add: append_at_found sless_i64)
qed

lemma replication_exchange:
  assumes leader: "wf_log (logs l)" "sint (BaseLogIndex (logs l)) = 0" "n < length (logs l)"
    and peer: "sint (nextIndex p) = int n"
    and follower: "running f" "\<not> currentTerm l < currentTerm f" "fs_ok f"
      "logs f = take n (logs l) @ junk" "wf_log (logs f)" "n = 0 \<Longrightarrow> junk = []"
    and rq: "append_request False p now l = Inr request"
    and rsp: "OnAppendEntriesRequest request AppendEntriesResponse_default f = (x, response, f')"
  shows "logs f' = logs l" "log_saved f'" "ar_success response" "ar_last_log_index response = LastLogIndex (logs l)"
    "ar_name response = addrStr f" "ar_term response = currentTerm f" "addrStr f' = addrStr f"
    "same_identity f f'" "currentTerm f' = currentTerm f" "state f' = state f"
proof -
  have nx: "sint (nextIndex p) = sint (BaseLogIndex (logs l)) + int n" using leader peer by simp
  note e = append_request_entries [OF leader(1,3) nx rq]
  have base: "BaseLogIndex (logs f) \<le>s aq_prev_log_index request"
  proof (cases n)
    case 0
    then show ?thesis using follower(4,6) e(2) peer by (simp add: sle_i64)
  next
    case (Suc k)
    then have "BaseLogIndex (logs f) = BaseLogIndex (logs l)"
      using leader(3) follower(4) by (cases "logs l") (auto simp: BaseLogIndex_def)
    then show ?thesis using leader(2) e(2) peer Suc by (simp add: sle_i64)
  qed
  have ents: "aq_entries request \<noteq> []" using e(1) leader(3) by simp
  have tm: "\<not> aq_term request < currentTerm f" using e(3) follower(2) by simp
  note a = OnAppendEntriesRequest_append [OF follower(1) tm ents base rsp]
  show l: "logs f' = logs l"
    using a(3) e(1,5,6) append_at_prefix [OF leader(1,2,3), of junk "nextIndex p"] follower(4,5,6) peer
    by simp
  show "log_saved f'"
    using rsp follower(1,3) tm ents base
    by (auto simp: OnAppendEntriesRequest_def Let_def get_current_ms_def log_saved_Dump split: if_splits)
  show i: "same_identity f f'" using rsp by (rule OnAppendEntriesRequest_identity)
  then show "addrStr f' = addrStr f" by (simp add: same_identity_def)
  show "ar_success response" "ar_last_log_index response = LastLogIndex (logs l)"
    "ar_name response = addrStr f" "ar_term response = currentTerm f" "currentTerm f' = currentTerm f" "state f' = state f"
    using a l by simp_all
qed

text \<open>
  One round of replication brings a follower up to date. The leader builds the request for a
  peer whose \<open>nextIndex_\<close> is \<open>n\<close>; the follower, of no newer term, agrees with the leader on the first
  \<open>n\<close> entries and may hold anything well-formed after them. After the request is handled the
  follower's log is the leader's log, it is on disk, and the response reports success and the
  leader's last index.
\<close>

lemma replication_round:
  assumes leader: "wf_log (logs l)" "sint (BaseLogIndex (logs l)) = 0" "n < length (logs l)"
    and peer: "sint (nextIndex p) = int n"
    and follower: "running f" "\<not> currentTerm l < currentTerm f" "fs_ok f"
      "logs f = take n (logs l) @ junk" "wf_log (logs f)" "n = 0 \<Longrightarrow> junk = []"
    and rq: "append_request False p now l = Inr request"
    and rsp: "OnAppendEntriesRequest request AppendEntriesResponse_default f = (x, response, f')"
  shows "logs f' = logs l \<and> log_saved f' \<and> ar_success response \<and>
         ar_last_log_index response = LastLogIndex (logs l)"
  using replication_exchange [OF assms] by simp

subsection \<open>Delivering an append request twice\<close>

lemma append_twice:
  assumes wf: "wf_log es" and m: "entry_at es t i m" "wf_log (take (Suc m) es @ ents)"
  shows "append_at (append_at es (FindLog es t i) ents) (FindLog (append_at es (FindLog es t i) ents) t i) ents
       = append_at es (FindLog es t i) ents"
proof -
  have f: "FindLog es t i = of_nat m"
    using m(1) wf_log_unique [OF wf m(1)] by (cases es t i rule: FindLog_cases) auto
  let ?F = "take (Suc m) es @ ents"
  have len: "Suc m < 2 ^ 64" using wf_log_length [OF wf] m(1) by (simp add: entry_at_def)
  have ent: "entry_at ?F t i m" using m(1) by (auto simp: entry_at_def nth_append)
  have "FindLog ?F t i = of_nat m"
    using ent wf_log_unique [OF m(2) ent] by (cases ?F t i rule: FindLog_cases) auto
  then show ?thesis using f len m(1) by (simp add: append_at_found entry_at_def)
qed

subsection \<open>The commit rule\<close>

definition replicas :: "i64 \<Rightarrow> (string \<times> SRaftPeer option) list \<Rightarrow> nat" where
  "replicas c ps = length (filter (\<lambda>kp. c \<le>s matchIndex (the (snd kp))) ps)"

definition all_live :: "(string \<times> SRaftPeer option) list \<Rightarrow> bool" where
  "all_live ps \<longleftrightarrow> (\<forall>kp \<in> set ps. snd kp \<noteq> None)"

lemma count_votes_eq:
  "all_live ps \<Longrightarrow> count_votes c ps v = Inr (v + of_nat (replicas c ps))"
  by (induction c ps v rule: count_votes.induct) (auto simp: all_live_def replicas_def algebra_simps)

lemma count_votes_null: "\<not> all_live ps \<Longrightarrow> count_votes c ps v = Inl NullDeref"
  by (induction c ps v rule: count_votes.induct) (auto simp: all_live_def)

lemma all_live_update: "all_live ps \<Longrightarrow> all_live (AList.update k (Some p) ps)"
  by (induction ps) (auto simp: all_live_def)

lemma length_update: "map_of ps k \<noteq> None \<Longrightarrow> length (AList.update k v ps) = length ps"
  by (induction ps) (auto split: if_splits)

text \<open>The peers after the acknowledgement of a successful append.\<close>

definition acked :: "AppendEntriesResponse \<Rightarrow> SRaftPeer \<Rightarrow> SRaft \<Rightarrow> SRaft" where
  "acked r p s = s\<lparr>peers := AList.update (ar_name r)
     (Some (p\<lparr>nextIndex := ar_last_log_index r + 1, matchIndex := ar_last_log_index r\<rparr>)) (peers s)\<rparr>"

lemma OnAppendEntriesReponse_ack:
  assumes lead: "state s = LEADER" "\<not> currentTerm s < ar_term r" "ar_success r"
    and new: "commitIndex s <s ar_last_log_index r"
    and known: "map_of (peers s) (ar_name r) = Some (Some p)" "all_live (peers s)"
  shows "OnAppendEntriesReponse r False s =
    Inr (let t = acked r p s; c = ar_last_log_index r in
         if of_nat (length (peers s)) div 2 \<le> (1 + of_nat (replicas c (peers t)) :: size_t)
         then DoApply (t\<lparr>commitIndex := c\<rparr>) else t)"
proof -
  have "peers_index (ar_name r) s = s" using known by (simp add: peers_index_def)
  moreover have "\<not> ar_last_log_index r \<le>s commitIndex s" using new by (simp add: sless_i64 sle_i64)
  moreover have "set_peer (ar_name r)
      (\<lambda>p. p\<lparr>nextIndex := ar_last_log_index r + 1, matchIndex := ar_last_log_index r\<rparr>) s = Inr (acked r p s)"
    using known by (simp add: set_peer_def acked_def)
  moreover have "all_live (peers (acked r p s))" using known by (simp add: acked_def all_live_update)
  moreover have "length (peers (acked r p s)) = length (peers s)" using known by (simp add: acked_def length_update)
  ultimately show ?thesis using lead
    by (simp add: OnAppendEntriesReponse_def Let_def count_votes_eq)
qed

lemma replicas_pos:
  "map_of ps k = Some (Some q) \<Longrightarrow> c \<le>s matchIndex q \<Longrightarrow> 1 \<le> replicas c ps"
  by (induction ps) (auto simp: replicas_def split: if_splits)

lemma u64_half_le: "n < 2 ^ 64 \<Longrightarrow> (of_nat n div 2 :: u64) \<le> 1 + of_nat m \<longleftrightarrow> n div 2 \<le> 1 + m" if "m < 2 ^ 64 - 1"
proof -
  assume n: "n < 2 ^ 64"
  have "unat (of_nat n div 2 :: u64) = n div 2" using n by (simp add: unat_div unat_of_nat_u64)
  moreover have "unat (1 + of_nat m :: u64) = 1 + m"
    using unat_of_nat_u64 [of "Suc m"] that by simp
  ultimately show ?thesis by (simp add: word_le_nat_alt)
qed

lemma commit_rule:
  assumes lead: "state s = LEADER" "\<not> currentTerm s < ar_term r" "ar_success r"
    and new: "commitIndex s <s ar_last_log_index r"
    and known: "map_of (peers s) (ar_name r) = Some (Some p)" "all_live (peers s)"
    and few: "length (peers s) < 2 ^ 63"
  shows "OnAppendEntriesReponse r False s =
    Inr (let t = acked r p s; c = ar_last_log_index r in
         if length (peers s) div 2 \<le> 1 + replicas c (peers t)
         then t\<lparr>commitIndex := c, lastApplied := (if lastApplied s <s c then c else lastApplied s),
                channel := map_option (\<lambda>q. q @ pending_cmds (t\<lparr>commitIndex := c\<rparr>)) (channel s)\<rparr>
         else t)"
proof -
  have "length (peers (acked r p s)) = length (peers s)" using known by (simp add: acked_def length_update)
  then have "replicas c (peers (acked r p s)) \<le> length (peers s)" for c
    by (metis replicas_def length_filter_le)
  then have "replicas c (peers (acked r p s)) < 2 ^ 64 - 1" for c
    using few le_less_trans [of "replicas c (peers (acked r p s))" "length (peers s)" "2 ^ 64 - 1"] by simp
  then have half: "(of_nat (length (peers s)) div 2 \<le> (1 + of_nat (replicas c (peers (acked r p s))) :: size_t))
     \<longleftrightarrow> length (peers s) div 2 \<le> 1 + replicas c (peers (acked r p s))" for c
    using few by (intro u64_half_le) simp_all
  show ?thesis
    unfolding OnAppendEntriesReponse_ack [OF lead new known] Let_def half
    by (simp add: DoApply_eq) (simp add: acked_def)
qed

lemma replicas_none:
  "(\<And>k' q'. (k', Some q') \<in> set ps \<Longrightarrow> \<not> c \<le>s matchIndex q') \<Longrightarrow> all_live ps \<Longrightarrow> replicas c ps = 0"
  by (fastforce simp: replicas_def filter_empty_conv all_live_def)

lemma replicas_single:
  assumes "distinct (map fst ps)" "(k, Some q) \<in> set ps" "c \<le>s matchIndex q"
    and "\<And>k' q'. (k', Some q') \<in> set ps \<Longrightarrow> k' \<noteq> k \<Longrightarrow> \<not> c \<le>s matchIndex q'" "all_live ps"
  shows "replicas c ps = 1"
proof -
  obtain xs ys where ps: "ps = xs @ (k, Some q) # ys" using assms(2) by (auto simp: in_set_conv_decomp)
  have other: "\<not> c \<le>s matchIndex q'" if "(k', Some q') \<in> set (xs @ ys)" for k' q'
  proof -
    have "k' \<in> fst ` set (xs @ ys)" using that by (metis fst_conv image_eqI)
    then have "k' \<noteq> k" using assms(1) by (auto simp: ps)
    then show ?thesis using assms(4) [of k' q'] that by (auto simp: ps)
  qed
  have live: "all_live (xs @ ys)" using assms(5) by (auto simp: ps all_live_def)
  have "replicas c (xs @ ys) = 0" by (rule replicas_none [OF other live])
  then show ?thesis using assms(3) by (simp add: ps replicas_def)
qed

subsection \<open>A concrete leader and follower\<close>

definition example_entry :: LogEntry where
  "example_entry = \<lparr>le_index = 0, le_term = 1, le_command = 0, le_data = ''put k v''\<rparr>"

definition example_append :: AppendEntriesRequest where
  "example_append = \<lparr>aq_name = ''L'', aq_term = 1, aq_prev_log_index = -1, aq_prev_log_term = 0,
     aq_leader_commit = -1, aq_entries = [example_entry], aq_time = 0, aq_seq = 0, aq_initial = True\<rparr>"

definition example_leader :: SRaft where
  "example_leader = (new_SRaft ''L'' (Some []) (\<lambda>k. of_nat k) (\<lambda>k lo hi. lo) None)
     \<lparr>running := True, state := LEADER, currentTerm := 1, logs := [example_entry],
      peers := [(''F'', Some \<lparr>peer_name = ''F'', peerSRaftClient = ''F'', nextIndex = 0, matchIndex = -1\<rparr>),
                (''G'', Some \<lparr>peer_name = ''G'', peerSRaftClient = ''G'', nextIndex = 0, matchIndex = -1\<rparr>)]\<rparr>"

definition example_follower :: SRaft where
  "example_follower = (new_SRaft ''F'' None (\<lambda>k. of_nat k) (\<lambda>k lo hi. lo) None)
     \<lparr>running := True, currentTerm := 1\<rparr>"

lemma example_wf: "wf_log [example_entry]" "sint (BaseLogIndex [example_entry]) = 0"
  by (simp_all add: wf_log_def BaseLogIndex_def example_entry_def)

lemma shaped_event:
  "reachable fresh_node shaped_run (s, h) \<Longrightarrow> enabled ev s \<Longrightarrow> well_shaped ev s \<Longrightarrow>
   node_step ev s = Inr s' \<Longrightarrow> reachable fresh_node shaped_run (s', h @ votes_cast ev s)"
  by (rule reachable_step) (auto intro: shaped_runI)

lemma example_shaped: "\<exists>s h. reachable fresh_node shaped_run (s, h) \<and> logs s = [example_entry]"
proof -
  let ?s0 = "new_SRaft ''F'' None (\<lambda>k. of_nat k) (\<lambda>k lo hi. lo) None"
  have r0: "reachable fresh_node shaped_run (?s0, [])"
    by (rule reachable_init) (auto simp: fresh_node_def)
  have r1: "reachable fresh_node shaped_run (Run ?s0, [])"
    using shaped_event [OF r0, of Start "Run ?s0"] by simp
  let ?o = "OnAppendEntriesRequest example_append AppendEntriesResponse_default (Run ?s0)"
  have v: "valid_append example_append"
    by (simp add: valid_append_def example_append_def example_entry_def)
  have "reachable fresh_node shaped_run (snd (snd ?o), [])"
    using shaped_event [OF r1, of "AppendRequest example_append" "snd (snd ?o)"] v by simp
  moreover have "logs (snd (snd ?o)) = [example_entry]" by code_simp
  ultimately show ?thesis by blast
qed

theorem log_shape_witness:
  "\<exists>s h. reachable fresh_node shaped_run (s, h) \<and> logs s \<noteq> [] \<and>
     GetLogByIndex (logs s) (le_index (logs s ! 0)) = logs s ! 0"
proof -
  obtain s h where s: "reachable fresh_node shaped_run (s, h)" "logs s = [example_entry]"
    using example_shaped by blast
  then have "0 < length (logs s)" by simp
  from log_shape [OF s(1) this] s show ?thesis by auto
qed

lemma replication_round_example:
  "\<exists>f'. logs f' = [example_entry] \<and> log_saved f'"
proof -
  let ?p = "\<lparr>peer_name = ''F'', peerSRaftClient = ''F'', nextIndex = 0, matchIndex = -1\<rparr>"
  have l: "logs example_leader = [example_entry]" "sint (nextIndex ?p) = int 0" by (simp_all add: example_leader_def)
  obtain rq where rq: "append_request False ?p 0 example_leader = Inr rq"
    using entries_loop_from [OF example_wf(1), of 0 0] example_wf(2)
    by (simp add: append_request_def l Let_def)
  obtain x response f' where rsp:
    "OnAppendEntriesRequest rq AppendEntriesResponse_default example_follower = (x, response, f')"
    by (cases "OnAppendEntriesRequest rq AppendEntriesResponse_default example_follower" rule: prod_cases3)
  have "logs f' = logs example_leader \<and> log_saved f'"
    using replication_round [OF _ _ _ l(2) _ _ _ _ _ _ rq rsp, of "[]"] example_wf
    by (simp add: l example_follower_def example_leader_def new_SRaft_def)
  then show ?thesis using l by auto
qed

end
