(* ===== verification/KvServer.thy ===== *)
theory KvServer
  imports SRaftRpc Replication
begin

text \<open>
  The key-value server: class \<open>Skvserver\<close> of \<open>Skvserver.h\<close> and \<open>Skvserver.cc\<close>, its RPC service in
  \<open>SRaftRpc.cc\<close>. The record holds the members; \<open>channel_\<close> is the queue the node was built with and
  lives in \<open>node\<close>. \<open>kvDB\<close> is a map. The thread \<open>recieveMsgThread\<close> is \<open>at\<close> the test of its loop,
  inside \<open>popData\<close>, or finished; \<open>recieve_step\<close> is one step of it and \<open>None\<close> means that it waits.

  \<open>operator>>\<close> of an \<open>istringstream\<close> into a string skips white space, takes the characters up to the
  next white space and fails if there are none (C locale).
\<close>

subsection \<open>Commands\<close>

definition isspace :: "char \<Rightarrow> bool" where
  "isspace c \<longleftrightarrow> c \<in> {CHR '' '', CHR 0x09, CHR 0x0A, CHR 0x0B, CHR 0x0C, CHR 0x0D}"

definition stream_get :: "string \<Rightarrow> (string \<times> string) option" where
  "stream_get ss =
     (let s = dropWhile isspace ss; w = takeWhile (\<lambda>c. \<not> isspace c) s
      in if w = [] then None else Some (w, dropWhile (\<lambda>c. \<not> isspace c) s))"

definition parse_cmd :: "string \<Rightarrow> (string \<times> string \<times> string) option" where
  "parse_cmd cmd =
     Option.bind (stream_get cmd) (\<lambda>(op, ss).
     Option.bind (stream_get ss) (\<lambda>(key, ss).
     Option.bind (stream_get ss) (\<lambda>(value, ss). Some (op, key, value))))"

type_synonym db = "string \<rightharpoonup> string"

definition apply_cmd :: "string \<Rightarrow> db \<Rightarrow> db" where
  "apply_cmd cmd kvDB =
     (case parse_cmd cmd of
        Some (op, key, value) \<Rightarrow>
          if op = ''put'' then kvDB(key \<mapsto> value)
          else if op = ''append'' then
            kvDB(key \<mapsto> (case kvDB key of None \<Rightarrow> [] | Some v \<Rightarrow> v) @ value)
          else kvDB
      | None \<Rightarrow> kvDB)"

definition format_cmd :: "PutAppendRequest \<Rightarrow> string" where
  "format_cmd request = pq_op request @ '' '' @ pq_key request @ '' '' @ pq_value request"

subsection \<open>The server\<close>

datatype recieve_at = LoopTest | InPop | Finished

record Skvserver =
  node :: SRaft
  kv_addrStr :: string
  raftAddrStr :: string
  kvDB :: db
  tobeDestroy :: bool
  recieveMsgThread :: recieve_at

definition new_Skvserver :: "string \<Rightarrow> string \<Rightarrow> (nat \<Rightarrow> u64) \<Rightarrow> (nat \<Rightarrow> u64 \<Rightarrow> u64 \<Rightarrow> u64) \<Rightarrow>
    PersistRecord option \<Rightarrow> Skvserver" where
  "new_Skvserver serverAddrStr raftAddr clk rnd file =
     \<lparr>node = new_SRaft raftAddr (Some []) clk rnd file, kv_addrStr = serverAddrStr,
      raftAddrStr = raftAddr, kvDB = [''hello'' \<mapsto> ''world''], tobeDestroy = False,
      recieveMsgThread = LoopTest\<rparr>"

definition recieve_step :: "Skvserver \<Rightarrow> Skvserver option" where
  "recieve_step sv =
     (case recieveMsgThread sv of
        LoopTest \<Rightarrow> Some (sv\<lparr>recieveMsgThread := (if tobeDestroy sv then Finished else InPop)\<rparr>)
      | InPop \<Rightarrow>
          (case channel (node sv) of
             None \<Rightarrow> None
           | Some que \<Rightarrow>
               (case MyChannel_popData que of
                  None \<Rightarrow> None
                | Some (cmd, que) \<Rightarrow>
                    Some (sv\<lparr>node := (node sv)\<lparr>channel := Some que\<rparr>, kvDB := apply_cmd cmd (kvDB sv),
                             recieveMsgThread := LoopTest\<rparr>)))
      | Finished \<Rightarrow> None)"

text \<open>The destructor sets the flag and joins the thread; it returns once the thread has finished.\<close>

definition delete_Skvserver_begin :: "Skvserver \<Rightarrow> Skvserver" where
  "delete_Skvserver_begin sv = sv\<lparr>tobeDestroy := True\<rparr>"

definition delete_Skvserver_returns :: "Skvserver \<Rightarrow> bool" where
  "delete_Skvserver_returns sv \<longleftrightarrow> tobeDestroy sv \<and> recieveMsgThread sv = Finished"

definition addPeer :: "string \<Rightarrow> Skvserver \<Rightarrow> Skvserver" where
  "addPeer raftAddr sv = sv\<lparr>node := AddPeer raftAddr (node sv)\<rparr>"

definition run :: "Skvserver \<Rightarrow> Skvserver" where
  "run sv = sv\<lparr>node := Run (node sv)\<rparr>"

definition get :: "GetRequest \<Rightarrow> GetResponse \<Rightarrow> Skvserver \<Rightarrow> GetResponse" where
  "get request response sv =
     (if state (node sv) \<noteq> LEADER
      then response\<lparr>gr_Err := ''wrong leader'', gr_Value := ''Error'', gr_WrongLeader := True\<rparr>
      else case kvDB sv (gq_Key request) of
        None \<Rightarrow> response\<lparr>gr_Err := ''wrong key'', gr_Value := ''Error'', gr_WrongLeader := False\<rparr>
      | Some v \<Rightarrow> response\<lparr>gr_Err := ''none'', gr_Value := v, gr_WrongLeader := False\<rparr>)"

definition putAppend :: "PutAppendRequest \<Rightarrow> PutAppendResponse \<Rightarrow> Skvserver \<Rightarrow>
    (PutAppendResponse \<times> Skvserver) result" where
  "putAppend request response sv =
     (if state (node sv) \<noteq> LEADER
      then Inr (response\<lparr>pp_Err := ''wrong leader'', pp_WrongLeader := True\<rparr>, sv)
      else
        let response = response\<lparr>pp_WrongLeader := False\<rparr>;
            response = response\<lparr>pp_Err := ''none''\<rparr>;
            cmd = format_cmd request
        in rbind (DoLog cmd (node sv)) (\<lambda>(r, n). Inr (response, sv\<lparr>node := n\<rparr>)))"

definition KvserverServiceImpl_Get :: "GetRequest \<Rightarrow> Skvserver \<Rightarrow> Status \<times> GetResponse" where
  "KvserverServiceImpl_Get request sv = (OK, get request GetResponse_default sv)"

definition KvserverServiceImpl_PutAppend :: "PutAppendRequest \<Rightarrow> Skvserver \<Rightarrow>
    (Status \<times> PutAppendResponse \<times> Skvserver) result" where
  "KvserverServiceImpl_PutAppend request sv =
     rbind (putAppend request PutAppendResponse_default sv) (\<lambda>(response, sv). Inr (OK, response, sv))"

subsection \<open>Formatting and parsing\<close>

definition word_string :: "string \<Rightarrow> bool" where
  "word_string w \<longleftrightarrow> w \<noteq> [] \<and> (\<forall>c \<in> set w. \<not> isspace c)"

lemma isspace_blank [simp]: "isspace CHR '' ''"
  by (simp add: isspace_def)

lemma dropWhile_word: "word_string w \<Longrightarrow> dropWhile isspace (w @ s) = w @ s"
  by (cases w) (auto simp: word_string_def)

lemma stream_get_word:
  assumes "word_string w" "s = [] \<or> isspace (hd s)"
  shows "stream_get (w @ s) = Some (w, s)"
proof -
  have "takeWhile (\<lambda>c. \<not> isspace c) (w @ s) = w" "dropWhile (\<lambda>c. \<not> isspace c) (w @ s) = s"
    using assms by (cases s; auto simp: word_string_def takeWhile_append dropWhile_append)+
  then show ?thesis using assms(1) by (simp add: stream_get_def Let_def dropWhile_word word_string_def)
qed

lemma stream_get_blank [simp]: "isspace c \<Longrightarrow> stream_get (c # s) = stream_get s"
  by (simp add: stream_get_def)

lemma stream_get_Nil [simp]: "stream_get [] = None"
  by (simp add: stream_get_def)

lemma parse_words:
  assumes "word_string op" "word_string key" "word_string val" "s = [] \<or> isspace (hd s)"
  shows "parse_cmd (op @ '' '' @ key @ '' '' @ val @ s) = Some (op, key, val)"
  using assms stream_get_word [of op "'' '' @ key @ '' '' @ val @ s"]
    stream_get_word [of key "'' '' @ val @ s"] stream_get_word [of val s]
  by (simp add: parse_cmd_def)

lemma parse_no_val:
  assumes "word_string op" "word_string key" "\<forall>c \<in> set val. isspace c"
  shows "parse_cmd (op @ '' '' @ key @ '' '' @ val) = None"
proof -
  have "stream_get val = None" using assms(3) by (induction val) auto
  then show ?thesis
    using assms stream_get_word [of op "'' '' @ key @ '' '' @ val"]
      stream_get_word [of key "'' '' @ val"]
    by (simp add: parse_cmd_def)
qed

subsection \<open>A server on its own\<close>

text \<open>
  A server whose node is the only one of its cluster and leads it, with everything in its log
  applied (to the channel).
\<close>

definition solo :: "SRaft \<Rightarrow> bool" where
  "solo s \<longleftrightarrow> running s \<and> state s = LEADER \<and> peers s = [] \<and> wf_log (logs s) \<and>
     lastApplied s = LastLogIndex (logs s) \<and> channel s \<noteq> None"

lemma DoLog_solo:
  assumes s: "solo s" "channel s = Some que" and room: "log_room (logs s)" and cmd: "cmd \<noteq> []"
  shows "\<exists>s'. DoLog cmd s = Inr (1, s') \<and> solo s' \<and> channel s' = Some (que @ [cmd]) \<and>
     length (logs s') = length (logs s) + 1"
proof -
  let ?e = "\<lparr>le_index = LastLogIndex (logs s) + 1, le_term = currentTerm s, le_command = 0, le_data = cmd\<rparr>"
  let ?es = "logs s @ [?e]"
  let ?t = "(Dump (s\<lparr>logs := ?es\<rparr>))\<lparr>commitIndex := LastLogIndex ?es\<rparr>"
  have S: "running s" "state s = LEADER" "peers s = []" "wf_log (logs s)" "lastApplied s = LastLogIndex (logs s)"
    using s(1) by (simp_all add: solo_def)
  have wf: "wf_log ?es" by (rule wf_log_snoc [OF S(4) room]) simp
  have d: "DoLog cmd s = Inr (1, DoApply ?t)"
    using S by (simp add: DoLog_def DoAppendEntries_def Let_def)
  have inc: "sint (LastLogIndex (logs s) + 1) = sint (LastLogIndex (logs s)) + 1"
    using room by (intro sint_i64_inc) (simp add: log_room_def)
  have last: "LastLogIndex ?es = LastLogIndex (logs s) + 1" by (simp add: LastLogIndex_def)
  have "GetLogByIndex ?es (le_index (?es ! length (logs s))) = ?es ! length (logs s)"
    by (rule wf_log_entry [OF wf]) simp
  then have g: "GetLogByIndex ?es (LastLogIndex (logs s) + 1) = ?e" by simp
  have p: "pending_cmds ?t = [cmd]"
    using inc last g cmd S(5) by (simp add: pending_cmds_def)
  have lt: "lastApplied s <s LastLogIndex ?es" using inc last S(5) by (simp add: sless_i64)
  have f: "logs (DoApply ?t) = ?es" "lastApplied (DoApply ?t) = LastLogIndex ?es"
    "channel (DoApply ?t) = Some (que @ [cmd])" "running (DoApply ?t)" "state (DoApply ?t) = LEADER"
    "peers (DoApply ?t) = []"
    using lt p s(2) S by (simp_all add: DoApply_eq)
  then show ?thesis using d wf by (auto simp: solo_def)
qed

datatype kv_event = Put PutAppendRequest | Get GetRequest | Recieve

fun kv_step :: "kv_event \<Rightarrow> Skvserver \<Rightarrow> Skvserver result" where
  "kv_step (Put r) sv = rbind (putAppend r PutAppendResponse_default sv) (\<lambda>(rsp, sv). Inr sv)"
| "kv_step (Get r) sv = Inr sv"
| "kv_step Recieve sv = Inr (case recieve_step sv of None \<Rightarrow> sv | Some sv' \<Rightarrow> sv')"

text \<open>The abstract server: a map, with put and append done at once.\<close>

definition spec_write :: "PutAppendRequest \<Rightarrow> db \<Rightarrow> db" where
  "spec_write r m = m(pq_key r \<mapsto>
     (if pq_op r = ''put'' then pq_value r
      else (case m (pq_key r) of None \<Rightarrow> [] | Some v \<Rightarrow> v) @ pq_value r))"

fun spec_step :: "kv_event \<Rightarrow> db \<Rightarrow> db" where
  "spec_step (Put r) m = spec_write r m"
| "spec_step (Get r) m = m"
| "spec_step Recieve m = m"

definition clean_request :: "PutAppendRequest \<Rightarrow> bool" where
  "clean_request r \<longleftrightarrow> pq_op r \<in> {''put'', ''append''} \<and> word_string (pq_key r) \<and> word_string (pq_value r)"

fun clean_event :: "kv_event \<Rightarrow> bool" where
  "clean_event (Put r) \<longleftrightarrow> clean_request r"
| "clean_event (Get r) \<longleftrightarrow> True"
| "clean_event Recieve \<longleftrightarrow> True"

text \<open>The map the server stands for: its data with the commands still in the channel applied.\<close>

definition queued :: "Skvserver \<Rightarrow> string list" where
  "queued sv = (case channel (node sv) of None \<Rightarrow> [] | Some que \<Rightarrow> que)"

definition db_of :: "Skvserver \<Rightarrow> db" where
  "db_of sv = fold apply_cmd (queued sv) (kvDB sv)"

definition solo_server :: "Skvserver \<Rightarrow> bool" where
  "solo_server sv \<longleftrightarrow> solo (node sv) \<and> sint (BaseLogIndex (logs (node sv))) \<le> 0"

lemma apply_format: "clean_request r \<Longrightarrow> apply_cmd (format_cmd r) m = spec_write r m"
proof -
  assume c: "clean_request r"
  have "word_string ''put''" "word_string ''append''" by (simp_all add: word_string_def isspace_def)
  then have "parse_cmd (format_cmd r) = Some (pq_op r, pq_key r, pq_value r)"
    using c parse_words [of "pq_op r" "pq_key r" "pq_value r" "[]"]
    by (auto simp: format_cmd_def clean_request_def)
  then show ?thesis using c by (auto simp: apply_cmd_def spec_write_def clean_request_def)
qed

lemma recieve_db_of: "recieve_step sv = Some sv' \<Longrightarrow> db_of sv' = db_of sv"
  by (auto simp: recieve_step_def db_of_def queued_def split: recieve_at.splits option.splits
      elim!: MyChannel_popData.elims)

lemma recieve_solo: "recieve_step sv = Some sv' \<Longrightarrow> solo_server sv \<Longrightarrow> solo_server sv'"
  by (auto simp: recieve_step_def solo_server_def solo_def split: recieve_at.splits option.splits)

lemma recieve_logs: "recieve_step sv = Some sv' \<Longrightarrow> logs (node sv') = logs (node sv)"
  by (auto simp: recieve_step_def split: recieve_at.splits option.splits)

lemma solo_room:
  assumes "solo_server sv" "length (logs (node sv)) < 2 ^ 63 - 2"
  shows "log_room (logs (node sv))"
  using assms sint_LastLogIndex [of "logs (node sv)"]
  by (cases "logs (node sv) = []") (auto simp: log_room_def solo_server_def solo_def)

interpretation kv: refinement kv_step spec_step db_of solo_server clean_event
  "\<lambda>sv. length (logs (node sv))" "\<lambda>e. 1" "2 ^ 63 - 2"
proof
  fix sv e
  assume s: "solo_server sv" and e: "clean_event e" and "length (logs (node sv)) + 1 \<le> 2 ^ 63 - 2"
  then have r: "length (logs (node sv)) < 2 ^ 63 - 2" by simp
  show "\<exists>sv'. kv_step e sv = Inr sv' \<and> solo_server sv' \<and> db_of sv' = spec_step e (db_of sv) \<and>
      length (logs (node sv')) \<le> length (logs (node sv)) + 1"
  proof (cases e)
    case (Put q)
    obtain que where q: "channel (node sv) = Some que" "solo (node sv)"
      using s by (auto simp: solo_server_def solo_def)
    have "format_cmd q \<noteq> []" by (simp add: format_cmd_def)
    from DoLog_solo [OF q(2,1) solo_room [OF s r] this] obtain s' where
      s': "DoLog (format_cmd q) (node sv) = Inr (1, s')" "solo s'" "channel s' = Some (que @ [format_cmd q])"
        "length (logs s') = length (logs (node sv)) + 1" by blast
    have st: "state (node sv) = LEADER" using q(2) by (simp add: solo_def)
    have "logs s' = logs (node sv) @ [\<lparr>le_index = LastLogIndex (logs (node sv)) + 1,
        le_term = currentTerm (node sv), le_command = 0, le_data = format_cmd q\<rparr>]"
      using s'(1) q(2) by (auto simp: DoLog_def Let_def rbind_Inr_iff DoAppendEntries_frame solo_def)
    then have "sint (BaseLogIndex (logs s')) \<le> 0"
      using s by (cases "logs (node sv)") (auto simp: BaseLogIndex_def solo_server_def)
    then show ?thesis
      using s' q st e by (simp add: Put putAppend_def solo_server_def db_of_def queued_def apply_format)
  next
    case (Get q)
    then show ?thesis using s by simp
  next
    case Recieve
    then show ?thesis using s recieve_db_of [of sv] recieve_solo [of sv] recieve_logs [of sv]
      by (auto split: option.split)
  qed
qed

subsection \<open>Properties of the server\<close>

text \<open>
  Claim C10. A server on its own behaves as a map. Start it as the leader of a one-node cluster and run
  any interleaving of put and append requests with white-space free keys and values, of reads, and of
  steps of the receiving thread. No step faults, and once the channel is empty a read answers from the
  map that results from doing the writes one after the other.
\<close>
theorem solo_server_is_a_map:
  assumes "solo_server sv" "list_all clean_event es" "length (logs (node sv)) + length es \<le> 2 ^ 63 - 2"
  shows "\<exists>sv'. run_steps kv_step es sv = Inr sv' \<and>
    (queued sv' = [] \<longrightarrow> (\<forall>q. get q GetResponse_default sv' =
       (case fold spec_step es (db_of sv) (gq_Key q) of
          None \<Rightarrow> \<lparr>gr_WrongLeader = False, gr_Err = ''wrong key'', gr_Value = ''Error''\<rparr>
        | Some v \<Rightarrow> \<lparr>gr_WrongLeader = False, gr_Err = ''none'', gr_Value = v\<rparr>)))"
proof -
  obtain sv' where sv': "run_steps kv_step es sv = Inr sv'" "solo_server sv'" "db_of sv' = fold spec_step es (db_of sv)"
    using kv.run_refines [OF assms(1,2)] assms(3) by (auto simp: sum_list_triv)
  have "state (node sv') = LEADER" using sv'(2) by (simp add: solo_server_def solo_def)
  then have "get q GetResponse_default sv' =
       (case fold spec_step es (db_of sv) (gq_Key q) of
          None \<Rightarrow> \<lparr>gr_WrongLeader = False, gr_Err = ''wrong key'', gr_Value = ''Error''\<rparr>
        | Some v \<Rightarrow> \<lparr>gr_WrongLeader = False, gr_Err = ''none'', gr_Value = v\<rparr>)" if "queued sv' = []" for q
    using that sv'(3) by (simp add: get_def db_of_def GetResponse_default_def split: option.split)
  then show ?thesis using sv'(1) by blast
qed

definition example_server :: Skvserver where
  "example_server = (let sv = new_Skvserver ''A'' ''R'' (\<lambda>k. of_nat k) (\<lambda>k lo hi. lo) None
     in sv\<lparr>node := (Run (node sv))\<lparr>state := LEADER\<rparr>\<rparr>)"

definition example_put :: PutAppendRequest where
  "example_put = \<lparr>pq_key = ''k'', pq_value = ''v'', pq_op = ''put'', pq_ClerkID = 1, pq_cmdIndex = 1\<rparr>"

lemma example_clean: "clean_request example_put"
  by (simp add: clean_request_def example_put_def word_string_def isspace_def)

theorem solo_server_is_a_map_witness:
  "\<exists>sv'. run_steps kv_step [Put example_put, Recieve, Recieve] example_server = Inr sv' \<and>
    (queued sv' = [] \<longrightarrow> gr_Value (get \<lparr>gq_Key = ''k'', gq_ClerkID = 1, gq_CmdIndex = 1\<rparr> GetResponse_default sv') = ''v'')"
proof -
  have s: "solo_server example_server"
    by (simp add: solo_server_def solo_def example_server_def new_Skvserver_def new_SRaft_def Run_def Load_def
        get_current_ms_def get_ranged_random_def)
  have c: "list_all clean_event [Put example_put, Recieve, Recieve]" by (simp add: example_clean)
  have l: "logs (node example_server) = []"
    by (simp add: example_server_def new_Skvserver_def new_SRaft_def Run_def Load_def
        get_current_ms_def get_ranged_random_def)
  have f: "fold spec_step [Put example_put, Recieve, Recieve] (db_of example_server) ''k'' = Some ''v''"
    by (simp add: spec_write_def example_put_def)
  obtain sv' where r: "run_steps kv_step [Put example_put, Recieve, Recieve] example_server = Inr sv'"
    "queued sv' = [] \<Longrightarrow> get q GetResponse_default sv' =
       (case fold spec_step [Put example_put, Recieve, Recieve] (db_of example_server) (gq_Key q) of
          None \<Rightarrow> \<lparr>gr_WrongLeader = False, gr_Err = ''wrong key'', gr_Value = ''Error''\<rparr>
        | Some v \<Rightarrow> \<lparr>gr_WrongLeader = False, gr_Err = ''none'', gr_Value = v\<rparr>)" for q
    using solo_server_is_a_map [OF s c] l by auto
  show ?thesis using r(1) r(2) [of "\<lparr>gq_Key = ''k'', gq_ClerkID = 1, gq_CmdIndex = 1\<rparr>"] f
    by (intro exI [of _ sv'] conjI impI) simp_all
qed

text \<open>
  Claim C16. A command survives the trip through the log: what \<open>putAppend\<close> formats, the receiving
  thread's stream extraction takes apart again, for operations, keys and values without white space.
\<close>
theorem command_round_trip:
  assumes "word_string (pq_op r)" "word_string (pq_key r)" "word_string (pq_value r)"
  shows "parse_cmd (format_cmd r) = Some (pq_op r, pq_key r, pq_value r)"
  using parse_words [OF assms, of "[]"] by (simp add: format_cmd_def)

theorem command_round_trip_witness:
  "parse_cmd ''put k v'' = Some (''put'', ''k'', ''v'')"
  using command_round_trip [of example_put]
  by (simp add: example_put_def word_string_def isspace_def format_cmd_def)

text \<open>
  Claim C25. A value with white space loses everything from the first white space after its first word,
  and a put of an empty or blank value changes nothing; a leader answers ''none'' in both cases.
\<close>
theorem value_cut_at_blank:
  assumes "word_string (pq_key r)" "pq_op r = ''put''"
    and "word_string w \<and> isspace c \<and> pq_value r = w @ c # rest \<or> (\<forall>c \<in> set (pq_value r). isspace c)"
    and "putAppend r PutAppendResponse_default sv = Inr (rsp, sv')" "state (node sv) = LEADER"
  shows "pp_Err rsp = ''none'' \<and> \<not> pp_WrongLeader rsp \<and>
    apply_cmd (format_cmd r) m = (if \<forall>c \<in> set (pq_value r). isspace c then m else m(pq_key r \<mapsto> w))"
proof -
  have p: "word_string ''put''" by (simp add: word_string_def isspace_def)
  have "pp_Err rsp = ''none'' \<and> \<not> pp_WrongLeader rsp"
    using assms(4,5) by (auto simp: putAppend_def rbind_Inr_iff Let_def)
  moreover have "apply_cmd (format_cmd r) m = (if \<forall>c \<in> set (pq_value r). isspace c then m else m(pq_key r \<mapsto> w))"
    using assms(3)
  proof
    assume v: "\<forall>c \<in> set (pq_value r). isspace c"
    then show ?thesis using parse_no_val [OF p assms(1) v] assms(2)
      by (simp add: apply_cmd_def format_cmd_def)
  next
    assume v: "word_string w \<and> isspace c \<and> pq_value r = w @ c # rest"
    then have n: "\<not> (\<forall>c \<in> set (pq_value r). isspace c)" by (cases w) (auto simp: word_string_def)
    have "apply_cmd (format_cmd r) m = m(pq_key r \<mapsto> w)"
      using v parse_words [OF p assms(1), of w "c # rest"] assms(2)
      by (simp add: apply_cmd_def format_cmd_def)
    then show ?thesis unfolding if_not_P [OF n] .
  qed
  ultimately show ?thesis by blast
qed

theorem value_cut_at_blank_witness:
  "apply_cmd ''put k two words'' Map.empty = [''k'' \<mapsto> ''two'']"
proof -
  let ?r = "example_put\<lparr>pq_value := ''two words''\<rparr>"
  obtain rsp sv' where 1: "putAppend ?r PutAppendResponse_default example_server = Inr (rsp, sv')"
    by (simp add: putAppend_def DoLog_def DoAppendEntries_def example_server_def new_Skvserver_def
        new_SRaft_def Run_def Load_def get_current_ms_def get_ranged_random_def DoApply_eq Let_def)
  have 2: "state (node example_server) = LEADER" by (simp add: example_server_def Let_def)
  have 3: "word_string ''two'' \<and> isspace CHR '' '' \<and> pq_value ?r = ''two'' @ CHR '' '' # ''words''"
    by (simp add: word_string_def isspace_def)
  have 4: "word_string (pq_key ?r)" "pq_op ?r = ''put''" by (simp_all add: example_put_def word_string_def isspace_def)
  have "\<not> isspace CHR ''t''" by (simp add: isspace_def)
  then show ?thesis
    using value_cut_at_blank [OF 4 disjI1 [OF 3] 1 2, of Map.empty] by (simp add: format_cmd_def example_put_def)
qed

text \<open>
  The destructor can wait for ever: it sets the flag and joins the receiving thread, but a
  thread that waits in \<open>popData\<close> on an empty channel is not woken, so it never sees the flag.
\<close>
lemma destructor_waits_for_a_command:
  assumes "recieveMsgThread sv = InPop" "channel (node sv) = Some []"
  shows "recieve_step (delete_Skvserver_begin sv) = None \<and>
    \<not> delete_Skvserver_returns (delete_Skvserver_begin sv)"
  using assms by (simp add: recieve_step_def delete_Skvserver_begin_def delete_Skvserver_returns_def)

lemma destructor_waits_for_a_command_example:
  "\<exists>sv. recieve_step (new_Skvserver ''A'' ''R'' (\<lambda>k. of_nat k) (\<lambda>k lo hi. lo) None) = Some sv \<and>
     recieve_step (delete_Skvserver_begin sv) = None"
proof -
  obtain sv where sv: "recieve_step (new_Skvserver ''A'' ''R'' (\<lambda>k. of_nat k) (\<lambda>k lo hi. lo) None) = Some sv"
    "recieveMsgThread sv = InPop" "channel (node sv) = Some []"
    by (simp add: recieve_step_def new_Skvserver_def new_SRaft_def)
  show ?thesis using destructor_waits_for_a_command [OF sv(2,3)] sv(1) by blast
qed

end
