(* ===== verification/KvClient.thy ===== *)
theory KvClient
  imports KvServer
begin

text \<open>
  The client of the key-value service: class \<open>Skvclient\<close> of \<open>Skvclient.h\<close> and \<open>Skvclient.cc\<close> with the
  calls of \<open>KvserverClient\<close> in \<open>SRaftRpc.cc\<close>. \<open>servers\<close> is the \<open>unordered_map\<close> of servers in its
  iteration order (name and address of the stub). A call's outcome is a parameter: \<open>rpc n addr
  request\<close> is what the n-th call of this \<open>Get\<close> gives, \<open>None\<close> when the status is not OK; the code then
  goes on with a default response.

  \<open>AddServers\<close> replaces the peer of a name that is there already. \<open>Put\<close> starts one detached thread per
  server; the started calls are returned in order, and their responses are ignored.
\<close>

record SkvServerPeer =
  kv_name :: string
  kv_client :: string

record Skvclient =
  kv_servers :: "(string \<times> SkvServerPeer) list"
  leaderName :: string

definition new_Skvclient :: Skvclient where
  "new_Skvclient = \<lparr>kv_servers = [], leaderName = []\<rparr>"

definition AddServers :: "string \<Rightarrow> Skvclient \<Rightarrow> Skvclient" where
  "AddServers name c =
     c\<lparr>kv_servers := AList.update name \<lparr>kv_name = name, kv_client = name\<rparr> (kv_servers c)\<rparr>"

type_synonym get_rpc = "nat \<Rightarrow> string \<Rightarrow> GetRequest \<Rightarrow> GetResponse option"

definition KvserverClient_Get :: "get_rpc \<Rightarrow> nat \<Rightarrow> string \<Rightarrow> GetRequest \<Rightarrow> GetResponse" where
  "KvserverClient_Get rpc n addr request = response_of (rpc n addr request) GetResponse_default"

definition OnGetResponse :: "GetResponse \<Rightarrow> string" where
  "OnGetResponse response = gr_Value response"

definition OnPutAppendResponse :: "PutAppendResponse \<Rightarrow> Skvclient \<Rightarrow> Skvclient" where
  "OnPutAppendResponse response c = c"

definition PutAppend_thread :: "PutAppendResponse option \<Rightarrow> Skvclient \<Rightarrow> Skvclient" where
  "PutAppend_thread status c =
     (let response = response_of status PutAppendResponse_default in OnPutAppendResponse response c)"

fun ask_servers :: "get_rpc \<Rightarrow> GetRequest \<Rightarrow> nat \<Rightarrow> (string \<times> SkvServerPeer) list \<Rightarrow> Skvclient \<Rightarrow>
    string \<times> Skvclient" where
  "ask_servers rpc request n [] c = ([], c)"
| "ask_servers rpc request n ((k, peer) # ps) c =
     (let response = KvserverClient_Get rpc n (kv_client peer) request
      in if \<not> gr_WrongLeader response
         then (OnGetResponse response, c\<lparr>leaderName := kv_name peer\<rparr>)
         else ask_servers rpc request (Suc n) ps c)"

definition Skvclient_Get :: "get_rpc \<Rightarrow> string \<Rightarrow> Skvclient \<Rightarrow> string \<times> Skvclient" where
  "Skvclient_Get rpc key c =
     (let request = \<lparr>gq_Key = key, gq_ClerkID = 1, gq_CmdIndex = 1\<rparr>
      in case map_of (kv_servers c) (leaderName c) of
           Some peer \<Rightarrow>
             let response = KvserverClient_Get rpc 0 (kv_client peer) request
             in if \<not> gr_WrongLeader response then (OnGetResponse response, c)
                else ask_servers rpc request 1 (kv_servers c) c
         | None \<Rightarrow> ask_servers rpc request 0 (kv_servers c) c)"

definition Skvclient_Put :: "string \<Rightarrow> string \<Rightarrow> Skvclient \<Rightarrow> (string \<times> PutAppendRequest) list" where
  "Skvclient_Put key v c =
     (let request = \<lparr>pq_key = key, pq_value = v, pq_op = ''put'', pq_ClerkID = 1, pq_cmdIndex = 1\<rparr>
      in map (\<lambda>(k, peer). (kv_client peer, request)) (kv_servers c))"

definition Skvclient_Append :: "Skvclient \<Rightarrow> Skvclient" where
  "Skvclient_Append c = c"

subsection \<open>Reading\<close>

text \<open>The servers the client knows are the added ones, each under its own name.\<close>

definition named_servers :: "Skvclient \<Rightarrow> bool" where
  "named_servers c \<longleftrightarrow> distinct (map fst (kv_servers c)) \<and>
     (\<forall>(k, p) \<in> set (kv_servers c). kv_name p = k \<and> kv_client p = k)"

lemma named_servers_Add: "named_servers c \<Longrightarrow> named_servers (AddServers name c)"
proof -
  assume n: "named_servers c"
  let ?ps = "AList.update name \<lparr>kv_name = name, kv_client = name\<rparr> (kv_servers c)"
  have d: "distinct (map fst ?ps)" using n by (simp add: named_servers_def distinct_update)
  have "kv_name p = k \<and> kv_client p = k" if "(k, p) \<in> set ?ps" for k p
  proof -
    have "map_of ?ps k = Some p" using that d by simp
    then show ?thesis using n map_of_SomeD [of "kv_servers c" k p]
      by (auto simp: update_conv' named_servers_def split: if_splits)
  qed
  then show ?thesis using d by (auto simp: named_servers_def AddServers_def)
qed

lemma named_servers_new: "named_servers (fold AddServers names new_Skvclient)"
proof -
  have "named_servers c \<Longrightarrow> named_servers (fold AddServers names c)" for c
    by (induction names arbitrary: c) (auto intro: named_servers_Add)
  moreover have "named_servers new_Skvclient" by (simp add: named_servers_def new_Skvclient_def)
  ultimately show ?thesis by blast
qed

lemma ask_servers_finds:
  assumes "named_servers c" "set ps \<subseteq> set (kv_servers c)"
    and "\<And>n k q. k \<in> fst ` set ps \<Longrightarrow> k \<noteq> leader \<Longrightarrow> \<exists>r. rpc n k q = Some r \<and> gr_WrongLeader r"
    and "\<And>n. rpc n leader request = Some rsp" "\<not> gr_WrongLeader rsp" "leader \<in> fst ` set ps"
  shows "ask_servers rpc request n ps c = (gr_Value rsp, c\<lparr>leaderName := leader\<rparr>)"
  using assms(2,3,6)
proof (induction ps arbitrary: n)
  case Nil
  then show ?case by simp
next
  case (Cons kp ps)
  obtain k p where kp: "kp = (k, p)" by (cases kp)
  have p: "kv_name p = k" "kv_client p = k" using Cons.prems(1) assms(1) kp by (auto simp: named_servers_def)
  show ?case
  proof (cases "k = leader")
    case True
    then show ?thesis using assms(4,5) p by (simp add: kp KvserverClient_Get_def OnGetResponse_def)
  next
    case False
    obtain r where r: "rpc n k request = Some r" "gr_WrongLeader r"
      using Cons.prems(2) [of k n request] False kp by auto
    have "ask_servers rpc request (Suc n) ps c = (gr_Value rsp, c\<lparr>leaderName := leader\<rparr>)"
      using Cons.prems False kp by (intro Cons.IH) auto
    then show ?thesis using r p by (simp add: kp KvserverClient_Get_def)
  qed
qed

lemma Get_finds_leader:
  assumes "named_servers c" "leader \<in> fst ` set (kv_servers c)"
    and "\<And>n k q. k \<in> fst ` set (kv_servers c) \<Longrightarrow> k \<noteq> leader \<Longrightarrow> \<exists>r. rpc n k q = Some r \<and> gr_WrongLeader r"
    and "\<And>n. rpc n leader \<lparr>gq_Key = key, gq_ClerkID = 1, gq_CmdIndex = 1\<rparr> = Some rsp" "\<not> gr_WrongLeader rsp"
  shows "Skvclient_Get rpc key c = (gr_Value rsp, c\<lparr>leaderName := leader\<rparr>)"
proof -
  let ?q = "\<lparr>gq_Key = key, gq_ClerkID = 1, gq_CmdIndex = 1\<rparr>"
  have all: "ask_servers rpc ?q n (kv_servers c) c = (gr_Value rsp, c\<lparr>leaderName := leader\<rparr>)" for n
    using assms by (intro ask_servers_finds) auto
  show ?thesis
  proof (cases "map_of (kv_servers c) (leaderName c)")
    case None
    then show ?thesis by (simp add: Skvclient_Get_def all)
  next
    case (Some p)
    then have p: "kv_client p = leaderName c" using assms(1) map_of_SomeD [OF Some] by (auto simp: named_servers_def)
    show ?thesis
    proof (cases "leaderName c = leader")
      case True
      then have "c\<lparr>leaderName := leader\<rparr> = c" by auto
      then show ?thesis using assms(4) [of 0] assms(5) Some p True
        by (simp add: Skvclient_Get_def KvserverClient_Get_def OnGetResponse_def)
    next
      case False
      have "leaderName c \<in> fst ` set (kv_servers c)" using map_of_SomeD [OF Some] by force
      then obtain r where "rpc 0 (leaderName c) ?q = Some r" "gr_WrongLeader r" using assms(3) False by blast
      then show ?thesis using Some p all by (simp add: Skvclient_Get_def KvserverClient_Get_def)
    qed
  qed
qed

text \<open>
  Claim C15. When every call succeeds, exactly one of the servers the client has added is the leader
  and every other server says it is not, \<open>Get\<close> returns the leader's value and remembers the leader,
  whichever server it remembered before.
\<close>
theorem client_finds_the_leader:
  assumes "named_servers c" "leader \<in> fst ` set (kv_servers c)"
    and "\<And>n k q. k \<in> fst ` set (kv_servers c) \<Longrightarrow> k \<noteq> leader \<Longrightarrow> \<exists>r. rpc n k q = Some r \<and> gr_WrongLeader r"
    and "\<And>n. rpc n leader \<lparr>gq_Key = key, gq_ClerkID = 1, gq_CmdIndex = 1\<rparr> = Some rsp" "\<not> gr_WrongLeader rsp"
  shows "Skvclient_Get rpc key c = (gr_Value rsp, c\<lparr>leaderName := leader\<rparr>)"
  using assms by (rule Get_finds_leader)

definition example_rpc :: get_rpc where
  "example_rpc n k q = (if k = ''b'' then Some \<lparr>gr_WrongLeader = False, gr_Err = ''none'', gr_Value = ''v''\<rparr>
     else Some \<lparr>gr_WrongLeader = True, gr_Err = ''wrong leader'', gr_Value = ''Error''\<rparr>)"

definition example_client :: Skvclient where
  "example_client = fold AddServers [''a'', ''b''] new_Skvclient"

theorem client_finds_the_leader_witness:
  "fst (Skvclient_Get example_rpc ''k'' example_client) = ''v''"
proof -
  have l: "''b'' \<in> fst ` set (kv_servers example_client)"
    by (simp add: example_client_def AddServers_def new_Skvclient_def)
  have n: "named_servers example_client" unfolding example_client_def by (rule named_servers_new)
  have "Skvclient_Get example_rpc ''k'' example_client =
    (gr_Value \<lparr>gr_WrongLeader = False, gr_Err = ''none'', gr_Value = ''v''\<rparr>, example_client\<lparr>leaderName := ''b''\<rparr>)"
    by (rule client_finds_the_leader [OF n l]) (auto simp: example_rpc_def)
  then show ?thesis by simp
qed

text \<open>
  A server that cannot be reached passes for the leader: the default response of the failed
  call does not say ''wrong leader'', so \<open>Get\<close> returns the empty string without asking the servers
  after it, and remembers the unreachable server.
\<close>
lemma unreachable_server_answers:
  assumes "kv_servers c = (k, p) # ps" "map_of (kv_servers c) (leaderName c) = None"
    and "\<And>q. rpc 0 (kv_client p) q = None"
  shows "Skvclient_Get rpc key c = ([], c\<lparr>leaderName := kv_name p\<rparr>)"
  using assms
  by (simp add: Skvclient_Get_def KvserverClient_Get_def GetResponse_default_def OnGetResponse_def)

lemma unreachable_server_answers_example:
  "fst (Skvclient_Get (\<lambda>n k q. if k = ''a'' then None else example_rpc n k q) ''k'' example_client) = []"
proof -
  have s: "kv_servers example_client = (''a'', \<lparr>kv_name = ''a'', kv_client = ''a''\<rparr>) #
      [(''b'', \<lparr>kv_name = ''b'', kv_client = ''b''\<rparr>)]"
    by (simp add: example_client_def AddServers_def new_Skvclient_def)
  have n: "map_of (kv_servers example_client) (leaderName example_client) = None"
    by (simp add: example_client_def AddServers_def new_Skvclient_def)
  show ?thesis
    using unreachable_server_answers [OF s n, of "\<lambda>n k q. if k = ''a'' then None else example_rpc n k q" "''k''"]
    by simp
qed

end
