(* ===== verification/RaftBehaviour.thy ===== *)
theory RaftBehaviour
  imports Replication SRaftRpc
begin

text \<open>
  What a node does with commits, committed commands and failed calls, and the places where the code
  departs from the Raft rules: a follower never applies anything, an index is committed with fewer
  copies than a majority, a request whose previous entry is unknown replaces the whole log, and a
  failed RPC leaves a null peer behind.
\<close>

subsection \<open>Committing and applying\<close>

text \<open>
  Claim C13. \<open>DoApply\<close> sends exactly the commands between \<open>lastApplied\<close> and \<open>commitIndex\<close> to the
  channel, in index order and each once, leaves out the empty ones, and ends with nothing to apply;
  a second call does nothing.
\<close>
theorem applies_exactly_once:
  "DoApply s = s\<lparr>lastApplied := (if lastApplied s <s commitIndex s then commitIndex s else lastApplied s),
     channel := map_option (\<lambda>que. que @ filter (\<lambda>cmd. cmd \<noteq> [])
       (map (\<lambda>i. le_data (GetLogByIndex (logs s) (word_of_int i)))
         [sint (lastApplied s) + 1 .. sint (commitIndex s)])) (channel s)\<rparr>
   \<and> DoApply (DoApply s) = DoApply s"
proof
  show "DoApply s = s\<lparr>lastApplied := (if lastApplied s <s commitIndex s then commitIndex s else lastApplied s),
     channel := map_option (\<lambda>que. que @ filter (\<lambda>cmd. cmd \<noteq> [])
       (map (\<lambda>i. le_data (GetLogByIndex (logs s) (word_of_int i)))
         [sint (lastApplied s) + 1 .. sint (commitIndex s)])) (channel s)\<rparr>"
    by (simp add: DoApply_eq pending_cmds_def)
  show "DoApply (DoApply s) = DoApply s"
    by (rule DoApply_idle) (auto simp: DoApply_eq)
qed

text \<open>
  Claim C14. The copying loop of \<open>DoAppendEntries\<close> in full. Over a well-formed log that is not empty and from any index
  that is not negative it returns: the entries from that index on, none when it is past the end, and before them an empty
  \<open>LogEntry\<close> for every index below \<open>BaseLogIndex()\<close>, which lacks the required fields of the message. Over an
  empty log it never returns: the last index \<open>-1\<close> becomes \<open>2^64 - 1\<close> in the unsigned comparison, and no counter is above it.
\<close>
theorem copying_loop:
  "(wf_log es \<and> es \<noteq> [] \<and> 0 \<le> sint i \<longrightarrow>
      entries_loop es i = Some (replicate (nat (sint (BaseLogIndex es) - sint i)) LogEntry_default @
        drop (nat (sint i - sint (BaseLogIndex es))) es)) \<and> entries_loop [] i = None"
  using entries_loop_eq [of es i] entries_loop_Nil by blast

theorem copying_loop_witness:
  "entries_loop [example_entry] 0 = Some [example_entry] \<and>
   entries_loop [example_entry\<lparr>le_index := 2\<rparr>] 0 = Some [LogEntry_default, LogEntry_default, example_entry\<lparr>le_index := 2\<rparr>]"
proof -
  have "wf_log [example_entry\<lparr>le_index := 2\<rparr>]" by (simp add: wf_log_def BaseLogIndex_def)
  then show ?thesis
    using copying_loop [of "[example_entry]" 0] copying_loop [of "[example_entry\<lparr>le_index := 2\<rparr>]" 0] example_wf
    by (simp add: BaseLogIndex_def numeral_2_eq_2)
qed

definition example_ack :: AppendEntriesResponse where
  "example_ack = \<lparr>ar_name = ''F'', ar_term = 1, ar_success = True, ar_last_log_index = 0,
     ar_last_log_term = 1, ar_time = 0, ar_seq = 0\<rparr>"

text \<open>
  Claim C18. Only a leader applies commands: while a node is not the leader, no operation other than
  a crash changes its \<open>commitIndex\<close>, its \<open>lastApplied\<close> or its channel. The leader's commit index in an
  append request is never read, so the state machine of a follower does not advance.
\<close>
theorem only_leaders_apply:
  assumes "node_step ev s = Inr s'" "state s \<noteq> LEADER" "enabled ev s" "fs_ok s"
    and "\<And>clk rnd. ev \<noteq> Restart clk rnd"
  shows "channel s' = channel s \<and> commitIndex s' = commitIndex s \<and> lastApplied s' = lastApplied s"
proof (cases ev)
  case Tick
  then show ?thesis using assms OnTimer_log [of s s'] by (simp add: app_eq_def)
next
  case (VoteRequest r)
  then show ?thesis using assms OnRequestVoteRequest_log [of r RequestVoteResponse_default s]
    by (cases "OnRequestVoteRequest r RequestVoteResponse_default s") (auto simp: app_eq_def)
next
  case (VoteReply r)
  then show ?thesis using assms OnRequestVoteResponse_log [of s r] by (auto simp: app_eq_def)
next
  case (AppendRequest r)
  then show ?thesis using assms OnAppendEntriesRequest_log [of r AppendEntriesResponse_default s]
    by (cases "OnAppendEntriesRequest r AppendEntriesResponse_default s") (auto simp: app_eq_def)
next
  case (AppendReply r hb)
  then show ?thesis using assms by (auto simp: OnAppendEntriesReponse_def Let_def peers_index_def split: if_splits)
next
  case (ClientCommand cmd)
  then show ?thesis using assms by (auto simp: DoLog_def split: if_splits)
qed (use assms in \<open>auto simp: AddPeer_def Run_def Load_def get_current_ms_def get_ranged_random_def split: option.splits\<close>)

theorem only_leaders_apply_witness:
  "\<exists>s'. node_step (AppendRequest (example_append\<lparr>aq_leader_commit := 0\<rparr>)) example_follower = Inr s' \<and>
     commitIndex s' = -1"
proof -
  let ?e = "AppendRequest (example_append\<lparr>aq_leader_commit := 0\<rparr>)"
  obtain s' where s: "node_step ?e example_follower = Inr s'" by simp
  have "state example_follower \<noteq> LEADER" "enabled ?e example_follower" "fs_ok example_follower"
    by (simp_all add: example_follower_def new_SRaft_def)
  from only_leaders_apply [OF s this] have "commitIndex s' = commitIndex example_follower" by simp
  then show ?thesis using s by (simp add: example_follower_def new_SRaft_def)
qed

text \<open>
  In a cluster of five, the first acknowledgement commits: with four peers of which none
  else has the index, the leader commits it with two copies, its own and one follower's.
\<close>
lemma minority_commit:
  assumes lead: "state s = LEADER" "\<not> currentTerm s < ar_term r" "ar_success r"
    and new: "commitIndex s <s ar_last_log_index r"
    and known: "map_of (peers s) (ar_name r) = Some (Some p)" "all_live (peers s)"
      "distinct (map fst (peers s))" "length (peers s) = 4"
    and others: "\<And>k q. (k, Some q) \<in> set (peers s) \<Longrightarrow> k \<noteq> ar_name r \<Longrightarrow>
       \<not> ar_last_log_index r \<le>s matchIndex q"
  shows "\<exists>s'. OnAppendEntriesReponse r False s = Inr s' \<and> commitIndex s' = ar_last_log_index r \<and>
     replicas (ar_last_log_index r) (peers s') = 1"
proof -
  let ?t = "acked r p s"
  have mem: "(ar_name r, Some (p\<lparr>nextIndex := ar_last_log_index r + 1, matchIndex := ar_last_log_index r\<rparr>))
     \<in> set (peers ?t)"
    by (rule map_of_SomeD) (simp add: acked_def update_conv')
  have dist: "distinct (map fst (peers ?t))" using known(3) by (simp add: acked_def distinct_update)
  have rep: "replicas (ar_last_log_index r) (peers ?t) = 1"
  proof (rule replicas_single [OF dist mem])
    show "all_live (peers ?t)" using known(2) by (simp add: acked_def all_live_update)
    fix k q assume kq: "(k, Some q) \<in> set (peers ?t)" "k \<noteq> ar_name r"
    then have "map_of (peers ?t) k = Some (Some q)" using dist by simp
    then have "(k, Some q) \<in> set (peers s)" using kq(2) by (simp add: acked_def update_conv' map_of_SomeD)
    then show "\<not> ar_last_log_index r \<le>s matchIndex q" using others kq(2) by blast
  qed (simp add: sle_i64)
  then show ?thesis
    using commit_rule [OF lead new known(1,2)] known(4) by (simp add: Let_def)
qed

definition five_nodes_leader :: SRaft where
  "five_nodes_leader = example_leader\<lparr>peers := map (\<lambda>k. (k, Some \<lparr>peer_name = k, peerSRaftClient = k,
     nextIndex = 0, matchIndex = -1\<rparr>)) [''F'', ''G'', ''H'', ''I'']\<rparr>"

lemma minority_commit_example:
  "\<exists>s'. OnAppendEntriesReponse example_ack False five_nodes_leader = Inr s' \<and> commitIndex s' = 0 \<and>
     replicas 0 (peers s') = 1"
proof -
  let ?p = "\<lparr>peer_name = ''F'', peerSRaftClient = ''F'', nextIndex = 0, matchIndex = -1\<rparr>"
  have h: "state five_nodes_leader = LEADER" "\<not> currentTerm five_nodes_leader < ar_term example_ack"
    "ar_success example_ack" "commitIndex five_nodes_leader <s ar_last_log_index example_ack"
    "map_of (peers five_nodes_leader) (ar_name example_ack) = Some (Some ?p)" "all_live (peers five_nodes_leader)"
    "distinct (map fst (peers five_nodes_leader))" "length (peers five_nodes_leader) = 4"
    "\<And>k q. (k, Some q) \<in> set (peers five_nodes_leader) \<Longrightarrow> k \<noteq> ar_name example_ack \<Longrightarrow>
       \<not> ar_last_log_index example_ack \<le>s matchIndex q"
    by (auto simp: five_nodes_leader_def example_leader_def example_ack_def new_SRaft_def sless_i64 sle_i64 all_live_def)
  show ?thesis using minority_commit [OF h] by (simp add: example_ack_def)
qed

subsection \<open>Repeated and mismatched append requests\<close>

text \<open>
  Delivering an append request again changes nothing more: when the entry before the new
  ones is in the follower's well-formed log and the result is well-formed, handling the same request
  a second time leaves the log as the first time left it.
\<close>
lemma append_idempotent:
  assumes "running s" "\<not> aq_term r < currentTerm s" "aq_entries r \<noteq> []"
    and "BaseLogIndex (logs s) \<le>s aq_prev_log_index r" "wf_log (logs s)"
    and "entry_at (logs s) (aq_prev_log_term r) (aq_prev_log_index r) m"
      "wf_log (take (Suc m) (logs s) @ aq_entries r)"
    and "OnAppendEntriesRequest r rsp s = (x, rsp', s')" "OnAppendEntriesRequest r rsp'' s' = (y, rsp3, s'')"
  shows "logs s' = take (Suc m) (logs s) @ aq_entries r \<and> logs s'' = logs s'"
proof -
  note a = OnAppendEntriesRequest_append [OF assms(1-4,8)]
  have len: "Suc m < 2 ^ 64" "0 < length (logs s)"
    using wf_log_length [OF assms(5)] assms(6) by (auto simp: entry_at_def)
  have l: "logs s' = take (Suc m) (logs s) @ aq_entries r"
  proof (cases "logs s" "aq_prev_log_term r" "aq_prev_log_index r" rule: FindLog_cases)
    case absent
    then show ?thesis using assms(6) by blast
  next
    case (found k)
    then have "k = m" using wf_log_unique [OF assms(5,6)] by blast
    then show ?thesis using a(3) found(1) append_at_found [OF len(1)] by simp
  qed
  have run: "running s'" using assms(1,2,3,4,8)
    by (auto simp: OnAppendEntriesRequest_def Let_def get_current_ms_def split: if_splits)
  have base: "BaseLogIndex (logs s') = BaseLogIndex (logs s)"
    using len by (cases "logs s") (auto simp: l BaseLogIndex_def)
  have t: "\<not> aq_term r < currentTerm s'" "BaseLogIndex (logs s') \<le>s aq_prev_log_index r"
    using assms(2,4) a(8) base by simp_all
  show ?thesis
    using OnAppendEntriesRequest_append(3) [OF run t(1) assms(3) t(2) assms(9)]
      append_twice [OF assms(5-7)] a(3) l by simp
qed

lemma append_idempotent_example:
  "\<exists>(s' :: SRaft) (s'' :: SRaft). logs s' = [example_entry, example_entry\<lparr>le_index := 1\<rparr>] \<and> logs s'' = logs s'"
proof -
  let ?r = "example_append\<lparr>aq_prev_log_index := 0, aq_prev_log_term := 1, aq_entries := [example_entry\<lparr>le_index := 1\<rparr>]\<rparr>"
  let ?s = "example_follower\<lparr>logs := [example_entry]\<rparr>"
  obtain x p s' where 1: "OnAppendEntriesRequest ?r AppendEntriesResponse_default ?s = (x, p, s')"
    by (cases "OnAppendEntriesRequest ?r AppendEntriesResponse_default ?s" rule: prod_cases3)
  obtain y q s'' where 2: "OnAppendEntriesRequest ?r AppendEntriesResponse_default s' = (y, q, s'')"
    by (cases "OnAppendEntriesRequest ?r AppendEntriesResponse_default s'" rule: prod_cases3)
  have h: "running ?s" "\<not> aq_term ?r < currentTerm ?s" "aq_entries ?r \<noteq> []"
    "BaseLogIndex (logs ?s) \<le>s aq_prev_log_index ?r" "wf_log (logs ?s)"
    "entry_at (logs ?s) (aq_prev_log_term ?r) (aq_prev_log_index ?r) 0"
    "wf_log (take (Suc 0) (logs ?s) @ aq_entries ?r)"
    by (simp_all add: example_follower_def new_SRaft_def example_append_def example_entry_def
        BaseLogIndex_def sle_i64 wf_log_def entry_at_def)
  from append_idempotent [OF h 1 2] show ?thesis by (intro exI [of _ s'] exI [of _ s'']) (simp add: example_follower_def example_append_def)
qed

text \<open>
  Claim C22. A request that does not fit the log is not refused. When a running node gets entries of a term that is not
  older, with a previous index that is not below \<open>BaseLogIndex()\<close>, and no entry of its log has that index and
  term, then the whole log is replaced by the request's entries and the response says success. (A previous index
  below \<open>BaseLogIndex()\<close> is refused.)
\<close>
theorem log_replaced:
  assumes "running s" "\<not> aq_term r < currentTerm s" "aq_entries r \<noteq> []"
    and "BaseLogIndex (logs s) \<le>s aq_prev_log_index r"
    and "\<And>m. \<not> entry_at (logs s) (aq_prev_log_term r) (aq_prev_log_index r) m"
    and "OnAppendEntriesRequest r rsp s = (x, rsp', s')"
  shows "logs s' = aq_entries r \<and> ar_success rsp'"
proof -
  have "FindLog (logs s) (aq_prev_log_term r) (aq_prev_log_index r) = -1"
    by (cases "logs s" "aq_prev_log_term r" "aq_prev_log_index r" rule: FindLog_cases) (use assms(5) in auto)
  then show ?thesis using OnAppendEntriesRequest_append [OF assms(1-4,6)] by simp
qed

definition gap_request :: AppendEntriesRequest where
  "gap_request = example_append\<lparr>aq_prev_log_index := 4, aq_prev_log_term := 1, aq_entries := [example_entry\<lparr>le_index := 5\<rparr>]\<rparr>"

theorem log_replaced_witness:
  "\<exists>x rsp s'. OnAppendEntriesRequest gap_request AppendEntriesResponse_default (example_follower\<lparr>logs := [example_entry]\<rparr>) = (x, rsp, s') \<and>
     logs s' = [example_entry\<lparr>le_index := 5\<rparr>] \<and> ar_success rsp"
proof -
  let ?s = "example_follower\<lparr>logs := [example_entry]\<rparr>"
  obtain x p s' where 1: "OnAppendEntriesRequest gap_request AppendEntriesResponse_default ?s = (x, p, s')"
    by (cases "OnAppendEntriesRequest gap_request AppendEntriesResponse_default ?s" rule: prod_cases3)
  have h: "running ?s" "\<not> aq_term gap_request < currentTerm ?s" "aq_entries gap_request \<noteq> []"
    "BaseLogIndex (logs ?s) \<le>s aq_prev_log_index gap_request"
    "\<And>m. \<not> entry_at (logs ?s) (aq_prev_log_term gap_request) (aq_prev_log_index gap_request) m"
    by (auto simp: example_follower_def new_SRaft_def gap_request_def example_append_def example_entry_def
        BaseLogIndex_def sle_i64 entry_at_def)
  show ?thesis using log_replaced [OF h 1] 1 by (auto simp: gap_request_def)
qed

subsection \<open>Failed calls\<close>

lemma for_peers_null:
  assumes "\<not> all_live ps" "\<And>p s. is_ok (f p s)"
  shows "for_peers f ps s = Inl NullDeref"
  using assms(1)
proof (induction ps arbitrary: s)
  case Nil
  then show ?case by (simp add: all_live_def)
next
  case (Cons kp ps)
  obtain k q where kp: "kp = (k, q)" by (cases kp)
  show ?case
  proof (cases q)
    case None
    then show ?thesis by (simp add: kp)
  next
    case (Some p)
    then obtain s1 where "f p s = Inr s1" using assms(2) by (auto simp: is_ok_iff)
    then show ?thesis using Cons Some kp by (simp add: all_live_def)
  qed
qed

lemma null_peer_crashes:
  assumes "\<not> all_live (peers s)"
  shows "SendHeartbeat s = Inl NullDeref \<and> DoElection s = Inl NullDeref"
proof -
  have ok: "is_ok (send_append True q t)" for q t
    by (simp add: send_append_def append_request_def get_current_ms_def)
  have ok': "is_ok (send_vote_request n q t)" for n q t
    by (simp add: send_vote_request_def)
  have "peers s \<noteq> []" using assms by (auto simp: all_live_def)
  then show ?thesis using for_peers_null [OF assms ok'] for_peers_null [OF assms ok]
    by (simp add: DoElection_def get_current_ms_def Let_def SendHeartbeat_def DoAppendEntries_def)
qed

text \<open>
  The answer of a failed heartbeat is the default response, whose name is empty. Handling
  it inserts a null peer under the empty name, and from then on every heartbeat and every election of
  the node dereferences a null pointer.
\<close>
lemma failed_rpc_crashes:
  assumes "map_of (peers s) '''' = None"
    and "AppendEntries_thread None True s = Inr s'"
  shows "peers s' = peers s @ [('''', None)] \<and> SendHeartbeat s' = Inl NullDeref \<and> DoElection s' = Inl NullDeref"
proof -
  have p: "peers s' = peers s @ [('''', None)]"
    using assms by (auto simp: AppendEntries_thread_def OnAppendEntriesReponse_def Let_def peers_index_def
        AppendEntriesResponse_default_def split: if_splits)
  then have dead: "\<not> all_live (peers s')" by (simp add: all_live_def)
  show ?thesis using p null_peer_crashes [OF dead] by simp
qed

lemma failed_rpc_crashes_example:
  "\<exists>s'. AppendEntries_thread None True example_leader = Inr s' \<and>
     SendHeartbeat s' = Inl NullDeref"
proof -
  have n: "map_of (peers example_leader) '''' = None" by (simp add: example_leader_def)
  obtain s' where s: "AppendEntries_thread None True example_leader = Inr s'"
    by (cases "AppendEntries_thread None True example_leader")
       (auto simp: AppendEntries_thread_def OnAppendEntriesReponse_def Let_def split: if_splits)
  show ?thesis using failed_rpc_crashes [OF n s] s by auto
qed


end
