(* ===== verification/ReplicatedWrite.thy ===== *)
theory ReplicatedWrite
  imports RaftBehaviour
begin

text \<open>
  A client command from the leader to the followers and back: \<open>DoLog\<close> starts one \<open>AppendEntries\<close>
  thread per peer, each request is handled by the service of its follower, and the thread hands the
  answer to the leader. \<open>append_exchange\<close> is one such call from its request to the end of its
  thread, \<open>append_round\<close> the calls of any followers in any order.
\<close>

subsection \<open>The calls of one round\<close>

text \<open>The request of the last append call to an address that is not a heartbeat.\<close>

fun request_to :: "string \<Rightarrow> raft_call list \<Rightarrow> AppendEntriesRequest option" where
  "request_to addr [] = None"
| "request_to addr (c # cs) =
     (case request_to addr cs of
        Some rq \<Rightarrow> Some rq
      | None \<Rightarrow> (case c of
          CallAppendEntries a rq hb \<Rightarrow> if a = addr \<and> \<not> hb then Some rq else None
        | CallRequestVote a rq \<Rightarrow> None))"

lemma request_to_append:
  "request_to a (cs @ ds) = (case request_to a ds of Some rq \<Rightarrow> Some rq | None \<Rightarrow> request_to a cs)"
  by (induction cs) (auto split: option.splits)

lemma append_request_same:
  assumes "same_but_calls s s'"
  shows "append_request hb p now s' = append_request hb p now s"
  unfolding append_request_def same_but_callsD [OF assms] by (rule refl)

definition call_for :: "SRaft \<Rightarrow> (string \<times> SRaftPeer option) \<Rightarrow> raft_call \<Rightarrow> bool" where
  "call_for s kp c \<longleftrightarrow> (\<exists>p now rq. snd kp = Some p \<and> c = CallAppendEntries (peerSRaftClient p) rq False \<and>
     append_request False p now s = Inr rq)"

lemma call_for_same: "same_but_calls s s' \<Longrightarrow> call_for s' = call_for s"
  by (simp add: call_for_def fun_eq_iff append_request_same)

lemma send_append_ok:
  assumes "\<And>now. \<exists>rq. append_request False p now s = Inr rq"
  shows "\<exists>s1 c. send_append False p s = Inr s1 \<and> same_but_calls s s1 \<and> calls s1 = calls s @ [c] \<and>
    call_for s (k, Some p) c"
proof -
  obtain rq where rq: "append_request False p (clock s (ticks s)) s = Inr rq" using assms by blast
  have tk: "same_but_calls s (s\<lparr>ticks := Suc (ticks s)\<rparr>)" by (simp add: same_but_calls_def)
  let ?s1 = "s\<lparr>ticks := Suc (ticks s), calls := calls s @ [CallAppendEntries (peerSRaftClient p) rq False]\<rparr>"
  have "send_append False p s = Inr ?s1"
    using rq by (simp add: send_append_def get_current_ms_def append_request_same [OF tk] SRaftClient_AppendEntries_def)
  moreover have "same_but_calls s ?s1" by (simp add: same_but_calls_def)
  ultimately show ?thesis using rq by (intro exI [of _ ?s1] exI [of _ "CallAppendEntries (peerSRaftClient p) rq False"])
      (auto simp: call_for_def)
qed

lemma for_peers_calls:
  assumes "all_live ps" "\<And>k p now. (k, Some p) \<in> set ps \<Longrightarrow> \<exists>rq. append_request False p now s = Inr rq"
  shows "\<exists>s' cs. for_peers (send_append False) ps s = Inr s' \<and> same_but_calls s s' \<and>
    calls s' = calls s @ cs \<and> list_all2 (call_for s) ps cs"
  using assms
proof (induction ps arbitrary: s)
  case Nil
  then show ?case by simp
next
  case (Cons kp ps)
  obtain k p where kp: "kp = (k, Some p)" using Cons.prems(1) by (cases kp) (auto simp: all_live_def)
  obtain s1 c where 1: "send_append False p s = Inr s1" "same_but_calls s s1" "calls s1 = calls s @ [c]"
      "call_for s (k, Some p) c"
    using send_append_ok [of p s k] Cons.prems(2) [of k p] kp by auto
  obtain s' cs where 2: "for_peers (send_append False) ps s1 = Inr s'" "same_but_calls s1 s'"
      "calls s' = calls s1 @ cs" "list_all2 (call_for s1) ps cs"
    using Cons.IH [of s1, unfolded append_request_same [OF 1(2)]] Cons.prems
    by (simp add: all_live_def) metis
  show ?case using 1 2 kp same_but_calls_trans [OF 1(2) 2(2)] call_for_same [OF 1(2)]
    by (intro exI [of _ s'] exI [of _ "c # cs"]) simp
qed

lemma request_to_none:
  assumes "list_all2 (call_for s) ps cs" "k \<notin> fst ` set ps"
    and "\<And>k p. (k, Some p) \<in> set ps \<Longrightarrow> peerSRaftClient p = k"
  shows "request_to k cs = None"
  using assms
proof (induction rule: list_all2_induct)
  case (Cons kp ps c cs)
  then have n: "request_to k cs = None" by simp
  obtain p rq where "snd kp = Some p" "c = CallAppendEntries (peerSRaftClient p) rq False"
    using Cons.hyps(1) by (auto simp: call_for_def)
  moreover from this have "peerSRaftClient p = fst kp" using Cons.prems(2) by (cases kp) auto
  ultimately show ?case using n Cons.prems(1) by auto
qed simp

lemma request_to_peer:
  assumes "list_all2 (call_for s) ps cs" "distinct (map fst ps)" "(k, Some p) \<in> set ps"
    and "\<And>k p. (k, Some p) \<in> set ps \<Longrightarrow> peerSRaftClient p = k"
  shows "\<exists>now rq. request_to k cs = Some rq \<and> append_request False p now s = Inr rq"
  using assms
proof (induction rule: list_all2_induct)
  case (Cons kp ps c cs)
  show ?case
  proof (cases "kp = (k, Some p)")
    case True
    then have "request_to k cs = None" using Cons.prems by (intro request_to_none [OF Cons.hyps(2)]) auto
    moreover obtain now rq where "c = CallAppendEntries (peerSRaftClient p) rq False" "append_request False p now s = Inr rq"
      using Cons.hyps(1) True by (auto simp: call_for_def)
    moreover have "peerSRaftClient p = k" using Cons.prems(3) True by simp
    ultimately show ?thesis by auto
  next
    case False
    then have "\<exists>now rq. request_to k cs = Some rq \<and> append_request False p now s = Inr rq"
      using Cons.prems by (intro Cons.IH) auto
    then show ?thesis by auto
  qed
qed simp

subsection \<open>The leader writes\<close>

definition leading :: "SRaft \<Rightarrow> bool" where
  "leading l \<longleftrightarrow> running l \<and> state l = LEADER \<and> wf_log (logs l) \<and> (logs l \<noteq> [] \<longrightarrow> sint (BaseLogIndex (logs l)) = 0) \<and>
     log_room (logs l) \<and> commitIndex l = lastApplied l \<and> -1 \<le> sint (lastApplied l) \<and>
     lastApplied l \<le>s LastLogIndex (logs l) \<and> peers l \<noteq> [] \<and> all_live (peers l) \<and> distinct (map fst (peers l)) \<and>
     length (peers l) < 2 ^ 63 \<and>
     (\<forall>k p. (k, Some p) \<in> set (peers l) \<longrightarrow> peerSRaftClient p = k \<and> 0 \<le> sint (nextIndex p) \<and>
        sint (nextIndex p) \<le> int (length (logs l)) \<and> matchIndex p \<le>s LastLogIndex (logs l))"

definition new_entry :: "string \<Rightarrow> SRaft \<Rightarrow> LogEntry" where
  "new_entry cmd l = \<lparr>le_index = LastLogIndex (logs l) + 1, le_term = currentTerm l, le_command = 0, le_data = cmd\<rparr>"

lemma leading_last: "leading l \<Longrightarrow> sint (LastLogIndex (logs l)) = int (length (logs l)) - 1"
  using sint_LastLogIndex [of "logs l"] by (cases "logs l = []") (auto simp: leading_def)

lemma leading_new_log:
  fixes cmd :: string
  assumes "leading l"
  defines "L \<equiv> logs l @ [new_entry cmd l]"
  shows "wf_log L" "L \<noteq> []" "sint (BaseLogIndex L) = 0" "sint (LastLogIndex L) = int (length (logs l))"
proof -
  show wf: "wf_log L" unfolding L_def
    by (rule wf_log_snoc) (use assms(1) in \<open>auto simp: leading_def new_entry_def\<close>)
  show "L \<noteq> []" by (simp add: L_def)
  then have "BaseLogIndex L = (if logs l = [] then 0 else BaseLogIndex (logs l))"
    by (simp add: L_def BaseLogIndex_def new_entry_def nth_append)
  then show b: "sint (BaseLogIndex L) = 0" using assms(1) by (simp add: leading_def)
  show "sint (LastLogIndex L) = int (length (logs l))"
    using sint_LastLogIndex [OF wf] b by (simp add: L_def)
qed

lemma append_request_ok:
  assumes "wf_log (logs s)" "logs s \<noteq> []" "sint (BaseLogIndex (logs s)) = 0"
    and "0 \<le> sint (nextIndex p)" "sint (nextIndex p) \<le> int (length (logs s))"
  shows "\<exists>rq. append_request False p now s = Inr rq"
proof -
  have "(if 0 <s nextIndex p then nextIndex p else 0) = nextIndex p"
    using assms(4) by (auto simp: sless_i64 sint_i64_eq_iff)
  moreover have "entries_loop (logs s) (nextIndex p) = Some (drop (nat (sint (nextIndex p))) (logs s))"
    using assms by (intro entries_loop_from) auto
  ultimately show ?thesis by (simp add: append_request_def Let_def)
qed

lemma DoLog_leading:
  assumes "leading l"
  shows "\<exists>l' cs. DoLog cmd l = Inr (1, l') \<and> logs l' = logs l @ [new_entry cmd l] \<and> calls l' = calls l @ cs \<and>
    list_all2 (call_for l') (peers l) cs \<and> peers l' = peers l \<and> state l' = LEADER \<and> currentTerm l' = currentTerm l \<and>
    commitIndex l' = commitIndex l \<and> lastApplied l' = lastApplied l \<and> channel l' = channel l"
proof -
  let ?s = "Dump (l\<lparr>logs := logs l @ [new_entry cmd l]\<rparr>)"
  have s: "logs ?s = logs l @ [new_entry cmd l]" "peers ?s = peers l" "calls ?s = calls l" "channel ?s = channel l"
    "state ?s = state l" "currentTerm ?s = currentTerm l" "commitIndex ?s = commitIndex l" "lastApplied ?s = lastApplied l"
    by (simp_all add: Dump_def)
  have live: "all_live (peers l)" and pk: "\<And>k p. (k, Some p) \<in> set (peers l) \<Longrightarrow>
      0 \<le> sint (nextIndex p) \<and> sint (nextIndex p) \<le> int (length (logs l))"
    using assms by (auto simp: leading_def)
  note L = leading_new_log [OF assms, of cmd]
  have ok: "\<exists>rq. append_request False p now ?s = Inr rq" if "(k, Some p) \<in> set (peers l)" for k p now
    by (rule append_request_ok) (use L pk [OF that] s in simp_all)
  obtain s' cs where r: "for_peers (send_append False) (peers l) ?s = Inr s'" "same_but_calls ?s s'"
      "calls s' = calls ?s @ cs" "list_all2 (call_for ?s) (peers l) cs"
    using for_peers_calls [OF live, of ?s] ok by blast
  have "DoAppendEntries False ?s = Inr s'"
    using r(1) assms s by (simp add: DoAppendEntries_def leading_def)
  then have "DoLog cmd l = Inr (1, s')" using assms by (simp add: DoLog_def Let_def new_entry_def leading_def)
  then show ?thesis using same_but_callsD [OF r(2)] r(3,4) s call_for_same [OF r(2)] assms
    by (intro exI [of _ s'] exI [of _ cs]) (simp add: leading_def)
qed

subsection \<open>The followers answer\<close>

definition append_exchange :: "SRaft \<Rightarrow> SRaft \<Rightarrow> (SRaft \<times> SRaft) result" where
  "append_exchange f l =
     (case request_to (addrStr f) (calls l) of
        None \<Rightarrow> Inr (f, l)
      | Some request \<Rightarrow>
          (let (status, response, f') = RaftMessagesServiceImpl_AppendEntries request f
           in rbind (AppendEntries_thread (Some response) False l) (\<lambda>l'. Inr (f', l'))))"

fun append_round :: "SRaft list \<Rightarrow> SRaft \<Rightarrow> (SRaft list \<times> SRaft) result" where
  "append_round [] l = Inr ([], l)"
| "append_round (f # fs) l =
     rbind (append_exchange f l) (\<lambda>(f', l). rbind (append_round fs l) (\<lambda>(fs', l). Inr (f' # fs', l)))"

definition in_sync :: "SRaft \<Rightarrow> SRaft \<Rightarrow> bool" where
  "in_sync l f \<longleftrightarrow> running f \<and> fs_ok f \<and> \<not> currentTerm l < currentTerm f \<and> wf_log (logs f) \<and>
     (\<exists>p n junk. map_of (peers l) (addrStr f) = Some (Some p) \<and> sint (nextIndex p) = int n \<and>
        logs f = take n (logs l) @ junk \<and> (n = 0 \<longrightarrow> junk = []))"

fun acked_peers :: "i64 \<Rightarrow> string set \<Rightarrow> (string \<times> SRaftPeer option) list \<Rightarrow> (string \<times> SRaftPeer option) list" where
  "acked_peers c names [] = []"
| "acked_peers c names ((k, q) # ps) =
     (k, if k \<in> names then map_option (\<lambda>p. p\<lparr>nextIndex := c + 1, matchIndex := c\<rparr>) q else q) # acked_peers c names ps"

lemma acked_peers_simps [simp]:
  "map fst (acked_peers c names ps) = map fst ps" "length (acked_peers c names ps) = length ps"
  "all_live (acked_peers c names ps) = all_live ps" "acked_peers c {} ps = ps"
  by (induction ps) (auto simp: all_live_def split: if_splits)

lemma acked_peers_map_of: "k \<notin> names \<Longrightarrow> map_of (acked_peers c names ps) k = map_of ps k"
  by (induction ps) auto

lemma acked_peers_other: "k \<notin> fst ` set ps \<Longrightarrow> acked_peers c (insert k names) ps = acked_peers c names ps"
  by (induction ps) auto

lemma acked_peers_update:
  "distinct (map fst ps) \<Longrightarrow> map_of ps k = Some (Some p) \<Longrightarrow> k \<notin> names \<Longrightarrow>
   AList.update k (Some (p\<lparr>nextIndex := c + 1, matchIndex := c\<rparr>)) (acked_peers c names ps) = acked_peers c (insert k names) ps"
  by (induction ps) (auto simp: acked_peers_other split: if_splits)

lemma replicas_acked:
  assumes "distinct (map fst ps)" "distinct names" "set names \<subseteq> fst ` set ps" "all_live ps"
    and "\<forall>k p. (k, Some p) \<in> set ps \<longrightarrow> \<not> c \<le>s matchIndex p"
  shows "replicas c (acked_peers c (set names) ps) = length names"
proof -
  have "replicas c (acked_peers c (set names) ps) = length (filter (\<lambda>k. k \<in> set names) (map fst ps))"
    using assms(4,5) by (induction ps) (auto simp: replicas_def all_live_def sle_i64)
  also have "\<dots> = card ({k. k \<in> set names} \<inter> set (map fst ps))"
    using assms(1) by (rule distinct_length_filter)
  also have "{k. k \<in> set names} \<inter> set (map fst ps) = set names" using assms(3) by auto
  finally show ?thesis using assms(2) by (simp add: distinct_card)
qed

definition commands :: "nat \<Rightarrow> log \<Rightarrow> string list" where
  "commands n es = filter (\<lambda>cmd. cmd \<noteq> []) (map le_data (drop n es))"

lemma pending_commands:
  assumes "wf_log es" "es \<noteq> []" "sint (BaseLogIndex es) = 0" "0 \<le> a"
  shows "filter (\<lambda>cmd. cmd \<noteq> []) (map (\<lambda>i. le_data (GetLogByIndex es (word_of_int i))) [a .. sint (LastLogIndex es)])
    = commands (nat a) es"
proof -
  have last: "sint (LastLogIndex es) = int (length es) - 1" using sint_LastLogIndex [OF assms(1,2)] assms(3) by simp
  have "GetLogByIndex es (word_of_int i) = es ! nat i" if "0 \<le> i" "i < int (length es)" for i
  proof -
    have "sint (word_of_int i :: i64) = i" using that wf_log_length [OF assms(1)]
      by (simp add: sint_sbintrunc' signed_take_bit_int_eq_self)
    then show ?thesis using that assms(2,3) last by (simp add: GetLogByIndex_wf [OF assms(1)])
  qed
  then have "map (\<lambda>i. le_data (GetLogByIndex es (word_of_int i))) [a .. sint (LastLogIndex es)] =
      map (\<lambda>i. le_data (es ! nat i)) [a .. sint (LastLogIndex es)]"
    using assms(4) last by simp
  also have "\<dots> = map le_data (drop (nat a) es)"
    unfolding last using assms(4) by (intro nth_equalityI [where xs = "map f xs" for f xs]) (simp_all add: nat_add_distrib)
  finally have "map (\<lambda>i. le_data (GetLogByIndex es (word_of_int i))) [a .. sint (LastLogIndex es)] = map le_data (drop (nat a) es)" .
  then show ?thesis by (simp add: commands_def)
qed


definition enough :: "SRaft \<Rightarrow> string list \<Rightarrow> bool" where
  "enough l names \<longleftrightarrow> names \<noteq> [] \<and> length (peers l) div 2 \<le> 1 + length names"

text \<open>The leader after the acknowledgements of \<open>names\<close>; \<open>l\<close> is its state right after the write.\<close>

definition after_acks :: "SRaft \<Rightarrow> string list \<Rightarrow> SRaft \<Rightarrow> bool" where
  "after_acks l names t \<longleftrightarrow> state t = LEADER \<and> currentTerm t = currentTerm l \<and> logs t = logs l \<and> calls t = calls l \<and>
     map fst (peers t) = map fst (peers l) \<and>
     (if enough l names
      then commitIndex t = LastLogIndex (logs l) \<and> lastApplied t = LastLogIndex (logs l) \<and>
        channel t = map_option (\<lambda>que. que @ commands (nat (sint (lastApplied l) + 1)) (logs l)) (channel l)
      else commitIndex t = commitIndex l \<and> lastApplied t = lastApplied l \<and> channel t = channel l \<and>
        peers t = acked_peers (LastLogIndex (logs l)) (set names) (peers l))"

definition written :: "SRaft \<Rightarrow> bool" where
  "written l \<longleftrightarrow> state l = LEADER \<and> wf_log (logs l) \<and> logs l \<noteq> [] \<and> sint (BaseLogIndex (logs l)) = 0 \<and>
     commitIndex l = lastApplied l \<and> -1 \<le> sint (lastApplied l) \<and> lastApplied l <s LastLogIndex (logs l) \<and>
     all_live (peers l) \<and> distinct (map fst (peers l)) \<and> length (peers l) < 2 ^ 63 \<and>
     (\<forall>k p. (k, Some p) \<in> set (peers l) \<longrightarrow> \<not> LastLogIndex (logs l) \<le>s matchIndex p)"

lemma after_acks_step:
  assumes w: "written l" and t: "after_acks l names t" and names: "distinct (ar_name r # names)"
      "set (ar_name r # names) \<subseteq> fst ` set (peers l)"
    and r: "ar_success r" "\<not> currentTerm l < ar_term r" "ar_last_log_index r = LastLogIndex (logs l)"
  shows "\<exists>t'. OnAppendEntriesReponse r False t = Inr t' \<and> after_acks l (ar_name r # names) t' \<and>
    (\<not> enough l names \<longrightarrow> peers t' = acked_peers (LastLogIndex (logs l)) (set (ar_name r # names)) (peers l)) \<and>
    (enough l names \<longrightarrow> t' = t)"
proof -
  let ?c = "LastLogIndex (logs l)"
  have T: "state t = LEADER" "\<not> currentTerm t < ar_term r" "map fst (peers t) = map fst (peers l)"
    using t r by (simp_all add: after_acks_def)
  show ?thesis
  proof (cases "enough l names")
    case True
    then have "enough l (ar_name r # names)" by (simp add: enough_def)
    moreover have "ar_name r \<in> fst ` set (peers t)"
      using names(2) T(3) by (metis insert_subset list.simps(15) list.set_map)
    then have "map_of (peers t) (ar_name r) \<noteq> None" by (simp add: map_of_eq_None_iff)
    then have "peers_index (ar_name r) t = t" by (simp add: peers_index_def)
    then have "OnAppendEntriesReponse r False t = Inr t"
      using t True T r by (simp add: OnAppendEntriesReponse_def after_acks_def sle_i64)
    ultimately show ?thesis using t True by (auto simp: after_acks_def)
  next
    case False
    then have F: "commitIndex t = commitIndex l" "lastApplied t = lastApplied l" "channel t = channel l"
        "peers t = acked_peers ?c (set names) (peers l)" "logs t = logs l"
      using t by (simp_all add: after_acks_def)
    have W: "all_live (peers l)" "distinct (map fst (peers l))" "length (peers l) < 2 ^ 63"
      using w by (simp_all add: written_def)
    obtain p where p: "map_of (peers l) (ar_name r) = Some (Some p)"
      using names(2) W by (fastforce simp: all_live_def)
    have known: "map_of (peers t) (ar_name r) = Some (Some p)" "all_live (peers t)"
      using p F(4) names(1) W(1) by (simp_all add: acked_peers_map_of)
    have new: "commitIndex t <s ar_last_log_index r" using w F(1) r(3) by (simp add: written_def)
    have len: "length (peers t) < 2 ^ 63" "length (peers t) = length (peers l)" using F(4) W(3) by simp_all
    have ps: "peers (acked r p t) = acked_peers ?c (set (ar_name r # names)) (peers l)"
      using acked_peers_update [OF W(2) p, of "set names" ?c] names(1) by (simp add: acked_def F(4) r(3))
    have rep: "replicas ?c (peers (acked r p t)) = length (ar_name r # names)"
      unfolding ps by (rule replicas_acked [OF W(2) names W(1)]) (use w in \<open>simp add: written_def\<close>)
    have cmds: "pending_cmds ((acked r p t)\<lparr>commitIndex := ?c\<rparr>) = commands (nat (sint (lastApplied l) + 1)) (logs l)"
      using pending_commands [of "logs l" "sint (lastApplied l) + 1"] w F
      by (simp add: pending_cmds_def written_def acked_def)
    have *: "OnAppendEntriesReponse r False t =
      Inr (if enough l (ar_name r # names)
         then (acked r p t)\<lparr>commitIndex := ?c, lastApplied := ?c,
                channel := map_option (\<lambda>que. que @ commands (nat (sint (lastApplied l) + 1)) (logs l)) (channel l)\<rparr>
         else acked r p t)"
      using commit_rule [OF T(1,2) r(1) new known len(1)] w
      by (simp add: Let_def r(3) rep cmds len(2) enough_def F written_def)
    have "map fst (peers (acked r p t)) = map fst (peers l)" unfolding ps by simp
    with ps show ?thesis unfolding * using t ps F False by (simp add: after_acks_def acked_def)
  qed
qed


definition reachable_by :: "SRaft \<Rightarrow> SRaft \<Rightarrow> bool" where
  "reachable_by l f \<longleftrightarrow> running f \<and> fs_ok f \<and> \<not> currentTerm l < currentTerm f \<and> wf_log (logs f) \<and>
     (\<exists>p now rq n junk. map_of (peers l) (addrStr f) = Some (Some p) \<and> request_to (addrStr f) (calls l) = Some rq \<and>
        append_request False p now l = Inr rq \<and> sint (nextIndex p) = int n \<and> n < length (logs l) \<and>
        logs f = take n (logs l) @ junk \<and> (n = 0 \<longrightarrow> junk = []))"

definition brought :: "SRaft \<Rightarrow> SRaft \<Rightarrow> bool" where
  "brought f f' \<longleftrightarrow> same_identity f f' \<and> currentTerm f' = currentTerm f \<and> state f' = state f"

lemma append_exchange_step:
  assumes w: "written l" and t: "after_acks l names t" and f: "reachable_by l f"
    and names: "distinct (addrStr f # names)" "set names \<subseteq> fst ` set (peers l)"
  shows "\<exists>f' t'. append_exchange f t = Inr (f', t') \<and> logs f' = logs l \<and> log_saved f' \<and> addrStr f' = addrStr f \<and> brought f f' \<and>
    after_acks l (addrStr f # names) t' \<and>
    (\<not> enough l names \<longrightarrow> peers t' = acked_peers (LastLogIndex (logs l)) (set (addrStr f # names)) (peers l)) \<and>
    (enough l names \<longrightarrow> t' = t)"
proof -
  obtain p now rq n junk where p: "map_of (peers l) (addrStr f) = Some (Some p)" "request_to (addrStr f) (calls l) = Some rq"
      "append_request False p now l = Inr rq" "sint (nextIndex p) = int n" "n < length (logs l)"
      "logs f = take n (logs l) @ junk" "n = 0 \<Longrightarrow> junk = []"
    and F: "running f" "\<not> currentTerm l < currentTerm f" "fs_ok f" "wf_log (logs f)"
    using f by (auto simp: reachable_by_def)
  obtain x response f' where rsp: "OnAppendEntriesRequest rq AppendEntriesResponse_default f = (x, response, f')"
    by (cases "OnAppendEntriesRequest rq AppendEntriesResponse_default f" rule: prod_cases3)
  have L: "wf_log (logs l)" "sint (BaseLogIndex (logs l)) = 0" using w by (simp_all add: written_def)
  note e = replication_exchange [OF L p(5,4) F(1,2,3) p(6) F(4) p(7,3) rsp]
  have "addrStr f \<in> fst ` set (peers l)" using p(1) by (force dest: map_of_SomeD)
  then obtain t' where t': "OnAppendEntriesReponse response False t = Inr t'" "after_acks l (ar_name response # names) t'"
      "\<not> enough l names \<longrightarrow> peers t' = acked_peers (LastLogIndex (logs l)) (set (ar_name response # names)) (peers l)"
      "enough l names \<longrightarrow> t' = t"
    using after_acks_step [OF w t, of response] names e F(2) by auto
  have "append_exchange f t = Inr (f', t')"
    using t' p(2) t rsp
    by (simp add: append_exchange_def after_acks_def RaftMessagesServiceImpl_AppendEntries_def AppendEntries_thread_def)
  then show ?thesis using e t'(2,3,4) by (auto simp: brought_def)
qed

lemma append_round_acks:
  assumes "written l" "after_acks l names t" "\<And>f. f \<in> set fs \<Longrightarrow> reachable_by l f"
    and "distinct (map addrStr fs @ names)" "set names \<subseteq> fst ` set (peers l)"
  shows "\<exists>fs' t'. append_round fs t = Inr (fs', t') \<and> map addrStr fs' = map addrStr fs \<and>
    (\<forall>f' \<in> set fs'. logs f' = logs l \<and> log_saved f') \<and> list_all2 brought fs fs' \<and>
    after_acks l (rev (map addrStr fs) @ names) t' \<and>
    (fs \<noteq> [] \<longrightarrow> \<not> enough l (rev (map addrStr (butlast fs)) @ names) \<longrightarrow>
       peers t' = acked_peers (LastLogIndex (logs l)) (set (map addrStr fs @ names)) (peers l))"
  using assms(2-5)
proof (induction fs arbitrary: names t)
  case Nil
  then show ?case by simp
next
  case (Cons f fs)
  obtain f' t1 where 1: "append_exchange f t = Inr (f', t1)" "logs f' = logs l" "log_saved f'" "addrStr f' = addrStr f"
      "after_acks l (addrStr f # names) t1" "brought f f'"
      "\<not> enough l names \<longrightarrow> peers t1 = acked_peers (LastLogIndex (logs l)) (set (addrStr f # names)) (peers l)"
    using append_exchange_step [OF assms(1) Cons.prems(1), of f] Cons.prems by auto
  have "reachable_by l f" using Cons.prems(2) by simp
  then have k: "addrStr f \<in> fst ` set (peers l)" by (force simp: reachable_by_def dest: map_of_SomeD)
  obtain fs' t' where 2: "append_round fs t1 = Inr (fs', t')" "map addrStr fs' = map addrStr fs"
      "\<forall>f' \<in> set fs'. logs f' = logs l \<and> log_saved f'" "after_acks l (rev (map addrStr fs) @ addrStr f # names) t'"
      "list_all2 brought fs fs'" "fs \<noteq> [] \<longrightarrow> \<not> enough l (rev (map addrStr (butlast fs)) @ addrStr f # names) \<longrightarrow>
       peers t' = acked_peers (LastLogIndex (logs l)) (set (map addrStr fs @ addrStr f # names)) (peers l)"
    using Cons.IH [OF 1(5)] Cons.prems k by auto
  have "peers t' = acked_peers (LastLogIndex (logs l)) (set (map addrStr (f # fs) @ names)) (peers l)"
    if "\<not> enough l (rev (map addrStr (butlast (f # fs))) @ names)"
  proof (cases "fs = []")
    case True
    then show ?thesis using that 1(7) 2(1) by simp
  next
    case False
    then show ?thesis using that 2(6) by simp
  qed
  then show ?case using 1 2 by simp
qed

text \<open>Neither side changes who it is.\<close>

lemma set_peer_identity: "set_peer k f s = Inr t \<Longrightarrow> same_identity s t"
  by (auto simp: set_peer_def same_identity_def split: option.splits)

lemma OnAppendEntriesReponse_identity:
  assumes "OnAppendEntriesReponse r hb s = Inr t"
  shows "same_identity s t"
proof -
  let ?s = "peers_index (ar_name r) s"
  let ?u = "if currentTerm ?s < ar_term r then Dump (?s\<lparr>state := FOLLOWER\<rparr>) else ?s"
  have p: "same_identity s ?s" "same_identity ?s ?u" by (simp_all add: peers_index_def same_identity_def)
  then have su: "same_identity s ?u" by (rule same_identity_trans)
  consider "t = ?s" | "t = ?u" | f where "set_peer (ar_name r) f ?u = Inr t"
    | f v where "set_peer (ar_name r) f ?u = Inr v" "t = v \<or> t = DoApply (v\<lparr>commitIndex := ar_last_log_index r\<rparr>)"
    using assms by (auto simp: OnAppendEntriesReponse_def Let_def rbind_Inr_iff split: if_splits)
  then show ?thesis
  proof cases
    case 1 then show ?thesis using p by simp
  next
    case 2 then show ?thesis using su by simp
  next
    case 3 then show ?thesis using same_identity_trans [OF su set_peer_identity] by blast
  next
    case (4 f v)
    then have "same_identity s v" using same_identity_trans [OF su set_peer_identity] by blast
    then show ?thesis using 4(2) by (auto simp: same_identity_def)
  qed
qed

lemma append_round_identity:
  "append_round fs l = Inr (fs', t) \<Longrightarrow> same_identity l t"
proof (induction fs arbitrary: l fs')
  case (Cons f fs)
  obtain g u gs where 1: "append_exchange f l = Inr (g, u)" "append_round fs u = Inr (gs, t)"
    using Cons.prems by (auto simp: rbind_Inr_iff)
  have "same_identity l u" using 1(1)
    by (auto simp: append_exchange_def AppendEntries_thread_def rbind_Inr_iff split: option.splits prod.splits
        dest: OnAppendEntriesReponse_identity)
  then show ?case using Cons.IH [OF 1(2)] by (rule same_identity_trans)
qed simp

lemma DoLog_identity: "DoLog cmd s = Inr (x, t) \<Longrightarrow> same_identity s t"
  by (auto simp: DoLog_def Let_def rbind_Inr_iff same_identity_def dest: DoAppendEntries_frame split: if_splits)

text \<open>After \<open>DoLog\<close> the followers in step have the request that brings them to the new log.\<close>

lemma write_start:
  assumes "leading l"
  shows "\<exists>l'. DoLog cmd l = Inr (1, l') \<and> logs l' = logs l @ [new_entry cmd l] \<and> peers l' = peers l \<and>
    commitIndex l' = commitIndex l \<and> lastApplied l' = lastApplied l \<and> channel l' = channel l \<and> state l' = LEADER \<and>
    currentTerm l' = currentTerm l \<and> written l' \<and> (\<forall>f. in_sync l f \<longrightarrow> reachable_by l' f)"
proof -
  obtain l' cs where l': "DoLog cmd l = Inr (1, l')" "logs l' = logs l @ [new_entry cmd l]" "calls l' = calls l @ cs"
      "list_all2 (call_for l') (peers l) cs" "peers l' = peers l" "state l' = LEADER" "currentTerm l' = currentTerm l"
      "commitIndex l' = commitIndex l" "lastApplied l' = lastApplied l" "channel l' = channel l"
    using DoLog_leading [OF assms] by blast
  note L = leading_new_log [OF assms, of cmd, folded l'(2)] leading_last [OF assms]
  have lead: "distinct (map fst (peers l))" "\<And>k p. (k, Some p) \<in> set (peers l) \<Longrightarrow> peerSRaftClient p = k"
    using assms by (simp_all add: leading_def)
  have "\<not> LastLogIndex (logs l') \<le>s matchIndex p" if "(k, Some p) \<in> set (peers l)" for k p
  proof -
    have "matchIndex p \<le>s LastLogIndex (logs l)" using assms that by (auto simp: leading_def)
    then show ?thesis using L by (simp add: sle_i64)
  qed
  moreover have "lastApplied l <s LastLogIndex (logs l')" using assms L by (simp add: leading_def sless_i64 sle_i64)
  ultimately have w: "written l'" using assms L l' by (auto simp: written_def leading_def)
  have r: "reachable_by l' f" if f: "in_sync l f" for f
  proof -
    obtain p n junk where p: "map_of (peers l) (addrStr f) = Some (Some p)" "sint (nextIndex p) = int n"
        "logs f = take n (logs l) @ junk" "n = 0 \<longrightarrow> junk = []"
      using f by (auto simp: in_sync_def)
    have mem: "(addrStr f, Some p) \<in> set (peers l)" using p(1) by (rule map_of_SomeD)
    then have "sint (nextIndex p) \<le> int (length (logs l))" using assms by (auto simp: leading_def)
    then have n: "n \<le> length (logs l)" using p(2) by simp
    obtain now rq where "request_to (addrStr f) cs = Some rq" "append_request False p now l' = Inr rq"
      using request_to_peer [OF l'(4) lead(1) mem lead(2)] by blast
    then show ?thesis using f p n l' by (auto simp: reachable_by_def in_sync_def request_to_append)
  qed
  show ?thesis using l' w r by (intro exI [of _ l'] conjI) simp_all
qed

lemma write_round:
  assumes "leading l" "distinct (map addrStr fs)" "\<And>f. f \<in> set fs \<Longrightarrow> in_sync l f"
  shows "\<exists>l' fs' l''. DoLog cmd l = Inr (1, l') \<and> logs l' = logs l @ [new_entry cmd l] \<and> peers l' = peers l \<and>
    commitIndex l' = commitIndex l \<and> lastApplied l' = lastApplied l \<and> channel l' = channel l \<and>
    append_round fs l' = Inr (fs', l'') \<and> map addrStr fs' = map addrStr fs \<and>
    (\<forall>f' \<in> set fs'. logs f' = logs l' \<and> log_saved f') \<and> after_acks l' (rev (map addrStr fs)) l'' \<and>
    list_all2 brought fs fs' \<and> currentTerm l' = currentTerm l \<and> state l'' = LEADER \<and>
    (fs \<noteq> [] \<longrightarrow> \<not> enough l (map addrStr (butlast fs)) \<longrightarrow>
       peers l'' = acked_peers (LastLogIndex (logs l')) (set (map addrStr fs)) (peers l))"
proof -
  obtain l' where l': "DoLog cmd l = Inr (1, l')" "logs l' = logs l @ [new_entry cmd l]" "peers l' = peers l"
      "commitIndex l' = commitIndex l" "lastApplied l' = lastApplied l" "channel l' = channel l" "state l' = LEADER"
      "currentTerm l' = currentTerm l" "written l'" and sync: "\<And>f. in_sync l f \<Longrightarrow> reachable_by l' f"
    using write_start [OF assms(1), of cmd] by blast
  have r: "reachable_by l' f" if "f \<in> set fs" for f using sync assms(3) that by blast
  have a: "after_acks l' [] l'" using l' by (simp add: after_acks_def enough_def)
  obtain fs' t' where t: "append_round fs l' = Inr (fs', t')" "map addrStr fs' = map addrStr fs"
      "\<forall>f' \<in> set fs'. logs f' = logs l' \<and> log_saved f'" "after_acks l' (rev (map addrStr fs)) t'" "list_all2 brought fs fs'"
      "fs \<noteq> [] \<longrightarrow> \<not> enough l' (rev (map addrStr (butlast fs))) \<longrightarrow>
       peers t' = acked_peers (LastLogIndex (logs l')) (set (map addrStr fs)) (peers l')"
    using append_round_acks [where fs = fs, OF l'(9) a r] assms(2) by auto
  moreover have "enough l' (rev (map addrStr (butlast fs))) \<longleftrightarrow> enough l (map addrStr (butlast fs))"
    using l'(3) by (simp add: enough_def)
  moreover have "state t' = LEADER" using t(4) by (simp add: after_acks_def)
  ultimately show ?thesis using l' by (intro exI [of _ l'] exI [of _ fs'] exI [of _ t']) simp
qed

text \<open>
  Claim C7. A replicated write. A leader of any number of peers, with a well-formed log and its peers'
  records within it, takes a command: the call succeeds, starts one request for each peer, and the
  requests it sends bring every follower that was in sync to exactly its new log, on disk, in
  whatever order any part of the followers answer. The entries not yet applied, the new one among them, are committed and
  go to the channel once, as soon as the copies counted reach \<open>peers_.size() / 2\<close>, which the leader's
  own copy is part of; answers after that change nothing. With up to five peers the first answer is enough.
\<close>
theorem replicated_write:
  assumes "leading l" "distinct (map addrStr fs)" "\<And>f. f \<in> set fs \<Longrightarrow> in_sync l f"
  shows "\<exists>l' fs' l''. DoLog cmd l = Inr (1, l') \<and> logs l' = logs l @ [new_entry cmd l] \<and>
    append_round fs l' = Inr (fs', l'') \<and> state l'' = LEADER \<and> map addrStr fs' = map addrStr fs \<and> (\<forall>f' \<in> set fs'. logs f' = logs l' \<and> log_saved f') \<and>
    (if fs \<noteq> [] \<and> length (peers l) div 2 \<le> 1 + length fs
     then commitIndex l'' = LastLogIndex (logs l') \<and>
       channel l'' = map_option (\<lambda>que. que @ commands (nat (sint (lastApplied l) + 1)) (logs l')) (channel l)
     else commitIndex l'' = commitIndex l \<and> channel l'' = channel l)"
proof -
  obtain l' fs' l'' where r: "DoLog cmd l = Inr (1, l')" "logs l' = logs l @ [new_entry cmd l]" "peers l' = peers l"
      "commitIndex l' = commitIndex l" "lastApplied l' = lastApplied l" "channel l' = channel l"
      "append_round fs l' = Inr (fs', l'')" "map addrStr fs' = map addrStr fs"
      "\<forall>f' \<in> set fs'. logs f' = logs l' \<and> log_saved f'" "after_acks l' (rev (map addrStr fs)) l''"
    using write_round [OF assms] by blast
  have "enough l' (rev (map addrStr fs)) \<longleftrightarrow> fs \<noteq> [] \<and> length (peers l) div 2 \<le> 1 + length fs"
    using r(3) by (simp add: enough_def)
  then show ?thesis using r by (intro exI [of _ l'] exI [of _ fs'] exI [of _ l'']) (simp add: after_acks_def)
qed

theorem replicated_write_witness:
  "\<exists>l' fs' l''. DoLog ''put k w'' (five_nodes_leader\<lparr>logs := []\<rparr>) = Inr (1, l') \<and>
     append_round [example_follower] l' = Inr (fs', l'') \<and> channel l'' = Some [''put k w'']"
proof -
  let ?l = "five_nodes_leader\<lparr>logs := []\<rparr>"
  have l: "leading ?l"
    by (auto simp: leading_def five_nodes_leader_def example_leader_def new_SRaft_def log_room_def all_live_def sle_i64)
  have f: "in_sync ?l f" if "f \<in> set [example_follower]" for f
    using that by (simp add: in_sync_def five_nodes_leader_def example_leader_def example_follower_def new_SRaft_def)
  have c: "channel ?l = Some []" "length (peers ?l) = 4" "lastApplied ?l = -1" "logs ?l = []"
    by (simp_all add: five_nodes_leader_def example_leader_def new_SRaft_def)
  show ?thesis using replicated_write [OF l _ f, of "[example_follower]" "''put k w''"] c
    by (auto simp: commands_def new_entry_def)
qed

text \<open>A follower recorded with next index 0 whose log is not empty refuses the request: its previous index lies before the log.\<close>

lemma unrecorded_follower_refuses:
  assumes "leading l" "map_of (peers l) (addrStr f) = Some (Some p)" "nextIndex p = 0"
    and "running f" "\<not> currentTerm l < currentTerm f" "logs f \<noteq> []" "sint (BaseLogIndex (logs f)) = 0"
  shows "\<exists>l' f' l''. DoLog cmd l = Inr (1, l') \<and> append_exchange f l' = Inr (f', l'') \<and> logs f' = logs f \<and>
    logs l'' = logs l' \<and> commitIndex l'' = commitIndex l \<and> channel l'' = channel l \<and> calls l'' = calls l'"
proof -
  obtain l' cs where l': "DoLog cmd l = Inr (1, l')" "logs l' = logs l @ [new_entry cmd l]" "calls l' = calls l @ cs"
      "list_all2 (call_for l') (peers l) cs" "peers l' = peers l" "state l' = LEADER" "currentTerm l' = currentTerm l"
      "commitIndex l' = commitIndex l" "channel l' = channel l"
    using DoLog_leading [OF assms(1)] by blast
  note L = leading_new_log [OF assms(1), of cmd, folded l'(2)]
  have "distinct (map fst (peers l))" "\<And>k p. (k, Some p) \<in> set (peers l) \<Longrightarrow> peerSRaftClient p = k"
    using assms(1) by (simp_all add: leading_def)
  from request_to_peer [OF l'(4) this(1) map_of_SomeD [OF assms(2)] this(2)]
  obtain now rq where rq: "request_to (addrStr f) cs = Some rq" "append_request False p now l' = Inr rq" by blast
  have "0 < length (logs l')" "sint (nextIndex p) = sint (BaseLogIndex (logs l')) + int 0" using L assms(3) by simp_all
  note e = append_request_entries [OF L(1) this rq(2)]
  obtain x response f' where rsp: "OnAppendEntriesRequest rq AppendEntriesResponse_default f = (x, response, f')"
    by (cases "OnAppendEntriesRequest rq AppendEntriesResponse_default f" rule: prod_cases3)
  have "aq_entries rq \<noteq> []" "\<not> BaseLogIndex (logs f) \<le>s aq_prev_log_index rq" "\<not> aq_term rq < currentTerm f"
    using e L(2) assms(3,5,7) l'(7) by (simp_all add: sle_i64)
  then have r: "logs f' = logs f" "\<not> ar_success response" "ar_name response = addrStr f" "ar_term response = currentTerm f"
    using rsp assms(4) by (auto simp: OnAppendEntriesRequest_def Let_def get_current_ms_def split: if_splits)
  have "append_exchange f l' = Inr (f', l'\<lparr>peers := AList.update (addrStr f)
      (Some (p\<lparr>nextIndex := ar_last_log_index response + 1\<rparr>)) (peers l)\<rparr>)"
    using rq(1) rsp r l' assms(2,5)
    by (simp add: append_exchange_def request_to_append RaftMessagesServiceImpl_AppendEntries_def AppendEntries_thread_def
        OnAppendEntriesReponse_def peers_index_def set_peer_def)
  then show ?thesis using l' r(1) by (intro exI [of _ l'] exI [of _ f'] exI) (rule conjI, assumption, rule conjI, assumption, simp)
qed

end
