(* ===== verification/ClientServer.thy ===== *)
theory ClientServer
  imports KvClient ReplicatedWrite
begin

text \<open>
  A client and its servers together: the puts of \<open>Skvclient\<close> handled by the servers it knows, its
  reads answered by them, and the receiving thread of the leader emptying the channel.
\<close>

text \<open>
  The calls of a client served by a table of servers: the requests that \<open>Skvclient_Put\<close> sends, one
  after the other, and the reads of \<open>Skvclient_Get\<close>.
\<close>

fun serve_puts :: "(string \<times> PutAppendRequest) list \<Rightarrow> (string \<Rightarrow> Skvserver) \<Rightarrow> (string \<Rightarrow> Skvserver) result" where
  "serve_puts [] servers = Inr servers"
| "serve_puts ((k, q) # qs) servers =
     rbind (KvserverServiceImpl_PutAppend q (servers k)) (\<lambda>(status, rsp, sv). serve_puts qs (servers(k := sv)))"

definition serve_get :: "(string \<Rightarrow> Skvserver) \<Rightarrow> get_rpc" where
  "serve_get servers n k q = Some (snd (KvserverServiceImpl_Get q (servers k)))"

lemma serve_puts_others:
  assumes "leader \<notin> set ks" "\<And>k. k \<in> set ks \<Longrightarrow> k \<noteq> leader \<Longrightarrow> state (node (servers k)) \<noteq> LEADER"
  shows "serve_puts (map (\<lambda>k. (k, q)) ks) servers = Inr servers"
  using assms
proof (induction ks)
  case (Cons k ks)
  then have "state (node (servers k)) \<noteq> LEADER" by auto
  then have "KvserverServiceImpl_PutAppend q (servers k) =
      Inr (OK, PutAppendResponse_default\<lparr>pp_Err := ''wrong leader'', pp_WrongLeader := True\<rparr>, servers k)"
    by (simp add: KvserverServiceImpl_PutAppend_def putAppend_def)
  then show ?case using Cons by simp
qed simp

lemma serve_puts_leader:
  assumes "distinct ks" "leader \<in> set ks" "\<And>k. k \<in> set ks \<Longrightarrow> k \<noteq> leader \<Longrightarrow> state (node (servers k)) \<noteq> LEADER"
    and "putAppend q PutAppendResponse_default (servers leader) = Inr (rsp, sv)"
  shows "serve_puts (map (\<lambda>k. (k, q)) ks) servers = Inr (servers(leader := sv))"
  using assms(1-3)
proof (induction ks)
  case (Cons k ks)
  show ?case
  proof (cases "k = leader")
    case True
    then have "leader \<notin> set ks" using Cons.prems(1) by simp
    then have "serve_puts (map (\<lambda>k. (k, q)) ks) (servers(leader := sv)) = Inr (servers(leader := sv))"
      by (rule serve_puts_others) (use Cons.prems(3) in auto)
    then show ?thesis using assms(4) True by (auto simp: KvserverServiceImpl_PutAppend_def fun_eq_iff)
  next
    case False
    then have "KvserverServiceImpl_PutAppend q (servers k) =
        Inr (OK, PutAppendResponse_default\<lparr>pp_Err := ''wrong leader'', pp_WrongLeader := True\<rparr>, servers k)"
      using Cons.prems(3) [of k] by (simp add: KvserverServiceImpl_PutAppend_def putAppend_def)
    moreover have "serve_puts (map (\<lambda>k. (k, q)) ks) servers = Inr (servers(leader := sv))"
      using Cons.prems False by (intro Cons.IH) auto
    ultimately show ?thesis by (simp add: fun_eq_iff)
  qed
qed simp

text \<open>The receiving thread empties the channel: two steps for a command and one to reach \<open>popData\<close>.\<close>

definition drain_steps :: "Skvserver \<Rightarrow> nat" where
  "drain_steps sv = 2 * length (queued sv) + (if recieveMsgThread sv = LoopTest then 1 else 0)"

definition receiving :: "Skvserver \<Rightarrow> bool" where
  "receiving sv \<longleftrightarrow> \<not> tobeDestroy sv \<and> recieveMsgThread sv \<noteq> Finished \<and> channel (node sv) \<noteq> None"

lemma recieve_drains:
  assumes "receiving sv" "kv_step Recieve sv = Inr sv'"
  shows "receiving sv'" "drain_steps sv' = drain_steps sv - 1"
proof -
  obtain que where q: "channel (node sv) = Some que" using assms(1) by (auto simp: receiving_def)
  have "receiving sv' \<and> drain_steps sv' = drain_steps sv - 1"
  proof (cases "recieveMsgThread sv")
    case LoopTest
    then show ?thesis using assms by (auto simp: receiving_def recieve_step_def drain_steps_def queued_def)
  next
    case InPop
    then show ?thesis using assms q
      by (cases que) (auto simp: receiving_def recieve_step_def drain_steps_def queued_def)
  next
    case Finished
    then show ?thesis using assms(1) by (simp add: receiving_def)
  qed
  then show "receiving sv'" "drain_steps sv' = drain_steps sv - 1" by simp_all
qed

lemma drain:
  "receiving sv \<Longrightarrow> run_steps kv_step (replicate n Recieve) sv = Inr sv' \<Longrightarrow> drain_steps sv \<le> n \<Longrightarrow> queued sv' = []"
proof (induction n arbitrary: sv)
  case 0
  then show ?case by (simp add: drain_steps_def split: if_splits)
next
  case (Suc n)
  obtain u where u: "kv_step Recieve sv = Inr u" "run_steps kv_step (replicate n Recieve) u = Inr sv'"
    using Suc.prems(2) by (auto simp: rbind_Inr_iff)
  show ?case
    by (rule Suc.IH [OF _ u(2)]) (use recieve_drains [OF Suc.prems(1) u(1)] Suc.prems(3) in simp_all)
qed

lemma Recieve_ok: "\<exists>u. kv_step Recieve sv = Inr u \<and> db_of u = db_of sv \<and> state (node u) = state (node sv)"
  by (cases "recieve_step sv") (auto simp: recieve_db_of, auto simp: recieve_step_def split: recieve_at.splits option.splits)

lemma drain_runs:
  "\<exists>sv'. run_steps kv_step (replicate n Recieve) sv = Inr sv' \<and> db_of sv' = db_of sv \<and> state (node sv') = state (node sv)"
proof (induction n arbitrary: sv)
  case (Suc n)
  obtain u where "kv_step Recieve sv = Inr u" "db_of u = db_of sv" "state (node u) = state (node sv)"
    using Recieve_ok by blast
  then show ?case using Suc [of u] by (simp del: kv_step.simps)
qed simp

lemma recieves_node:
  "run_steps kv_step (replicate n Recieve) sv = Inr u \<Longrightarrow> \<exists>que. node u = (node sv)\<lparr>channel := que\<rparr>"
proof (induction n arbitrary: sv)
  case 0
  then show ?case by (intro exI [of _ "channel (node sv)"]) simp
next
  case (Suc n)
  obtain w where w: "kv_step Recieve sv = Inr w" "run_steps kv_step (replicate n Recieve) w = Inr u"
    using Suc.prems by (auto simp: rbind_Inr_iff)
  have "\<exists>que. node w = (node sv)\<lparr>channel := que\<rparr>"
  proof (cases "recieve_step sv")
    case None
    then show ?thesis using w(1) by (intro exI [of _ "channel (node sv)"]) simp
  next
    case (Some x)
    moreover have "\<exists>que. node x = (node sv)\<lparr>channel := que\<rparr>"
      using Some by (auto simp: recieve_step_def split: recieve_at.splits option.splits
          intro: exI [of _ "channel (node sv)"])
    ultimately show ?thesis using w(1) by simp
  qed
  then show ?case using Suc.IH [OF w(2)] by auto
qed

lemma get_from_any_leader:
  assumes "named_servers c" "leader \<in> fst ` set (kv_servers c)"
    and others: "\<And>k. k \<in> fst ` set (kv_servers c) \<Longrightarrow> k \<noteq> leader \<Longrightarrow> state (node (servers k)) \<noteq> LEADER"
    and lead: "state (node (servers leader)) = LEADER"
  shows "Skvclient_Get (serve_get servers) key c =
     (case kvDB (servers leader) key of None \<Rightarrow> ''Error'' | Some v \<Rightarrow> v, c\<lparr>leaderName := leader\<rparr>)"
proof -
  let ?rsp = "snd (KvserverServiceImpl_Get \<lparr>gq_Key = key, gq_ClerkID = 1, gq_CmdIndex = 1\<rparr> (servers leader))"
  have "gr_Value ?rsp = (case kvDB (servers leader) key of None \<Rightarrow> ''Error'' | Some v \<Rightarrow> v)" "\<not> gr_WrongLeader ?rsp"
    using lead by (simp_all add: KvserverServiceImpl_Get_def get_def split: option.split)
  moreover have "Skvclient_Get (serve_get servers) key c = (gr_Value ?rsp, c\<lparr>leaderName := leader\<rparr>)"
  proof (rule Get_finds_leader [OF assms(1,2)])
    show "\<exists>r. serve_get servers m k q = Some r \<and> gr_WrongLeader r" if "k \<in> fst ` set (kv_servers c)" "k \<noteq> leader" for m k q
      using others [OF that] by (simp add: serve_get_def KvserverServiceImpl_Get_def get_def)
    show "serve_get servers m leader \<lparr>gq_Key = key, gq_ClerkID = 1, gq_CmdIndex = 1\<rparr> = Some ?rsp" for m
      by (simp add: serve_get_def)
  qed (fact calculation(2))
  ultimately show ?thesis by simp
qed

lemma get_from_leader:
  assumes "named_servers c" "leader \<in> fst ` set (kv_servers c)"
    and others: "\<And>k. k \<in> fst ` set (kv_servers c) \<Longrightarrow> k \<noteq> leader \<Longrightarrow> state (node (servers k)) \<noteq> LEADER"
    and sv: "state (node sv) = LEADER" "kvDB sv key = Some v"
  shows "Skvclient_Get (serve_get (servers(leader := sv))) key c = (v, c\<lparr>leaderName := leader\<rparr>)"
  using get_from_any_leader [where servers = "servers(leader := sv)" and leader = leader, OF assms(1,2)] others sv by simp

abbreviation put_request :: "string \<Rightarrow> string \<Rightarrow> PutAppendRequest" where
  "put_request key v \<equiv> \<lparr>pq_key = key, pq_value = v, pq_op = ''put'', pq_ClerkID = 1, pq_cmdIndex = 1\<rparr>"

lemma put_served:
  assumes "named_servers c" "leader \<in> fst ` set (kv_servers c)"
    and "\<And>k. k \<in> fst ` set (kv_servers c) \<Longrightarrow> k \<noteq> leader \<Longrightarrow> state (node (servers k)) \<noteq> LEADER"
    and "putAppend (put_request key v) PutAppendResponse_default (servers leader) = Inr (rsp, sv)"
  shows "serve_puts (Skvclient_Put key v c) servers = Inr (servers(leader := sv))"
proof -
  have ks: "Skvclient_Put key v c = map (\<lambda>k. (k, put_request key v)) (map fst (kv_servers c))"
    using assms(1) by (auto simp: Skvclient_Put_def named_servers_def)
  show ?thesis unfolding ks
    by (rule serve_puts_leader [where servers = servers and leader = leader, OF _ _ _ assms(4)])
       (use assms in \<open>simp_all add: named_servers_def\<close>)
qed

text \<open>A write through the leader and its followers in sync, and the read after it.\<close>

lemma write_served:
  assumes "named_servers c" "leader \<in> fst ` set (kv_servers c)"
    and others: "\<And>k. k \<in> fst ` set (kv_servers c) \<Longrightarrow> k \<noteq> leader \<Longrightarrow> state (node (servers k)) \<noteq> LEADER"
    and lead: "leading (node (servers leader))" "receiving (servers leader)"
    and fs: "distinct (map addrStr fs)" "\<And>f. f \<in> set fs \<Longrightarrow> in_sync (node (servers leader)) f"
      "fs \<noteq> []" "length (peers (node (servers leader))) div 2 \<le> 1 + length fs"
    and w: "word_string key" "word_string v"
    and n: "2 * (length (queued (servers leader)) + length (logs (node (servers leader))) + 1) + 1 \<le> n"
  shows "\<exists>served fs' l sv. serve_puts (Skvclient_Put key v c) servers = Inr served \<and>
     append_round fs (node (served leader)) = Inr (fs', l) \<and>
     (\<forall>f \<in> set fs'. le_data (last (logs f)) = ''put '' @ key @ '' '' @ v \<and> log_saved f) \<and>
     run_steps kv_step (replicate n Recieve) ((served leader)\<lparr>node := l\<rparr>) = Inr sv \<and>
     Skvclient_Get (serve_get (served(leader := sv))) key c = (v, c\<lparr>leaderName := leader\<rparr>) \<and>
     (\<forall>k. k \<noteq> leader \<longrightarrow> served k = servers k) \<and> (\<exists>que. node sv = l\<lparr>channel := que\<rparr>) \<and>
     same_identity (node (servers leader)) l \<and> currentTerm l = currentTerm (node (servers leader)) \<and>
     LastLogTerm (logs l) = currentTerm l \<and> list_all2 brought fs fs' \<and> (\<forall>f \<in> set fs'. logs f = logs l)"
proof -
  let ?q = "put_request key v"
  let ?S = "servers leader" let ?L = "node (servers leader)"
  have clean: "clean_request ?q" using w by (simp add: clean_request_def)
  have cmd: "format_cmd ?q = ''put '' @ key @ '' '' @ v" by (simp add: format_cmd_def)
  obtain l' fs' l where r: "DoLog (format_cmd ?q) ?L = Inr (1, l')" "logs l' = logs ?L @ [new_entry (format_cmd ?q) ?L]"
      "append_round fs l' = Inr (fs', l)" "\<forall>f' \<in> set fs'. logs f' = logs l' \<and> log_saved f'"
      "after_acks l' (rev (map addrStr fs)) l" "peers l' = peers ?L" "lastApplied l' = lastApplied ?L" "channel l' = channel ?L"
      "list_all2 brought fs fs'" "currentTerm l' = currentTerm ?L"
    using write_round [OF lead(1) fs(1,2), of "format_cmd ?q"] by blast
  obtain que where que: "channel ?L = Some que" using lead(2) by (auto simp: receiving_def)
  define backlog where "backlog = filter (\<lambda>cmd. cmd \<noteq> []) (map le_data (drop (nat (sint (lastApplied ?L) + 1)) (logs ?L)))"
  have st: "state ?L = LEADER" "nat (sint (lastApplied ?L) + 1) \<le> length (logs ?L)"
    using lead(1) leading_last [OF lead(1)] by (auto simp: leading_def sle_i64)
  have "commands (nat (sint (lastApplied ?L) + 1)) (logs l') = backlog @ [format_cmd ?q]"
    using st(2) cmd by (simp add: commands_def r(2) new_entry_def backlog_def)
  then have l: "state l = LEADER" "channel l = Some (que @ backlog @ [format_cmd ?q])"
    using r(5-8) fs(3,4) que by (simp_all add: after_acks_def enough_def)
  have put: "putAppend ?q PutAppendResponse_default ?S =
      Inr (PutAppendResponse_default\<lparr>pp_WrongLeader := False, pp_Err := ''none''\<rparr>, ?S\<lparr>node := l'\<rparr>)"
    using r(1) st(1) by (simp add: putAppend_def)
  have served: "serve_puts (Skvclient_Put key v c) servers = Inr (servers(leader := ?S\<lparr>node := l'\<rparr>))"
    by (rule put_served [where servers = servers and leader = leader, OF assms(1,2) others put])
  let ?u = "?S\<lparr>node := l\<rparr>"
  obtain sv where run: "run_steps kv_step (replicate n Recieve) ?u = Inr sv" "db_of sv = db_of ?u" "state (node sv) = LEADER"
    using drain_runs [of n ?u] l(1) by auto
  have "length backlog \<le> length (logs ?L)"
    unfolding backlog_def by (rule order_trans [OF length_filter_le]) simp
  moreover have "length (queued ?u) = length (queued ?S) + length backlog + 1" using l(2) que by (simp add: queued_def)
  ultimately have "drain_steps ?u \<le> n" using n by (simp add: drain_steps_def)
  moreover have "receiving ?u" using lead(2) l(2) by (simp add: receiving_def)
  ultimately have "queued sv = []" using drain [OF _ run(1)] by blast
  then have "kvDB sv = db_of ?u" using run(2) by (simp add: db_of_def)
  then have db: "kvDB sv key = Some v"
    using l(2) apply_format [OF clean] by (simp add: db_of_def queued_def spec_write_def)
  have "Skvclient_Get (serve_get (servers(leader := sv))) key c = (v, c\<lparr>leaderName := leader\<rparr>)"
    by (rule get_from_leader [where servers = servers and leader = leader, OF assms(1,2) others run(3) db])
  moreover have "\<exists>que. node sv = l\<lparr>channel := que\<rparr>" using recieves_node [OF run(1)] by simp
  moreover have "same_identity ?L l" by (rule same_identity_trans [OF DoLog_identity [OF r(1)] append_round_identity [OF r(3)]])
  moreover have "logs l = logs l'" "currentTerm l = currentTerm ?L" using r(5,10) by (simp_all add: after_acks_def)
  ultimately show ?thesis using served run(1) r(2-4,9,10) cmd
    by (intro exI [of _ "servers(leader := ?S\<lparr>node := l'\<rparr>)"] exI [of _ fs'] exI [of _ l] exI [of _ sv])
       (simp add: new_entry_def LastLogTerm_def)
qed

lemma write_is_read:
  assumes "named_servers c" "leader \<in> fst ` set (kv_servers c)"
    and others: "\<And>k. k \<in> fst ` set (kv_servers c) \<Longrightarrow> k \<noteq> leader \<Longrightarrow> state (node (servers k)) \<noteq> LEADER"
    and lead: "leading (node (servers leader))" "receiving (servers leader)"
    and fs: "distinct (map addrStr fs)" "\<And>f. f \<in> set fs \<Longrightarrow> in_sync (node (servers leader)) f"
      "fs \<noteq> []" "length (peers (node (servers leader))) div 2 \<le> 1 + length fs"
    and w: "word_string key" "word_string v"
    and n: "2 * (length (queued (servers leader)) + length (logs (node (servers leader))) + 1) + 1 \<le> n"
  shows "\<exists>served fs' l sv. serve_puts (Skvclient_Put key v c) servers = Inr served \<and>
     append_round fs (node (served leader)) = Inr (fs', l) \<and>
     (\<forall>f \<in> set fs'. le_data (last (logs f)) = ''put '' @ key @ '' '' @ v \<and> log_saved f) \<and>
     run_steps kv_step (replicate n Recieve) ((served leader)\<lparr>node := l\<rparr>) = Inr sv \<and>
     Skvclient_Get (serve_get (served(leader := sv))) key c = (v, c\<lparr>leaderName := leader\<rparr>)"
  using write_served [where servers = servers and leader = leader and fs = fs, OF assms] by blast

end
