(* ===== verification/Cluster.thy ===== *)
theory Cluster
  imports Replication
begin

text \<open>
  A cluster of nodes as \<open>utils_test.h\<close> builds it, and its elections. \<open>nodes\<close> are the members;
  \<open>asks\<close> the vote requests sent (never removed: the network may deliver one again), \<open>answers\<close> the
  RPC threads that hold a request and its response and have not yet called
  \<open>OnRequestVoteResponse\<close>. \<open>cast\<close>, \<open>counted\<close> and \<open>elected\<close> record the votes cast (term, voter,
  candidate), the votes a candidate has counted, and the elections won (term, winner); no
  operation reads them.

  Append requests and replies are arbitrary (their traffic is not tracked), so the election
  theorem holds whatever the replication does. With \<open>strict\<close> set, a granted vote only reaches a
  candidate that is still in the term it asked in; without it, a late answer may be counted in a
  later election, as the code allows.
\<close>

fun vote_calls :: "string \<Rightarrow> raft_call list \<Rightarrow> (string \<times> string \<times> RequestVoteRequest) list" where
  "vote_calls n [] = []"
| "vote_calls n (CallRequestVote addr rq # cs) = (n, addr, rq) # vote_calls n cs"
| "vote_calls n (CallAppendEntries addr rq hb # cs) = vote_calls n cs"

lemma vote_calls_append [simp]: "vote_calls n (xs @ ys) = vote_calls n xs @ vote_calls n ys"
  by (induction n xs rule: vote_calls.induct) auto

lemma send_append_vote_calls: "send_append hb p s = Inr s' \<Longrightarrow> vote_calls n (calls s') = vote_calls n (calls s)"
  by (auto simp: send_append_def get_current_ms_def SRaftClient_AppendEntries_def rbind_Inr_iff)

lemma SendHeartbeat_vote_calls:
  "SendHeartbeat s = Inr s' \<Longrightarrow> vote_calls n (calls s') = vote_calls n (calls s)"
  unfolding SendHeartbeat_def DoAppendEntries_def Let_def
  by (rule for_peers_inv [where I = "\<lambda>t. vote_calls n (calls t) = vote_calls n (calls s)"])
     (auto dest: send_append_vote_calls [of _ _ _ _ n])

lemma for_peers_vote_calls:
  "for_peers (send_vote_request now) ps s = Inr s' \<Longrightarrow> (n, v, rq) \<in> set (vote_calls n (calls s')) \<Longrightarrow>
   (n, v, rq) \<in> set (vote_calls n (calls s)) \<or>
   (vq_term rq = currentTerm s \<and> (\<exists>k p. (k, Some p) \<in> set ps \<and> v = peerSRaftClient p))"
proof (induction ps arbitrary: s)
  case Nil
  then show ?case by simp
next
  case (Cons kp ps)
  obtain k q where kp: "kp = (k, q)" by (cases kp)
  with Cons.prems obtain p where q: "q = Some p" by (cases q) auto
  define s1 where "s1 = SRaftClient_RequestVote (peerSRaftClient p) (election_request s now) s"
  have "send_vote_request now p s = Inr s1" by (simp add: send_vote_request_def s1_def)
  then have "for_peers (send_vote_request now) ps s1 = Inr s'"
    using Cons.prems(1) by (simp add: kp q)
  moreover have "currentTerm s1 = currentTerm s"
    "vote_calls n (calls s1) = vote_calls n (calls s) @ [(n, peerSRaftClient p, election_request s now)]"
    by (simp_all add: s1_def SRaftClient_RequestVote_def)
  ultimately show ?case
    using Cons.IH [of s1] Cons.prems(2) by (auto simp: kp q election_request_def)
qed

lemma DoElection_vote_calls:
  assumes "DoElection s = Inr s'" "(n, v, rq) \<in> set (vote_calls n (calls s'))" "calls s = []"
  shows "vq_term rq = currentTerm s + 1 \<and> (\<exists>k p. (k, Some p) \<in> set (peers s) \<and> v = peerSRaftClient p)"
proof -
  let ?t = "(elected s)\<lparr>ticks := Suc (ticks s)\<rparr>"
  have "for_peers (send_vote_request (clock s (ticks s))) (peers s) ?t = Inr s'"
    using assms(1) by (simp add: DoElection_eq)
  from for_peers_vote_calls [OF this assms(2)] show ?thesis
    using assms(3) by (simp add: elected_def)
qed
text \<open>
  A timer pass with the calls made explicit.
\<close>
lemma OnTimer_vote_calls:
  assumes "OnTimer s = Inr s'" "calls s = []"
  shows "(core s' = core s \<or> state s = CANDIDATE \<and> core s' = core (s\<lparr>state := FOLLOWER\<rparr>)) \<and> vote_calls n (calls s') = [] \<or>
    (\<exists>t. running s \<and> state s = FOLLOWER \<and> DoElection (s\<lparr>ticks := Suc (ticks s)\<rparr>) = Inr t \<and> calls s' = calls t \<and>
       (core s' = core t \<or> state t = CANDIDATE \<and> core s' = core (t\<lparr>state := FOLLOWER\<rparr>)))"
proof (cases "running s")
  case False
  with assms show ?thesis by (simp add: OnTimer_def)
next
  case True
  define now where "now = clock s (ticks s)"
  let ?s0 = "s\<lparr>ticks := Suc (ticks s)\<rparr>"
  obtain s1 s2 where s1: "timer_heartbeat now ?s0 = Inr s1"
    and s2: "timer_election now s1 = Inr s2" and s': "s' = timer_fail now s2"
    using assms True by (auto simp: OnTimer_def get_current_ms_def now_def rbind_Inr_iff)
  have c1: "core s1 = core s" using timer_heartbeat_core [OF s1] by (simp add: core_def)
  have v1: "vote_calls n (calls s1) = []"
    using s1 assms(2) by (auto simp: timer_heartbeat_def dest!: SendHeartbeat_vote_calls [of _ _ n] split: if_splits)
  have cs: "calls s' = calls s2" by (simp add: s' timer_fail_def get_current_ms_def get_ranged_random_def)
  show ?thesis using s2
  proof (cases rule: timer_election_cases)
    case idle
    then show ?thesis using timer_fail_core [of now s2] c1 v1 cs s' by (auto simp: core_def)
  next
    case election
    then have "s1 = ?s0" using s1 c1 by (auto simp: timer_heartbeat_def core_def split: if_splits)
    then show ?thesis using election timer_fail_core [of now s2] cs s' True by auto
  qed
qed

subsection \<open>The system\<close>

record cluster =
  nodes :: "string \<Rightarrow> SRaft"
  asks :: "(string \<times> string \<times> RequestVoteRequest) list"
  answers :: "(string \<times> string \<times> RequestVoteRequest \<times> RequestVoteResponse) list"
  cast :: "(u64 \<times> string \<times> string) list"
  counted :: "(u64 \<times> string \<times> string) list"
  elected_in :: "(u64 \<times> string) list"

text \<open>Each node gets every other address as a peer and is started (\<open>MakeNodes\<close>), with the file it finds under its name.\<close>

definition MakeNode :: "string list \<Rightarrow> (nat \<Rightarrow> u64) \<Rightarrow> (nat \<Rightarrow> u64 \<Rightarrow> u64 \<Rightarrow> u64) \<Rightarrow>
    PersistRecord option \<Rightarrow> string \<Rightarrow> SRaft" where
  "MakeNode addrs clk rnd file addr =
     Run (fold (\<lambda>a s. if a \<noteq> addr then AddPeer a s else s) addrs (new_SRaft addr None clk rnd file))"

definition MakeNodes :: "string list \<Rightarrow> (string \<Rightarrow> nat \<Rightarrow> u64) \<Rightarrow>
    (string \<Rightarrow> nat \<Rightarrow> u64 \<Rightarrow> u64 \<Rightarrow> u64) \<Rightarrow> (string \<Rightarrow> PersistRecord option) \<Rightarrow> cluster" where
  "MakeNodes addrs clk rnd files = \<lparr>nodes = (\<lambda>a. MakeNode addrs (clk a) (rnd a) (files a) a),
     asks = [], answers = [], cast = [], counted = [], elected_in = []\<rparr>"

definition set_node :: "string \<Rightarrow> SRaft \<Rightarrow> cluster \<Rightarrow> cluster" where
  "set_node n s C = C\<lparr>nodes := (nodes C)(n := s)\<rparr>"

definition win :: "SRaft \<Rightarrow> SRaft \<Rightarrow> string \<Rightarrow> (u64 \<times> string) list" where
  "win s s' n = (if state s \<noteq> LEADER \<and> state s' = LEADER then [(currentTerm s', n)] else [])"

definition do_tick :: "string \<Rightarrow> SRaft \<Rightarrow> cluster \<Rightarrow> cluster" where
  "do_tick n s' C = (set_node n s' C)
     \<lparr>asks := asks C @ vote_calls n (calls s'),
      cast := cast C @ (if currentTerm s' \<noteq> currentTerm (nodes C n) then [(currentTerm s', n, n)] else []),
      elected_in := elected_in C @ win (nodes C n) s' n\<rparr>"

definition do_ask :: "string \<Rightarrow> string \<Rightarrow> RequestVoteRequest \<Rightarrow> cluster \<Rightarrow> cluster" where
  "do_ask c v rq C =
     (let (x, rsp, s') = OnRequestVoteRequest rq RequestVoteResponse_default (nodes C v) in
      (set_node v s' C)\<lparr>answers := answers C @ [(c, v, rq, rsp)],
        cast := cast C @ (if vr_vote_granted rsp then [(vq_term rq, v, c)] else [])\<rparr>)"

definition counts :: "RequestVoteResponse \<Rightarrow> SRaft \<Rightarrow> bool" where
  "counts rsp s \<longleftrightarrow> state s = CANDIDATE \<and> \<not> currentTerm s < vr_term rsp \<and> vr_vote_granted rsp"

definition do_answer :: "string \<Rightarrow> string \<Rightarrow> RequestVoteRequest \<Rightarrow> RequestVoteResponse \<Rightarrow> cluster \<Rightarrow> cluster" where
  "do_answer c v rq rsp C =
     (let s = nodes C c; s' = OnRequestVoteResponse rsp s in
      (set_node c s' C)\<lparr>answers := remove1 (c, v, rq, rsp) (answers C),
        counted := counted C @ (if counts rsp s then [(vq_term rq, v, c)] else []),
        elected_in := elected_in C @ win s s' c\<rparr>)"

inductive cluster_step :: "string list \<Rightarrow> bool \<Rightarrow> cluster \<Rightarrow> cluster \<Rightarrow> bool"
  for M :: "string list" and strict :: bool where
  tick: "n \<in> set M \<Longrightarrow> currentTerm (nodes C n) \<noteq> -1 \<Longrightarrow>
     OnTimer ((nodes C n)\<lparr>calls := []\<rparr>) = Inr s' \<Longrightarrow> cluster_step M strict C (do_tick n s' C)"
| ask: "(c, v, rq) \<in> set (asks C) \<Longrightarrow> cluster_step M strict C (do_ask c v rq C)"
| answer: "(c, v, rq, rsp) \<in> set (answers C) \<Longrightarrow>
     (strict \<Longrightarrow> counts rsp (nodes C c) \<Longrightarrow> vq_term rq = currentTerm (nodes C c)) \<Longrightarrow>
     cluster_step M strict C (do_answer c v rq rsp C)"
| append: "n \<in> set M \<Longrightarrow> OnAppendEntriesRequest r AppendEntriesResponse_default (nodes C n) = (x, rsp, s') \<Longrightarrow>
     cluster_step M strict C (set_node n s' C)"
| append_reply: "n \<in> set M \<Longrightarrow> ar_name r \<in> insert '''' (set M) \<Longrightarrow>
     OnAppendEntriesReponse r hb (nodes C n) = Inr s' \<Longrightarrow> cluster_step M strict C (set_node n s' C)"
| client: "n \<in> set M \<Longrightarrow> DoLog cmd (nodes C n) = Inr (x, s') \<Longrightarrow>
     cluster_step M strict C (set_node n s' C)"

text \<open>A cluster starts without persisted files.\<close>

definition made_from :: "string list \<Rightarrow> cluster \<Rightarrow> bool" where
  "made_from M C \<longleftrightarrow> (\<exists>clk rnd. C = MakeNodes M clk rnd (\<lambda>_. None))"

subsection \<open>The invariant\<close>

text \<open>The peers of node \<open>n\<close>: all other members are there, possibly with the null entry of a failed RPC.\<close>

definition peers_ok :: "string list \<Rightarrow> string \<Rightarrow> (string \<times> SRaftPeer option) list \<Rightarrow> bool" where
  "peers_ok M n ps \<longleftrightarrow> distinct (map fst ps) \<and> set M - {n} \<subseteq> fst ` set ps \<and>
     fst ` set ps \<subseteq> insert '''' (set M) \<and>
     (\<forall>k p. (k, Some p) \<in> set ps \<longrightarrow> peerSRaftClient p = k \<and> k \<in> set M - {n})"

definition voters :: "(u64 \<times> string \<times> string) list \<Rightarrow> u64 \<Rightarrow> string \<Rightarrow> string set" where
  "voters h t c = {v. (t, v, c) \<in> set h}"

definition node_ok :: "string list \<Rightarrow> cluster \<Rightarrow> string \<Rightarrow> bool" where
  "node_ok M C n \<longleftrightarrow> peers_ok M n (peers (nodes C n)) \<and>
     (state (nodes C n) = CANDIDATE \<longrightarrow> (currentTerm (nodes C n), n, n) \<in> set (cast C) \<longrightarrow>
        unat (votesRecieved (nodes C n)) = 1 + card (voters (counted C) (currentTerm (nodes C n)) n))"

definition ask_ok :: "string list \<Rightarrow> cluster \<Rightarrow> string \<Rightarrow> string \<Rightarrow> RequestVoteRequest \<Rightarrow> bool" where
  "ask_ok M C c v rq \<longleftrightarrow> c \<in> set M \<and> v \<in> set M \<and> v \<noteq> c \<and> (vq_term rq, c, c) \<in> set (cast C)"

definition granted_in :: "(string \<times> string \<times> RequestVoteRequest \<times> RequestVoteResponse) list \<Rightarrow>
    (u64 \<times> string \<times> string) list" where
  "granted_in as = map (\<lambda>(c, v, rq, rsp). (vq_term rq, v, c))
     (filter (\<lambda>(c, v, rq, rsp). vr_vote_granted rsp) as)"

lemma granted_in_simps [simp]:
  "granted_in [] = []" "granted_in (xs @ ys) = granted_in xs @ granted_in ys"
  "granted_in ((c, v, rq, rsp) # ys) =
     (if vr_vote_granted rsp then (vq_term rq, v, c) # granted_in ys else granted_in ys)"
  by (simp_all add: granted_in_def)

definition granted_answers :: "cluster \<Rightarrow> (u64 \<times> string \<times> string) list" where
  "granted_answers C = granted_in (answers C)"

definition votes_ok :: "string list \<Rightarrow> cluster \<Rightarrow> bool" where
  "votes_ok M C \<longleftrightarrow>
     (\<forall>t v c. (t, v, c) \<in> set (cast C) \<longrightarrow> v \<in> set M \<and> c \<in> set M \<and> t \<le> currentTerm (nodes C v) \<and>
        (t, c, c) \<in> set (cast C) \<and> (\<forall>c'. (t, v, c') \<in> set (cast C) \<longrightarrow> c' = c)) \<and>
     distinct (granted_answers C) \<and> set (granted_answers C) \<subseteq> set (cast C) \<and>
     set (granted_answers C) \<inter> set (counted C) = {} \<and>
     set (counted C) \<subseteq> set (cast C) \<and> (\<forall>t v c. (t, v, c) \<in> set (counted C) \<longrightarrow> v \<noteq> c)"

definition cluster_inv :: "string list \<Rightarrow> cluster \<Rightarrow> bool" where
  "cluster_inv M C \<longleftrightarrow> (\<forall>n \<in> set M. node_ok M C n) \<and>
     (\<forall>c v rq. (c, v, rq) \<in> set (asks C) \<longrightarrow> ask_ok M C c v rq) \<and>
     (\<forall>c v rq rsp. (c, v, rq, rsp) \<in> set (answers C) \<longrightarrow> ask_ok M C c v rq) \<and>
     votes_ok M C \<and>
     (\<forall>t n. (t, n) \<in> set (elected_in C) \<longrightarrow> card (set M) < 2 * card (voters (cast C) t n))"

lemma finite_voters [simp]: "finite (voters h t c)"
proof -
  have "voters h t c \<subseteq> (\<lambda>(t, v, c). v) ` set h" by (force simp: voters_def)
  then show ?thesis by (rule finite_subset) simp
qed

subsection \<open>Changes that cast and count no vote\<close>

definition quiet :: "string list \<Rightarrow> string \<Rightarrow> SRaft \<Rightarrow> SRaft \<Rightarrow> bool" where
  "quiet M n s s' \<longleftrightarrow> currentTerm s \<le> currentTerm s' \<and> (peers_ok M n (peers s) \<longrightarrow> peers_ok M n (peers s')) \<and>
     (state s' = CANDIDATE \<longrightarrow> state s = CANDIDATE \<and> votesRecieved s' = votesRecieved s) \<and>
     (state s' = LEADER \<longrightarrow> state s = LEADER)"

lemma votes_ok_terms:
  assumes "votes_ok M C" "cast D = cast C" "counted D = counted C" "granted_answers D = granted_answers C"
    and "\<And>v. currentTerm (nodes C v) \<le> currentTerm (nodes D v)"
  shows "votes_ok M D"
proof -
  have "t \<le> currentTerm (nodes D v)" if "t \<le> currentTerm (nodes C v)" for t v
    using that assms(5) [of v] by (rule order_trans)
  then show ?thesis using assms(1-4) unfolding votes_ok_def by metis
qed

lemma quiet_inv:
  assumes inv: "cluster_inv M C" and q: "quiet M n (nodes C n) s'"
  shows "cluster_inv M (set_node n s' C)"
proof -
  let ?D = "set_node n s' C"
  have same: "asks ?D = asks C" "answers ?D = answers C" "cast ?D = cast C" "counted ?D = counted C"
    "elected_in ?D = elected_in C" by (simp_all add: set_node_def)
  have V: "votes_ok M C" using inv by (simp add: cluster_inv_def)
  have "node_ok M ?D m" if m: "m \<in> set M" for m
  proof (cases "m = n")
    case False
    then show ?thesis using inv m by (auto simp: cluster_inv_def node_ok_def set_node_def)
  next
    case True
    have ok: "node_ok M C n" using inv m True by (simp add: cluster_inv_def)
    have "currentTerm s' = currentTerm (nodes C n)" if "(currentTerm s', n, n) \<in> set (cast C)"
    proof -
      have "currentTerm s' \<le> currentTerm (nodes C n)" using V that by (auto simp: votes_ok_def)
      then show ?thesis using q by (auto simp: quiet_def)
    qed
    then show ?thesis using ok q True by (auto simp: node_ok_def quiet_def set_node_def)
  qed
  moreover have "votes_ok M ?D"
  proof (rule votes_ok_terms [OF V same(3,4)])
    show "granted_answers ?D = granted_answers C" by (simp add: granted_answers_def same)
    show "currentTerm (nodes C v) \<le> currentTerm (nodes ?D v)" for v
      using q by (simp add: set_node_def quiet_def)
  qed
  ultimately show ?thesis using inv same by (simp add: cluster_inv_def ask_ok_def)
qed

lemma quiet_trans: "quiet M n a b \<Longrightarrow> quiet M n b c \<Longrightarrow> quiet M n a c"
  by (auto simp: quiet_def)

lemma quietI:
  "currentTerm s \<le> currentTerm s' \<Longrightarrow> peers s' = peers s \<Longrightarrow> votesRecieved s' = votesRecieved s \<Longrightarrow>
   state s' = state s \<or> state s' = FOLLOWER \<Longrightarrow> quiet M n s s'"
  by (auto simp: quiet_def)

lemma quiet_append: "OnAppendEntriesRequest r rsp s = (x, rsp', s') \<Longrightarrow> quiet M n s s'"
  by (rule quietI) (auto simp: OnAppendEntriesRequest_def Let_def get_current_ms_def get_ranged_random_def
      not_less split: if_splits)

lemma quiet_client: "DoLog cmd s = Inr (x, s') \<Longrightarrow> quiet M n s s'"
  by (rule quietI) (auto simp: DoLog_def Let_def rbind_Inr_iff DoAppendEntries_frame split: if_splits)

lemma quiet_vote_request: "OnRequestVoteRequest r rsp s = (x, rsp', s') \<Longrightarrow> quiet M n s s'"
  by (erule OnRequestVoteRequest_cases; rule quietI) (auto simp: grants_def)

lemma quiet_peers_index: "name \<in> insert '''' (set M) \<Longrightarrow> quiet M n s (peers_index name s)"
  by (auto simp: quiet_def peers_index_def peers_ok_def map_of_eq_None_iff)

lemma quiet_set_peer:
  assumes "set_peer name f s = Inr s'" "\<And>p. peerSRaftClient (f p) = peerSRaftClient p"
  shows "quiet M n s s'"
proof -
  obtain p where p: "map_of (peers s) name = Some (Some p)"
    and s': "s' = s\<lparr>peers := AList.update name (Some (f p)) (peers s)\<rparr>"
    using assms(1) by (auto simp: set_peer_def split: option.splits)
  have "peers_ok M n (peers s')" if ok: "peers_ok M n (peers s)"
  proof -
    have d: "distinct (map fst (peers s'))" using ok by (simp add: s' peers_ok_def distinct_update)
    have dom: "fst ` set (peers s') = fst ` set (peers s)"
      using p by (auto simp: s' dom_update image_iff dest: map_of_SomeD) (metis fst_conv map_of_SomeD)
    have "peerSRaftClient q = k \<and> k \<in> set M - {n}" if "(k, Some q) \<in> set (peers s')" for k q
    proof -
      have m: "map_of (peers s') k = Some (Some q)" using that d by simp
      show ?thesis
      proof (cases "k = name")
        case True
        then have "q = f p" using m by (simp add: s' update_conv')
        then show ?thesis using ok map_of_SomeD [OF p] True assms(2) by (auto simp: peers_ok_def)
      next
        case False
        then have "map_of (peers s) k = Some (Some q)" using m by (simp add: s' update_conv')
        then show ?thesis using ok map_of_SomeD [of "peers s" k "Some q"] by (auto simp: peers_ok_def)
      qed
    qed
    then show ?thesis using ok d dom by (auto simp: peers_ok_def)
  qed
  then show ?thesis by (simp add: quiet_def s')
qed

lemma quiet_append_reply:
  assumes "OnAppendEntriesReponse r hb s = Inr s'" "ar_name r \<in> insert '''' (set M)"
  shows "quiet M n s s'"
proof -
  define t where "t = peers_index (ar_name r) s"
  define u where "u = (if currentTerm t < ar_term r then Dump (t\<lparr>state := FOLLOWER\<rparr>) else t)"
  have t: "quiet M n s t" using quiet_peers_index [OF assms(2)] by (simp add: t_def)
  have "quiet M n t u" by (rule quietI) (auto simp: u_def)
  with t have u: "quiet M n s u" by (rule quiet_trans)
  have step: "quiet M n s v" if "set_peer (ar_name r) f u = Inr v" "\<And>p. peerSRaftClient (f p) = peerSRaftClient p" for f v
    using quiet_trans [OF u quiet_set_peer [OF that]] .
  have app: "quiet M n s (DoApply (v\<lparr>commitIndex := c\<rparr>))" if "quiet M n s v" for v c
    by (rule quiet_trans [OF that]) (rule quietI; simp)
  show ?thesis using assms(1) t u
    by (auto simp: OnAppendEntriesReponse_def Let_def t_def [symmetric] u_def [symmetric] rbind_Inr_iff
        intro: app dest!: step split: if_splits)
qed

lemma quiet_answer:
  assumes "\<not> counts rsp s"
  shows "quiet M n s (OnRequestVoteResponse rsp s)"
  using assms by (intro quietI) (auto simp: counts_def OnRequestVoteResponse_def Let_def)

subsection \<open>Votes and elections\<close>

lemma node_ok_cong:
  "node_ok M C n \<Longrightarrow> nodes D n = nodes C n \<Longrightarrow> counted D = counted C \<Longrightarrow>
   ((currentTerm (nodes C n), n, n) \<in> set (cast D) \<Longrightarrow> (currentTerm (nodes C n), n, n) \<in> set (cast C)) \<Longrightarrow>
   node_ok M D n"
  by (auto simp: node_ok_def)

lemma voters_mono: "set h \<subseteq> set h' \<Longrightarrow> voters h t c \<subseteq> voters h' t c"
  by (auto simp: voters_def)

lemma ask_inv:
  assumes inv: "cluster_inv M C" and a: "(c, v, rq) \<in> set (asks C)"
  shows "cluster_inv M (do_ask c v rq C)"
proof -
  obtain x rsp s' where o: "OnRequestVoteRequest rq RequestVoteResponse_default (nodes C v) = (x, rsp, s')"
    by (cases "OnRequestVoteRequest rq RequestVoteResponse_default (nodes C v)" rule: prod_cases3)
  define E where "E = set_node v s' C"
  have E: "cluster_inv M E" unfolding E_def by (rule quiet_inv [OF inv quiet_vote_request [OF o]])
  have ok: "ask_ok M C c v rq" using inv a by (auto simp: cluster_inv_def)
  let ?D = "do_ask c v rq C"
  have D: "?D = E\<lparr>answers := answers C @ [(c, v, rq, rsp)],
     cast := cast C @ (if vr_vote_granted rsp then [(vq_term rq, v, c)] else [])\<rparr>"
    by (simp add: do_ask_def o E_def)
  have sE: "asks E = asks C" "answers E = answers C" "cast E = cast C" "counted E = counted C"
    "elected_in E = elected_in C" by (simp_all add: E_def set_node_def)
  show ?thesis
  proof (cases "vr_vote_granted rsp")
    case False
    have "granted_answers ?D = granted_answers E" using False by (simp add: D granted_answers_def sE)
    then have "votes_ok M ?D" using E False by (simp add: votes_ok_def cluster_inv_def D sE)
    moreover have "node_ok M ?D n" if "n \<in> set M" for n
      using E that False by (auto simp: cluster_inv_def node_ok_def D sE)
    ultimately show ?thesis using E ok False by (auto simp: cluster_inv_def D sE ask_ok_def)
  next
    case True
    let ?t = "vq_term rq"
    have lt: "currentTerm (nodes C v) < ?t" and cur: "currentTerm (nodes E v) = ?t"
      using o True by (auto elim!: OnRequestVoteRequest_cases simp: grants_def E_def set_node_def RequestVoteResponse_default_def)
    have new: "(?t, v, c') \<notin> set (cast C)" for c'
      using inv lt by (fastforce simp: cluster_inv_def votes_ok_def)
    have V: "votes_ok M E" using E by (simp add: cluster_inv_def)
    have g: "granted_answers ?D = granted_answers E @ [(?t, v, c)]"
      using True by (simp add: D granted_answers_def sE)
    have "votes_ok M ?D"
      unfolding votes_ok_def g
      using V new ok cur True by (auto simp: votes_ok_def ask_ok_def D sE)
    moreover have "node_ok M ?D n" if "n \<in> set M" for n
      using E that ok by (auto simp: cluster_inv_def node_ok_def D sE ask_ok_def)
    moreover have "card (set M) < 2 * card (voters (cast ?D) t n)" if "(t, n) \<in> set (elected_in ?D)" for t n
    proof -
      have "card (set M) < 2 * card (voters (cast C) t n)" using inv that by (auto simp: cluster_inv_def D sE)
      moreover have "card (voters (cast C) t n) \<le> card (voters (cast ?D) t n)"
        by (rule card_mono) (auto simp: D intro!: voters_mono)
      ultimately show ?thesis by simp
    qed
    ultimately show ?thesis using E ok by (auto simp: cluster_inv_def D sE ask_ok_def)
  qed
qed

lemma cluster_invI:
  "(\<And>n. n \<in> set M \<Longrightarrow> node_ok M C n) \<Longrightarrow>
   (\<And>c v rq. (c, v, rq) \<in> set (asks C) \<Longrightarrow> ask_ok M C c v rq) \<Longrightarrow>
   (\<And>c v rq rsp. (c, v, rq, rsp) \<in> set (answers C) \<Longrightarrow> ask_ok M C c v rq) \<Longrightarrow> votes_ok M C \<Longrightarrow>
   (\<And>t n. (t, n) \<in> set (elected_in C) \<Longrightarrow> card (set M) < 2 * card (voters (cast C) t n)) \<Longrightarrow>
   cluster_inv M C"
  unfolding cluster_inv_def by blast

lemma cluster_invD:
  assumes "cluster_inv M C"
  shows "n \<in> set M \<Longrightarrow> node_ok M C n" "(c, v, rq) \<in> set (asks C) \<Longrightarrow> ask_ok M C c v rq"
    "(c, v, rq, rsp) \<in> set (answers C) \<Longrightarrow> ask_ok M C c v rq" "votes_ok M C"
    "(t, n) \<in> set (elected_in C) \<Longrightarrow> card (set M) < 2 * card (voters (cast C) t n)"
  using assms unfolding cluster_inv_def by blast+

lemma granted_answers_remove:
  assumes "a = (c, v, rq, rsp)" "a \<in> set (answers C)" "answers D = remove1 a (answers C)"
    "distinct (granted_answers C)"
  shows "distinct (granted_answers D)" "set (granted_answers D) \<subseteq> set (granted_answers C)"
    "vr_vote_granted rsp \<Longrightarrow> (vq_term rq, v, c) \<in> set (granted_answers C) \<and>
       (vq_term rq, v, c) \<notin> set (granted_answers D)"
proof -
  obtain xs ys where s: "answers C = xs @ a # ys" "a \<notin> set xs"
    using assms(2) by (meson split_list_first)
  then have "answers D = xs @ ys" using assms(3) by (simp add: remove1_append)
  then show "distinct (granted_answers D)" "set (granted_answers D) \<subseteq> set (granted_answers C)"
    "vr_vote_granted rsp \<Longrightarrow> (vq_term rq, v, c) \<in> set (granted_answers C) \<and>
       (vq_term rq, v, c) \<notin> set (granted_answers D)"
    using assms(4) s by (auto simp: granted_answers_def assms(1) split: if_splits)
qed

lemma peers_ok_length:
  assumes "peers_ok M n ps" shows "card (set M) \<le> length ps + 1" "length ps \<le> card (set M) + 1"
proof -
  have l: "length ps = card (fst ` set ps)"
    using assms by (metis peers_ok_def distinct_card length_map set_map)
  have "card (set M - {n}) \<le> card (fst ` set ps)"
    using assms by (intro card_mono) (auto simp: peers_ok_def)
  moreover have "card (set M) \<le> card (set M - {n}) + 1"
    by (cases "n \<in> set M") (simp_all add: card_Diff_singleton_if)
  ultimately show "card (set M) \<le> length ps + 1" using l by simp
  have "card (fst ` set ps) \<le> card (insert '''' (set M))"
    using assms by (intro card_mono) (auto simp: peers_ok_def)
  also have "\<dots> \<le> card (set M) + 1" by (simp add: card_insert_if)
  finally show "length ps \<le> card (set M) + 1" using l by simp
qed

lemma voters_bound:
  assumes "votes_ok M C" shows "card (voters (counted C) t c) \<le> card (set M)"
proof (rule card_mono)
  show "voters (counted C) t c \<subseteq> set M" using assms by (auto simp: votes_ok_def voters_def)
qed simp

lemma do_answer_fields:
  "nodes (do_answer c v rq rsp C) = (nodes C)(c := OnRequestVoteResponse rsp (nodes C c))"
  "asks (do_answer c v rq rsp C) = asks C" "cast (do_answer c v rq rsp C) = cast C"
  "answers (do_answer c v rq rsp C) = remove1 (c, v, rq, rsp) (answers C)"
  "counted (do_answer c v rq rsp C) = counted C @ (if counts rsp (nodes C c) then [(vq_term rq, v, c)] else [])"
  "elected_in (do_answer c v rq rsp C) = elected_in C @ win (nodes C c) (OnRequestVoteResponse rsp (nodes C c)) c"
  by (simp_all add: do_answer_def set_node_def Let_def)

lemma do_answer_asks:
  assumes "cluster_inv M C"
  shows "(c', v', rq') \<in> set (asks (do_answer c v rq rsp C)) \<Longrightarrow> ask_ok M (do_answer c v rq rsp C) c' v' rq'"
    "(c', v', rq', rsp') \<in> set (answers (do_answer c v rq rsp C)) \<Longrightarrow> ask_ok M (do_answer c v rq rsp C) c' v' rq'"
proof -
  have same: "ask_ok M (do_answer c v rq rsp C) = ask_ok M C" by (intro ext) (simp add: ask_ok_def do_answer_fields)
  show "(c', v', rq') \<in> set (asks (do_answer c v rq rsp C)) \<Longrightarrow> ask_ok M (do_answer c v rq rsp C) c' v' rq'"
    unfolding same do_answer_fields by (rule cluster_invD(2) [OF assms])
  show "(c', v', rq', rsp') \<in> set (answers (do_answer c v rq rsp C)) \<Longrightarrow> ask_ok M (do_answer c v rq rsp C) c' v' rq'"
    unfolding same do_answer_fields by (rule cluster_invD(3) [OF assms, of _ _ _ rsp']) (rule set_remove1_subset [THEN subsetD])
qed

lemma dropped_answer_inv:
  assumes inv: "cluster_inv M C" and a: "(c, v, rq, rsp) \<in> set (answers C)" and d: "\<not> counts rsp (nodes C c)"
  shows "cluster_inv M (do_answer c v rq rsp C)"
proof (rule cluster_invI)
  let ?D = "do_answer c v rq rsp C" and ?E = "set_node c (OnRequestVoteResponse rsp (nodes C c)) C"
  have q: "quiet M c (nodes C c) (OnRequestVoteResponse rsp (nodes C c))" by (rule quiet_answer [OF d])
  have E: "cluster_inv M ?E" by (rule quiet_inv [OF inv q])
  have same: "nodes ?E = nodes ?D" "cast ?E = cast ?D" "counted ?E = counted ?D" "granted_answers ?E = granted_answers C"
    using d by (simp_all add: do_answer_fields set_node_def granted_answers_def)
  have V: "votes_ok M ?E" by (rule cluster_invD(4) [OF E])
  then have "distinct (granted_answers C)" by (simp add: votes_ok_def same)
  from granted_answers_remove(1,2) [OF refl a do_answer_fields(4) this] show "votes_ok M ?D"
    using V unfolding votes_ok_def same by auto
  show "node_ok M ?D n" if "n \<in> set M" for n
    using cluster_invD(1) [OF E that] by (simp add: node_ok_def same)
  have "win (nodes C c) (OnRequestVoteResponse rsp (nodes C c)) c = []" using q by (auto simp: win_def quiet_def)
  then show "card (set M) < 2 * card (voters (cast ?D) t n)" if "(t, n) \<in> set (elected_in ?D)" for t n
    using cluster_invD(5) [OF inv] that by (simp add: do_answer_fields)
qed (rule do_answer_asks [OF inv], assumption)+

text \<open>A counted vote: it was cast and not counted before, and the counter of the candidate is exact.\<close>

lemma counted_answer_votes:
  assumes inv: "cluster_inv M C" and a: "(c, v, rq, rsp) \<in> set (answers C)" and cn: "counts rsp (nodes C c)"
    and t: "vq_term rq = currentTerm (nodes C c)" and small: "card (set M) < 2 ^ 63"
  shows "votes_ok M (do_answer c v rq rsp C)"
    "unat (votesRecieved (nodes C c) + 1) = 1 + card (voters (counted (do_answer c v rq rsp C)) (vq_term rq) c)"
proof -
  let ?t = "vq_term rq" and ?D = "do_answer c v rq rsp C"
  have ok: "ask_ok M C c v rq" by (rule cluster_invD(3) [OF inv a])
  have V: "votes_ok M C" by (rule cluster_invD(4) [OF inv])
  then have "distinct (granted_answers C)" by (simp add: votes_ok_def)
  note ga = granted_answers_remove [OF refl a do_answer_fields(4) this]
  have g: "vr_vote_granted rsp" "state (nodes C c) = CANDIDATE" "\<not> currentTerm (nodes C c) < vr_term rsp"
    using cn by (auto simp: counts_def)
  have M: "c \<in> set M" "v \<noteq> c" "(?t, c, c) \<in> set (cast C)" using ok by (auto simp: ask_ok_def)
  have new: "(?t, v, c) \<in> set (cast C)" "(?t, v, c) \<notin> set (counted C)" using ga(3) [OF g(1)] V by (auto simp: votes_ok_def)
  have "currentTerm (OnRequestVoteResponse rsp (nodes C c)) = currentTerm (nodes C c)"
    using g(3) by (simp add: OnRequestVoteResponse_frame max_def)
  then show "votes_ok M ?D"
    using V ga(1,2) ga(3) [OF g(1)] new M(2) cn unfolding votes_ok_def by (auto simp: do_answer_fields)
  have "voters (counted ?D) ?t c = insert v (voters (counted C) ?t c)" using cn by (auto simp: do_answer_fields voters_def)
  moreover have "v \<notin> voters (counted C) ?t c" using new(2) by (simp add: voters_def)
  ultimately have "card (voters (counted ?D) ?t c) = Suc (card (voters (counted C) ?t c))" by simp
  moreover have "unat (votesRecieved (nodes C c)) = 1 + card (voters (counted C) ?t c)"
    using cluster_invD(1) [OF inv M(1)] M(3) g(2) by (simp add: node_ok_def t)
  ultimately show "unat (votesRecieved (nodes C c) + 1) = 1 + card (voters (counted ?D) ?t c)"
    using voters_bound [OF V, of ?t c] small by (simp add: unat_word_ariths)
qed

text \<open>The threshold of the code is a majority when the cluster is odd.\<close>

lemma majority_of_votes:
  assumes V: "votes_ok M D" and self: "(t, c, c) \<in> set (cast D)" and ps: "peers_ok M c ps"
    and n: "unat (n :: u64) = 1 + card (voters (counted D) t c)" and won: "of_nat (length ps) div 2 < n"
    and odd: "odd (card (set M))" and small: "card (set M) < 2 ^ 63"
  shows "card (set M) < 2 * card (voters (cast D) t c)"
proof -
  note len = peers_ok_length [OF ps]
  have "unat (of_nat (length ps) div 2 :: u64) = length ps div 2"
    using len(2) small by (simp add: unat_div unat_of_nat_u64)
  then have half: "length ps div 2 < 1 + card (voters (counted D) t c)" using won n by (simp add: word_less_nat_alt)
  have "insert c (voters (counted D) t c) \<subseteq> voters (cast D) t c" using V self by (auto simp: votes_ok_def voters_def)
  then have "card (insert c (voters (counted D) t c)) \<le> card (voters (cast D) t c)"
    by (rule card_mono [rotated]) simp
  moreover have "c \<notin> voters (counted D) t c" using V unfolding votes_ok_def voters_def by blast
  ultimately have "1 + card (voters (counted D) t c) \<le> card (voters (cast D) t c)" by simp
  then show ?thesis using half len(1) odd by presburger
qed

lemma counted_answer_inv:
  assumes inv: "cluster_inv M C" and a: "(c, v, rq, rsp) \<in> set (answers C)" and cn: "counts rsp (nodes C c)"
    and t: "vq_term rq = currentTerm (nodes C c)"
    and odd: "odd (card (set M))" and small: "card (set M) < 2 ^ 63"
  shows "cluster_inv M (do_answer c v rq rsp C)"
proof (rule cluster_invI)
  let ?D = "do_answer c v rq rsp C" and ?s = "nodes C c" and ?s' = "OnRequestVoteResponse rsp (nodes C c)"
  note V = counted_answer_votes [OF inv a cn t small]
  have s': "votesRecieved ?s' = votesRecieved ?s + 1" "currentTerm ?s' = currentTerm ?s" "peers ?s' = peers ?s"
    "state ?s' = (if of_nat (length (peers ?s)) div 2 < votesRecieved ?s + 1 then LEADER else CANDIDATE)"
    using cn by (auto simp: counts_def OnRequestVoteResponse_def Let_def)
  have cM: "c \<in> set M" and self: "(vq_term rq, c, c) \<in> set (cast ?D)"
    using cluster_invD(3) [OF inv a] by (auto simp: ask_ok_def do_answer_fields)
  show "node_ok M ?D n" if n: "n \<in> set M" for n
  proof (cases "n = c")
    case True
    then show ?thesis using cluster_invD(1) [OF inv n] V(2) s' t by (simp add: node_ok_def do_answer_fields(1))
  next
    case False
    then have "voters (counted ?D) t' n = voters (counted C) t' n" for t' by (auto simp: do_answer_fields voters_def)
    then show ?thesis using False cluster_invD(1) [OF inv n] by (simp add: node_ok_def do_answer_fields(1,3))
  qed
  show "votes_ok M ?D" by (rule V(1))
  have "card (set M) < 2 * card (voters (cast ?D) (vq_term rq) c)" if "state ?s' = LEADER"
    using majority_of_votes [OF V(1) self _ V(2) _ odd small] cluster_invD(1) [OF inv cM] that s'(4)
    by (simp add: node_ok_def split: if_splits)
  then show "card (set M) < 2 * card (voters (cast ?D) t' n)" if "(t', n) \<in> set (elected_in ?D)" for t' n
    using cluster_invD(5) [OF inv] that t s'(2) by (auto simp: do_answer_fields(3,6) win_def split: if_splits)
qed (rule do_answer_asks [OF inv], assumption)+

lemma answer_inv:
  assumes inv: "cluster_inv M C" and a: "(c, v, rq, rsp) \<in> set (answers C)"
    and strict: "counts rsp (nodes C c) \<Longrightarrow> vq_term rq = currentTerm (nodes C c)"
    and odd: "odd (card (set M))" and small: "card (set M) < 2 ^ 63"
  shows "cluster_inv M (do_answer c v rq rsp C)"
  using dropped_answer_inv [OF inv a] counted_answer_inv [OF inv a _ strict odd small] by blast

lemma do_tick_quiet:
  assumes "core s' = core (nodes C n) \<or>
      state (nodes C n) = CANDIDATE \<and> core s' = core ((nodes C n)\<lparr>state := FOLLOWER\<rparr>)"
    "vote_calls n (calls s') = []"
  shows "do_tick n s' C = set_node n s' C \<and> quiet M n (nodes C n) s'"
proof -
  have "currentTerm s' = currentTerm (nodes C n)" "win (nodes C n) s' n = []" "quiet M n (nodes C n) s'"
    using assms(1) by (auto simp: core_def win_def intro!: quietI)
  then show ?thesis using assms(2) by (simp add: do_tick_def set_node_def)
qed

text \<open>A tick that starts an election: the candidate's own vote is the first of its term.\<close>

lemma do_tick_fields:
  assumes "currentTerm s' \<noteq> currentTerm (nodes C n)"
  shows "nodes (do_tick n s' C) = (nodes C)(n := s')" "asks (do_tick n s' C) = asks C @ vote_calls n (calls s')"
    "answers (do_tick n s' C) = answers C" "cast (do_tick n s' C) = cast C @ [(currentTerm s', n, n)]"
    "counted (do_tick n s' C) = counted C" "elected_in (do_tick n s' C) = elected_in C @ win (nodes C n) s' n"
  using assms by (simp_all add: do_tick_def set_node_def)

lemma fresh_term:
  assumes V: "votes_ok M C" and up: "currentTerm (nodes C n) < t"
  shows "(t, n, c) \<notin> set (cast C)" "voters (counted C) t n = {}"
proof -
  have new: "(t, n, c) \<notin> set (cast C)" for c using V up unfolding votes_ok_def by (meson not_le)
  then show "(t, n, c) \<notin> set (cast C)" .
  show "voters (counted C) t n = {}"
    using V new unfolding votes_ok_def voters_def by (metis (mono_tags, lifting) Collect_empty_eq subsetD)
qed

lemma election_votes_ok:
  assumes V: "votes_ok M C" and n: "n \<in> set M" and up: "currentTerm (nodes C n) < currentTerm s'"
  shows "votes_ok M (do_tick n s' C)"
proof -
  have "currentTerm s' \<noteq> currentTerm (nodes C n)" using up by simp
  note f = do_tick_fields [OF this]
  have "t \<le> currentTerm (nodes (do_tick n s' C) v)" if "t \<le> currentTerm (nodes C v)" for t v
    using that up by (auto simp: f(1))
  moreover have "granted_answers (do_tick n s' C) = granted_answers C" by (simp add: granted_answers_def f(3))
  ultimately show ?thesis using V fresh_term(1) [OF V up] n unfolding votes_ok_def f(4,5) by (auto simp: f(1))
qed

lemma election_node_ok:
  assumes inv: "cluster_inv M C" and m: "m \<in> set M" and up: "currentTerm (nodes C n) < currentTerm s'"
    and peers': "peers s' = peers (nodes C n)" and votes: "state s' = CANDIDATE \<Longrightarrow> votesRecieved s' = 1"
  shows "node_ok M (do_tick n s' C) m"
proof (cases "m = n")
  case True
  have "currentTerm s' \<noteq> currentTerm (nodes C n)" using up by simp
  note f = do_tick_fields [OF this]
  show ?thesis using True fresh_term(2) [OF cluster_invD(4) [OF inv] up] cluster_invD(1) [OF inv m] votes
    by (simp add: node_ok_def f(1,5) peers')
next
  case False
  then show ?thesis using up by (intro node_ok_cong [OF cluster_invD(1) [OF inv m]]) (auto simp: do_tick_fields)
qed

lemma solo_majority:
  assumes "peers_ok M n []" "n \<in> voters h t n"
  shows "card (set M) < 2 * card (voters h t n)"
proof -
  have "set M \<subseteq> {n}" using assms(1) by (auto simp: peers_ok_def)
  then have "card (set M) \<le> 1" using card_mono [of "{n}" "set M"] by simp
  moreover have "0 < card (voters h t n)" using assms(2) by (auto simp: card_gt_0_iff)
  ultimately show ?thesis by simp
qed

lemma tick_election_inv:
  assumes inv: "cluster_inv M C" and n: "n \<in> set M" and room: "currentTerm (nodes C n) \<noteq> -1"
    and term': "currentTerm s' = currentTerm (nodes C n) + 1" and peers': "peers s' = peers (nodes C n)"
    and votes: "state s' = CANDIDATE \<Longrightarrow> votesRecieved s' = 1"
    and leader: "state s' = LEADER \<Longrightarrow> peers (nodes C n) = []"
    and asks: "\<And>v rq. (n, v, rq) \<in> set (vote_calls n (calls s')) \<Longrightarrow>
      vq_term rq = currentTerm s' \<and> (\<exists>k p. (k, Some p) \<in> set (peers (nodes C n)) \<and> v = peerSRaftClient p)"
    and own: "\<And>c v rq. (c, v, rq) \<in> set (vote_calls n (calls s')) \<Longrightarrow> c = n"
  shows "cluster_inv M (do_tick n s' C)"
proof -
  let ?D = "do_tick n s' C"
  have up: "currentTerm (nodes C n) < currentTerm s'" using u64_less_inc [OF room] by (simp add: term')
  then have "currentTerm s' \<noteq> currentTerm (nodes C n)" by simp
  note f = do_tick_fields [OF this]
  have po: "peers_ok M n (peers (nodes C n))" using cluster_invD(1) [OF inv n] by (simp add: node_ok_def)
  have ask: "ask_ok M C c v rq \<Longrightarrow> ask_ok M ?D c v rq" for c v rq by (simp add: ask_ok_def f(4))
  show ?thesis
  proof (rule cluster_invI)
    show "ask_ok M ?D c v rq" if "(c, v, rq) \<in> set (asks ?D)" for c v rq
    proof (cases "(c, v, rq) \<in> set (asks C)")
      case True
      then show ?thesis by (rule ask [OF cluster_invD(2) [OF inv]])
    next
      case False
      then have new: "(c, v, rq) \<in> set (vote_calls n (calls s'))" using that by (simp add: f(2))
      then have "c = n" by (rule own)
      with new asks [of v rq] po n show ?thesis by (auto simp: ask_ok_def f(4) peers_ok_def)
    qed
    show "ask_ok M ?D c v rq" if "(c, v, rq, rsp) \<in> set (answers ?D)" for c v rq rsp
      using that by (intro ask cluster_invD(3) [OF inv]) (simp add: f(3))
    fix t c assume e: "(t, c) \<in> set (elected_in ?D)"
    have "card (voters (cast C) t c) \<le> card (voters (cast ?D) t c)"
      by (rule card_mono) (auto simp: f(4) intro!: voters_mono)
    moreover have "card (set M) < 2 * card (voters (cast ?D) t c)" if "(t, c) \<notin> set (elected_in C)"
      using e that po leader solo_majority [of M n "cast ?D" t]
      by (auto simp: f(4,6) win_def voters_def split: if_splits)
    ultimately show "card (set M) < 2 * card (voters (cast ?D) t c)" using cluster_invD(5) [OF inv] by fastforce
  qed (use election_node_ok [OF inv _ up peers' votes] election_votes_ok [OF cluster_invD(4) [OF inv] n up] in simp_all)
qed

lemma vote_calls_own: "(c, v, rq) \<in> set (vote_calls n cs) \<Longrightarrow> c = n"
  by (induction n cs rule: vote_calls.induct) auto

lemma tick_inv:
  assumes inv: "cluster_inv M C" and n: "n \<in> set M" and room: "currentTerm (nodes C n) \<noteq> -1"
    and on: "OnTimer ((nodes C n)\<lparr>calls := []\<rparr>) = Inr s'"
  shows "cluster_inv M (do_tick n s' C)"
proof -
  let ?s = "(nodes C n)\<lparr>calls := []\<rparr>"
  have c: "core ?s = core (nodes C n)" "core (?s\<lparr>state := FOLLOWER\<rparr>) = core ((nodes C n)\<lparr>state := FOLLOWER\<rparr>)"
    "state ?s = state (nodes C n)" by (simp_all add: core_def)
  have "calls ?s = []" by simp
  from OnTimer_vote_calls [OF on this, of n] show ?thesis
  proof (elim disjE exE conjE)
    assume "core s' = core ?s" "vote_calls n (calls s') = []"
    then show ?thesis using do_tick_quiet [of s' C n M] quiet_inv [OF inv] c by metis
  next
    assume "state ?s = CANDIDATE" "core s' = core (?s\<lparr>state := FOLLOWER\<rparr>)" "vote_calls n (calls s') = []"
    then show ?thesis using do_tick_quiet [of s' C n M] quiet_inv [OF inv] c by metis
  next
    fix t assume e: "DoElection (?s\<lparr>ticks := Suc (ticks ?s)\<rparr>) = Inr t" "calls s' = calls t" and k: "core s' = core t"
    from k DoElection_effect [OF e(1)] have "currentTerm s' = currentTerm (nodes C n) + 1"
      "peers s' = peers (nodes C n)" "state s' = (if peers (nodes C n) = [] then LEADER else CANDIDATE)"
      "votesRecieved s' = 1" by (simp_all add: core_def)
    then show ?thesis
      using DoElection_vote_calls [OF e(1)] e(2)
      by (intro tick_election_inv [OF inv n room]) (auto dest: vote_calls_own split: if_splits)
  next
    fix t assume e: "DoElection (?s\<lparr>ticks := Suc (ticks ?s)\<rparr>) = Inr t" "calls s' = calls t"
      and k: "core s' = core (t\<lparr>state := FOLLOWER\<rparr>)"
    from k DoElection_effect [OF e(1)] have "currentTerm s' = currentTerm (nodes C n) + 1"
      "peers s' = peers (nodes C n)" "state s' = FOLLOWER" by (simp_all add: core_def)
    then show ?thesis
      using DoElection_vote_calls [OF e(1)] e(2)
      by (intro tick_election_inv [OF inv n room]) (auto dest: vote_calls_own)
  qed
qed

end
