(* ===== verification/Elections.thy ===== *)
theory Elections
  imports Cluster
begin

text \<open>
  Elections. First what one vote request decides (\<open>OnRequestVoteRequest\<close> against the request of
  \<open>DoElection\<close>), then the election theorem of the cluster of \<open>Cluster\<close>: the invariant of the votes
  holds of the cluster \<open>MakeNodes\<close> builds, every step keeps it, and two majorities of one term
  share a voter. The last part runs concrete clusters with an executable driver of the same steps,
  among them the two in which the code elects two leaders of one term.
\<close>

subsection \<open>Who gets a vote\<close>

definition example_candidate :: SRaft where
  "example_candidate = (new_SRaft ''c'' None (\<lambda>k. of_nat k) (\<lambda>k lo hi. lo) None)
     \<lparr>running := True, state := CANDIDATE, currentTerm := 3,
      logs := [\<lparr>le_index = 0, le_term = 2, le_command = 0, le_data = ''put k v''\<rparr>]\<rparr>"

definition example_voter :: SRaft where
  "example_voter = (new_SRaft ''v'' None (\<lambda>k. of_nat k) (\<lambda>k lo hi. lo) None)
     \<lparr>running := True, currentTerm := 2,
      logs := [\<lparr>le_index = 0, le_term = 1, le_command = 0, le_data = ''put k u''\<rparr>]\<rparr>"

text \<open>When the log of \<open>c\<close> is no older than the one of \<open>v\<close>; an empty log sends the last term \<open>2^64 - 1\<close> and passes for the newest.\<close>

definition up_to_date :: "log \<Rightarrow> log \<Rightarrow> bool" where
  "up_to_date c v \<longleftrightarrow> c = [] \<or> v = [] \<or> LastLogTerm v < LastLogTerm c \<or>
     LastLogTerm v = LastLogTerm c \<and> length v \<le> length c"

lemma sint_of_nat_i64: "n < 2 ^ 63 \<Longrightarrow> sint (of_nat n :: i64) = int n"
  by (simp add: signed_of_nat signed_take_bit_int_eq_self)

lemma last_index_less:
  assumes "n < 2 ^ 63" "m < 2 ^ 63" "0 < n" "0 < m"
  shows "of_nat n - 1 < (of_nat m + -1 :: u64) \<longleftrightarrow> n < m"
proof -
  have "unat (of_nat k - 1 :: u64) = k - 1" if "0 < k" "k < 2 ^ 63" for k :: nat
  proof -
    have "(of_nat k - 1 :: u64) = of_nat (k - 1)" using that by (simp add: of_nat_diff)
    then show ?thesis using that by (simp add: unat_of_nat_u64 del: of_nat_diff)
  qed
  then show ?thesis using assms by (simp add: word_less_nat_alt) linarith
qed

lemma empty_log_not_outdated:
  assumes "logs c = []" "lastIncludeIndex v = -1" "lastIncludeTerm v = 0" "LastLogTerm (logs v) \<noteq> -1"
  shows "\<not> log_outdated (election_request c now) v"
proof -
  have max: "\<not> (-1 :: u64) < t" for t :: u64 by (simp add: not_less)
  show ?thesis using assms max by (auto simp: log_outdated_def election_request_def LastLogTerm_def sless_i64 split: if_splits)
qed

lemma log_outdated_iff:
  assumes "length (logs c) < 2 ^ 63" "length (logs v) < 2 ^ 63"
    and "lastIncludeIndex v = -1" "lastIncludeTerm v = 0" "LastLogTerm (logs v) \<noteq> -1"
  shows "log_outdated (election_request c now) v \<longleftrightarrow> \<not> up_to_date (logs c) (logs v)"
proof (cases "logs c = []")
  case True
  then show ?thesis using empty_log_not_outdated [OF True assms(3-5)] by (simp add: up_to_date_def)
next
  case False
  have "(of_nat (length (logs c)) - 1 :: i64) = of_nat (length (logs c) - 1)"
    using False by (simp add: of_nat_diff Suc_le_eq)
  then have "0 \<le> sint (of_nat (length (logs c)) - 1 :: i64)"
    using assms(1) sint_of_nat_i64 [of "length (logs c) - 1"] by simp
  then have "\<not> vq_last_log_index (election_request c now) <s -1"
    by (simp add: election_request_def sless_i64)
  moreover have "vq_last_log_term (election_request c now) = LastLogTerm (logs c)"
    using False by (simp add: election_request_def LastLogTerm_def)
  moreover have "vq_last_log_index (election_request c now) < of_nat (length (logs v)) + lastIncludeIndex v \<longleftrightarrow>
      length (logs c) < length (logs v)" if "logs v \<noteq> []"
    using last_index_less [OF assms(1,2)] False that assms(3) by (simp add: election_request_def)
  ultimately have o: "log_outdated (election_request c now) v \<longleftrightarrow> logs v \<noteq> [] \<and>
      (LastLogTerm (logs c) < LastLogTerm (logs v) \<or> LastLogTerm (logs c) = LastLogTerm (logs v) \<and> length (logs c) < length (logs v))"
    using assms(3,4) unfolding log_outdated_def LastLogTerm_def [of "logs v"] by (cases "logs v = []") simp_all
  have "(\<not> (s < t \<or> s = t \<and> m < n)) = (t < s \<or> t = s \<and> n \<le> m)" for s t :: u64 and m n :: nat by auto
  then show ?thesis using False unfolding o up_to_date_def by blast
qed

text \<open>
  Claim C12. Who gets a vote. For logs of fewer than \<open>2^63\<close> entries and a voter whose last term is not
  \<open>2^64 - 1\<close> and whose snapshot fields are unset (nothing in the program sets them), a node grants the request that \<open>DoElection\<close> of a candidate builds exactly when it runs, the
  candidate's term is newer, and the candidate's log is at least as up to date as its own: the last term is
  larger, or it is equal and the log is at least as long, or the voter has no log. But a candidate without a
  log gets the vote as well, however long the voter's log is. A granted vote raises the voter's term to the candidate's.
\<close>
theorem election_restriction:
  assumes "length (logs c) < 2 ^ 63" "length (logs v) < 2 ^ 63"
    and "lastIncludeIndex v = -1" "lastIncludeTerm v = 0" "LastLogTerm (logs v) \<noteq> -1"
    and vote: "OnRequestVoteRequest (election_request c now) RequestVoteResponse_default v = (x, rsp, v')"
  shows "(vr_vote_granted rsp \<longleftrightarrow> running v \<and> currentTerm v < currentTerm c \<and> up_to_date (logs c) (logs v)) \<and>
     (vr_vote_granted rsp \<longrightarrow> x = 1 \<and> vr_name rsp = addrStr v \<and> currentTerm v' = currentTerm c)"
proof -
  note o = log_outdated_iff [OF assms(1-5), of now]
  have t: "vq_term (election_request c now) = currentTerm c" by (simp add: election_request_def)
  have d: "\<not> vr_vote_granted RequestVoteResponse_default" by (simp add: RequestVoteResponse_default_def)
  show ?thesis using vote
  proof (cases rule: OnRequestVoteRequest_cases)
    case granted
    then show ?thesis using o t by (auto simp: grants_def vote_reply_def)
  qed (use o t d in \<open>auto simp: not_less\<close>)
qed

theorem election_restriction_witness:
  "\<exists>x rsp v'. OnRequestVoteRequest (election_request example_candidate 0) RequestVoteResponse_default example_voter = (x, rsp, v') \<and>
     vr_vote_granted rsp \<and> currentTerm v' = 3 \<and>
   (\<exists>y rsp' w'. OnRequestVoteRequest (election_request (example_candidate\<lparr>currentTerm := 4, logs := logs example_voter\<rparr>) 0)
      RequestVoteResponse_default (example_voter\<lparr>logs := logs example_candidate\<rparr>) = (y, rsp', w') \<and> \<not> vr_vote_granted rsp')"
proof -
  let ?old = "example_candidate\<lparr>currentTerm := 4, logs := logs example_voter\<rparr>" and ?v = "example_voter\<lparr>logs := logs example_candidate\<rparr>"
  obtain x rsp v' where o: "OnRequestVoteRequest (election_request example_candidate 0)
      RequestVoteResponse_default example_voter = (x, rsp, v')" by (rule prod_cases3)
  obtain y rsp' w' where n: "OnRequestVoteRequest (election_request ?old 0) RequestVoteResponse_default ?v = (y, rsp', w')"
    by (rule prod_cases3)
  have 1: "length (logs example_candidate) < 2 ^ 63" "length (logs example_voter) < 2 ^ 63" "lastIncludeIndex example_voter = -1"
     "lastIncludeTerm example_voter = 0" "LastLogTerm (logs example_voter) \<noteq> -1"
    by (simp_all add: example_candidate_def example_voter_def new_SRaft_def LastLogTerm_def)
  have 2: "length (logs ?old) < 2 ^ 63" "length (logs ?v) < 2 ^ 63" "lastIncludeIndex ?v = -1"
     "lastIncludeTerm ?v = 0" "LastLogTerm (logs ?v) \<noteq> -1"
    by (simp_all add: example_candidate_def example_voter_def new_SRaft_def LastLogTerm_def)
  have d: "running example_voter" "currentTerm example_voter < currentTerm example_candidate" "currentTerm example_candidate = 3"
     "up_to_date (logs example_candidate) (logs example_voter)" "\<not> up_to_date (logs ?old) (logs ?v)"
    by (simp_all add: example_candidate_def example_voter_def new_SRaft_def LastLogTerm_def up_to_date_def)
  show ?thesis using election_restriction [OF 1 o] election_restriction [OF 2 n] d o n by auto
qed
text \<open>
  The restriction does not bind a candidate without a log: it sends the last term
  \<open>2^64 - 1\<close> and gets the vote of every running node of an older term, however long that node's log.
\<close>
lemma empty_log_candidate_wins:
  assumes "logs c = []" "running v" "currentTerm v < currentTerm c"
    and "lastIncludeIndex v = -1" "lastIncludeTerm v = 0" "LastLogTerm (logs v) \<noteq> -1"
  shows "vr_vote_granted (fst (snd (OnRequestVoteRequest (election_request c now) rsp v)))"
proof -
  have "grants (election_request c now) v"
    using assms empty_log_not_outdated [OF assms(1,4-6)] by (simp add: grants_def) (simp add: election_request_def)
  then show ?thesis by (simp add: OnRequestVoteRequest_granted vote_reply_def)
qed

lemma empty_log_candidate_example:
  "vr_vote_granted (fst (snd (OnRequestVoteRequest
     (election_request (example_candidate\<lparr>logs := []\<rparr>) 0) RequestVoteResponse_default example_voter)))"
  by (rule empty_log_candidate_wins; code_simp)

text \<open>
  A vote request that is refused because of the log still raises the term: a leader then
  stays leader in a term no one elected it for, and the new term is not saved.
\<close>
lemma leader_takes_term:
  assumes "state s = LEADER" "running s" "currentTerm s < vq_term r" "log_outdated r s"
  shows "OnRequestVoteRequest r rsp s = (-1, vote_reply r s, s\<lparr>ticks := Suc (ticks s), currentTerm := vq_term r\<rparr>)"
  using assms by (simp add: OnRequestVoteRequest_outdated)

definition example_request :: RequestVoteRequest where
  "example_request = \<lparr>vq_name = ''c'', vq_term = 3, vq_last_log_index = 0, vq_last_log_term = 0,
     vq_time = 0, vq_seq = -1, vq_initial = True\<rparr>"

lemma leader_takes_term_example:
  "currentTerm (snd (snd (OnRequestVoteRequest example_request
      RequestVoteResponse_default (example_voter\<lparr>state := LEADER\<rparr>)))) = 3 \<and>
   state (snd (snd (OnRequestVoteRequest example_request
      RequestVoteResponse_default (example_voter\<lparr>state := LEADER\<rparr>)))) = LEADER"
proof -
  let ?s = "example_voter\<lparr>state := LEADER\<rparr>"
  have "state ?s = LEADER" "running ?s" "currentTerm ?s < vq_term example_request" "log_outdated example_request ?s"
    by (simp_all add: example_voter_def new_SRaft_def example_request_def log_outdated_def)
  note leader_takes_term [OF this, of RequestVoteResponse_default]
  then show ?thesis by (simp add: example_request_def example_voter_def)
qed

subsection \<open>Election safety\<close>

definition other_peers :: "string list \<Rightarrow> string \<Rightarrow> (string \<times> SRaftPeer option) list \<Rightarrow> bool" where
  "other_peers A n ps \<longleftrightarrow> distinct (map fst ps) \<and> fst ` set ps = set A - {n} \<and>
     (\<forall>k p. (k, p) \<in> set ps \<longrightarrow> p = Some \<lparr>peer_name = k, peerSRaftClient = k, nextIndex = 0, matchIndex = -1\<rparr>)"

lemma other_peers_ok:
  assumes "other_peers M n ps" shows "peers_ok M n ps"
proof -
  have "peerSRaftClient p = k \<and> k \<in> set M - {n}" if "(k, Some p) \<in> set ps" for k p
    using assms that unfolding other_peers_def by (force dest: spec [of _ k])
  then show ?thesis using assms by (auto simp: other_peers_def peers_ok_def)
qed

lemma other_peers_AddPeer:
  assumes "other_peers A n (peers s)" "a \<noteq> n"
  shows "other_peers (A @ [a]) n (peers (AddPeer a s))"
proof -
  let ?p = "Some \<lparr>peer_name = a, peerSRaftClient = a, nextIndex = 0, matchIndex = -1\<rparr>"
  let ?qs = "AList.update a ?p (peers s)"
  have d: "distinct (map fst ?qs)" using assms by (simp add: other_peers_def distinct_update)
  have "fst ` set ?qs = insert a (fst ` set (peers s))" by (simp add: dom_update)
  moreover have "p = Some \<lparr>peer_name = k, peerSRaftClient = k, nextIndex = 0, matchIndex = -1\<rparr>"
    if "(k, p) \<in> set ?qs" for k p
  proof -
    have "map_of ?qs k = Some p" using that d by simp
    then show ?thesis using assms(1) map_of_SomeD [of "peers s" k p]
      by (auto simp: update_conv' other_peers_def split: if_splits)
  qed
  ultimately show ?thesis using assms d by (auto simp: other_peers_def AddPeer_def)
qed

lemma fold_AddPeer:
  "other_peers A n (peers s) \<Longrightarrow> state s = FOLLOWER \<Longrightarrow>
   other_peers (A @ B) n (peers (fold (\<lambda>a s. if a \<noteq> n then AddPeer a s else s) B s)) \<and>
   state (fold (\<lambda>a s. if a \<noteq> n then AddPeer a s else s) B s) = FOLLOWER"
proof (induction B arbitrary: A s)
  case Nil
  then show ?case by simp
next
  case (Cons b B)
  have "other_peers (A @ [b]) n (peers (if b \<noteq> n then AddPeer b s else s))"
    using Cons.prems(1) other_peers_AddPeer [of A n s b] by (auto simp: other_peers_def)
  moreover have "state (if b \<noteq> n then AddPeer b s else s) = FOLLOWER"
    using Cons.prems(2) by (simp add: AddPeer_def)
  ultimately show ?case using Cons.IH [of "A @ [b]"] by simp
qed

lemma MakeNode_peers:
  "other_peers M n (peers (MakeNode M clk rnd None n))" "state (MakeNode M clk rnd None n) = FOLLOWER"
proof -
  have "other_peers [] n (peers (new_SRaft n None clk rnd None))"
    by (simp add: other_peers_def new_SRaft_def)
  from fold_AddPeer [OF this, of M]
  show "other_peers M n (peers (MakeNode M clk rnd None n))" "state (MakeNode M clk rnd None n) = FOLLOWER"
    by (simp_all add: MakeNode_def Run_def Load_def get_current_ms_def get_ranged_random_def Let_def
        new_SRaft_def split: option.splits)
qed

definition odd_cluster :: "string list \<Rightarrow> cluster \<Rightarrow> bool" where
  "odd_cluster M C \<longleftrightarrow> odd (card (set M)) \<and> card (set M) < 2 ^ 63 \<and> made_from M C"

definition odd_inv :: "string list \<Rightarrow> cluster \<Rightarrow> bool" where
  "odd_inv M C \<longleftrightarrow> odd (card (set M)) \<and> card (set M) < 2 ^ 63 \<and> cluster_inv M C"

lemma MakeNodes_inv: "cluster_inv M (MakeNodes M clk rnd (\<lambda>_. None))"
proof (rule cluster_invI)
  fix n assume "n \<in> set M"
  show "node_ok M (MakeNodes M clk rnd (\<lambda>_. None)) n"
    using MakeNode_peers(1) [of M n "clk n" "rnd n"] MakeNode_peers(2) [of M]
    by (auto simp: node_ok_def MakeNodes_def other_peers_ok)
qed (simp_all add: MakeNodes_def votes_ok_def granted_answers_def)

interpretation elections: inductive_invariant "odd_cluster M" "cluster_step M True" "odd_inv M" for M
proof
  fix C assume "odd_cluster M C"
  then show "odd_inv M C" by (auto simp: odd_cluster_def odd_inv_def made_from_def MakeNodes_inv)
next
  fix C D assume inv: "odd_inv M C" and step: "cluster_step M True C D"
  then have I: "cluster_inv M C" and o: "odd (card (set M))" "card (set M) < 2 ^ 63"
    by (simp_all add: odd_inv_def)
  from step have "cluster_inv M D"
  proof cases
    case tick
    then show ?thesis using tick_inv [OF I] by simp
  next
    case ask
    then show ?thesis using ask_inv [OF I] by simp
  next
    case answer
    then show ?thesis using answer_inv [OF I] o by simp
  next
    case append
    then show ?thesis using quiet_inv [OF I quiet_append] by simp
  next
    case append_reply
    then show ?thesis using quiet_inv [OF I quiet_append_reply] by simp
  next
    case client
    then show ?thesis using quiet_inv [OF I quiet_client] by simp
  qed
  then show "odd_inv M D" using o by (simp add: odd_inv_def)
qed

lemma two_majorities:
  assumes "cluster_inv M C" "(t, a) \<in> set (elected_in C)" "(t, b) \<in> set (elected_in C)"
  shows "a = b"
proof (rule ccontr)
  assume ne: "a \<noteq> b"
  let ?A = "voters (cast C) t a" and ?B = "voters (cast C) t b"
  have V: "votes_ok M C" by (rule cluster_invD(4) [OF assms(1)])
  then have "?A \<inter> ?B = {}" using ne unfolding votes_ok_def voters_def by blast
  then have "card (?A \<union> ?B) = card ?A + card ?B" by (intro card_Un_disjoint) simp_all
  moreover have "?A \<union> ?B \<subseteq> set M" using V unfolding votes_ok_def voters_def by blast
  then have "card (?A \<union> ?B) \<le> card (set M)" by (intro card_mono) simp_all
  ultimately show False using cluster_invD(5) [OF assms(1) assms(2)] cluster_invD(5) [OF assms(1) assms(3)] by simp
qed

text \<open>
  Claim C2. Election safety. Take a cluster of an odd number of nodes that starts as
  \<open>MakeNodes\<close> starts it and then runs in any order timer passes, deliveries of vote requests
  (also repeated ones), responses to them, append requests and append responses of any content,
  and client commands. If an answer is not counted in a later term than the one it was asked in,
  at most one node wins the election of a term.
\<close>
theorem election_safety:
  assumes "reachable (odd_cluster M) (cluster_step M True) C"
    and "(t, a) \<in> set (elected_in C)" "(t, b) \<in> set (elected_in C)"
  shows "a = b"
  using two_majorities [of M C t a b] elections.reachable_inv [OF assms(1)] assms(2,3)
  by (simp add: odd_inv_def)

subsection \<open>Concrete runs\<close>

datatype cluster_event = Tick string | Ask nat | Answer nat

fun run_event :: "string list \<Rightarrow> bool \<Rightarrow> cluster_event \<Rightarrow> cluster \<Rightarrow> cluster option" where
  "run_event M strict (Tick n) C =
     (if n \<in> set M \<and> currentTerm (nodes C n) \<noteq> -1
      then case OnTimer ((nodes C n)\<lparr>calls := []\<rparr>) of Inr s' \<Rightarrow> Some (do_tick n s' C) | Inl e \<Rightarrow> None
      else None)"
| "run_event M strict (Ask i) C =
     (if i < length (asks C) then case asks C ! i of (c, v, rq) \<Rightarrow> Some (do_ask c v rq C) else None)"
| "run_event M strict (Answer i) C =
     (if i < length (answers C)
      then case answers C ! i of (c, v, rq, rsp) \<Rightarrow>
        if strict \<longrightarrow> counts rsp (nodes C c) \<longrightarrow> vq_term rq = currentTerm (nodes C c)
        then Some (do_answer c v rq rsp C) else None
      else None)"

fun run_events :: "string list \<Rightarrow> bool \<Rightarrow> cluster_event list \<Rightarrow> cluster \<Rightarrow> cluster option" where
  "run_events M strict [] C = Some C"
| "run_events M strict (e # es) C = Option.bind (run_event M strict e C) (run_events M strict es)"

lemma run_event_step: "run_event M strict e C = Some D \<Longrightarrow> cluster_step M strict C D"
proof (cases e)
  case (Tick n)
  then show "run_event M strict e C = Some D \<Longrightarrow> ?thesis"
    by (auto intro: cluster_step.tick split: if_splits sum.splits)
next
  case (Ask i)
  then show "run_event M strict e C = Some D \<Longrightarrow> ?thesis"
    by (auto intro!: cluster_step.ask split: if_splits prod.splits) (metis nth_mem)
next
  case (Answer i)
  then show "run_event M strict e C = Some D \<Longrightarrow> ?thesis"
    by (auto intro!: cluster_step.answer split: if_splits prod.splits) (metis nth_mem)+
qed

lemma run_events_reachable:
  "run_events M strict es C = Some D \<Longrightarrow> reachable init (cluster_step M strict) C \<Longrightarrow>
   reachable init (cluster_step M strict) D"
  by (induction es arbitrary: C)
     (auto simp: bind_eq_Some_conv intro: reachable.reachable_step dest: run_event_step)

definition example_cluster :: "string list \<Rightarrow> cluster" where
  "example_cluster M = MakeNodes M (\<lambda>n k. 1000 * of_nat k) (\<lambda>n k lo hi. lo) (\<lambda>_. None)"

definition elections_of :: "string list \<Rightarrow> bool \<Rightarrow> cluster_event list \<Rightarrow> (u64 \<times> string) list option" where
  "elections_of M strict es = map_option elected_in (run_events M strict es (example_cluster M))"

lemma elections_of_reachable:
  assumes "elections_of M strict es = Some es'" "init (example_cluster M)"
  obtains D where "reachable init (cluster_step M strict) D" "elected_in D = es'"
proof -
  obtain D where "run_events M strict es (example_cluster M) = Some D" "elected_in D = es'"
    using assms(1) by (auto simp: elections_of_def)
  then show ?thesis using that run_events_reachable reachable.reachable_init assms(2) by metis
qed

lemma three_nodes: "elections_of [''a'', ''b'', ''c''] True [Tick ''a'', Ask 0, Answer 0] = Some [(1, ''a'')]"
  by code_simp

lemma four_nodes: "elections_of [''a'', ''b'', ''c'', ''d''] True
   [Tick ''a'', Tick ''b'', Ask 1, Ask 5, Answer 0, Answer 0] = Some [(1, ''a''), (1, ''b'')]"
  by code_simp

lemma late_answer: "elections_of [''a'', ''b'', ''c''] False
   [Tick ''a'', Ask 0, Tick ''a'', Tick ''a'', Answer 0, Tick ''c'', Tick ''c'', Tick ''c'', Ask 7, Answer 0]
   = Some [(2, ''a''), (2, ''c'')]"
  by code_simp

lemma odd_example: "odd_cluster [''a'', ''b'', ''c''] (example_cluster [''a'', ''b'', ''c''])"
  by (auto simp: odd_cluster_def made_from_def example_cluster_def)

theorem election_safety_witness:
  "\<exists>C. reachable (odd_cluster [''a'', ''b'', ''c'']) (cluster_step [''a'', ''b'', ''c''] True) C \<and>
     (1, ''a'') \<in> set (elected_in C) \<and> (1, ''b'') \<notin> set (elected_in C)"
proof -
  obtain C where C: "reachable (odd_cluster [''a'', ''b'', ''c'']) (cluster_step [''a'', ''b'', ''c''] True) C"
    "elected_in C = [(1, ''a'')]"
    using elections_of_reachable [where init = "odd_cluster [''a'', ''b'', ''c'']", OF three_nodes odd_example] .
  then have "(1, ''b'') \<notin> set (elected_in C)" using election_safety [OF C(1), of 1 "''a''" "''b''"] by auto
  then show ?thesis using C by auto
qed

text \<open>
  Claim C23. Four nodes elect two leaders of one term although every vote is counted in the term
  it was asked for: a candidate takes office with more than \<open>peers_.size() / 2\<close> votes, and the
  peers are one node fewer than the cluster.
\<close>
theorem even_cluster_two_leaders:
  "\<exists>C. reachable (made_from [''a'', ''b'', ''c'', ''d'']) (cluster_step [''a'', ''b'', ''c'', ''d''] True) C \<and>
     (1, ''a'') \<in> set (elected_in C) \<and> (1, ''b'') \<in> set (elected_in C)"
proof -
  have "made_from [''a'', ''b'', ''c'', ''d''] (example_cluster [''a'', ''b'', ''c'', ''d''])"
    by (auto simp: made_from_def example_cluster_def)
  from elections_of_reachable [where init = "made_from [''a'', ''b'', ''c'', ''d'']", OF four_nodes this] show ?thesis by (metis list.set_intros)
qed

text \<open>
  Claim C24. Three nodes elect two leaders of one term when an answer of an earlier term is late:
  \<open>OnRequestVoteResponse\<close> counts a granted vote whatever term it was granted for.
\<close>
theorem late_answer_two_leaders:
  "\<exists>C. reachable (made_from [''a'', ''b'', ''c'']) (cluster_step [''a'', ''b'', ''c''] False) C \<and>
     (2, ''a'') \<in> set (elected_in C) \<and> (2, ''c'') \<in> set (elected_in C)"
proof -
  have "made_from [''a'', ''b'', ''c''] (example_cluster [''a'', ''b'', ''c''])"
    by (auto simp: made_from_def example_cluster_def)
  from elections_of_reachable [where init = "made_from [''a'', ''b'', ''c'']", OF late_answer this] show ?thesis by (metis list.set_intros)
qed

end
