(* ===== verification/ElectionRound.thy ===== *)
theory ElectionRound
  imports Elections SRaftRpc
begin

text \<open>
  An election from the timer of the candidate through the calls to its peers and back: \<open>vote_exchange\<close>
  is one \<open>RequestVote\<close> call from its request to the end of its thread, \<open>vote_round\<close> the calls of any
  followers in any order.
\<close>

text \<open>The last vote request to an address.\<close>

fun vote_request_to :: "string \<Rightarrow> raft_call list \<Rightarrow> RequestVoteRequest option" where
  "vote_request_to addr [] = None"
| "vote_request_to addr (c # cs) =
     (case vote_request_to addr cs of
        Some rq \<Rightarrow> Some rq
      | None \<Rightarrow> (case c of
          CallRequestVote a rq \<Rightarrow> if a = addr then Some rq else None
        | CallAppendEntries a rq hb \<Rightarrow> None))"

lemma vote_request_to_append:
  "vote_request_to a (cs @ ds) = (case vote_request_to a ds of Some rq \<Rightarrow> Some rq | None \<Rightarrow> vote_request_to a cs)"
  by (induction cs) (auto split: option.splits)

definition vote_exchange :: "SRaft \<Rightarrow> SRaft \<Rightarrow> SRaft \<times> SRaft" where
  "vote_exchange f l =
     (case vote_request_to (addrStr f) (calls l) of
        None \<Rightarrow> (f, l)
      | Some request \<Rightarrow>
          (let (status, response, f') = RaftMessagesServiceImpl_RequestVote request f
           in (f', RequestVote_thread (Some response) l)))"

fun vote_round :: "SRaft list \<Rightarrow> SRaft \<Rightarrow> SRaft list \<times> SRaft" where
  "vote_round [] l = ([], l)"
| "vote_round (f # fs) l =
     (let (f', l) = vote_exchange f l; (fs', l) = vote_round fs l in (f' # fs', l))"

lemma for_peers_votes:
  assumes "all_live ps"
  shows "for_peers (send_vote_request ms) ps s =
    Inr (s\<lparr>calls := calls s @ map (\<lambda>(k, q). CallRequestVote (peerSRaftClient (the q)) (election_request s ms)) ps\<rparr>)"
  using assms
proof (induction ps arbitrary: s)
  case (Cons kq ps)
  obtain k p where kq: "kq = (k, Some p)" using Cons.prems by (cases kq) (auto simp: all_live_def)
  have "election_request (s\<lparr>calls := c\<rparr>) ms = election_request s ms" for c by (simp add: election_request_def)
  then show ?case using Cons kq
    by (simp add: send_vote_request_def SRaftClient_RequestVote_def all_live_def)
qed simp

lemma vote_request_to_all:
  assumes "k \<in> fst ` set ps" "all_live ps" "\<And>k p. (k, Some p) \<in> set ps \<Longrightarrow> peerSRaftClient p = k"
  shows "vote_request_to k (map (\<lambda>(k, q). CallRequestVote (peerSRaftClient (the q)) rq) ps) = Some rq"
proof -
  let ?cs = "\<lambda>ps. map (\<lambda>(k, q). CallRequestVote (peerSRaftClient (the q)) rq) ps"
  have any: "vote_request_to k (?cs ps) \<in> {None, Some rq}" for ps
    by (induction ps) (auto split: option.splits)
  show ?thesis using assms
  proof (induction ps)
    case (Cons kq ps)
    obtain k' p where kq: "kq = (k', Some p)" using Cons.prems(2) by (cases kq) (auto simp: all_live_def)
    then have "peerSRaftClient p = k'" using Cons.prems(3) by simp
    moreover have "vote_request_to k (?cs ps) = Some rq" if "k \<noteq> k'"
      using Cons.prems that kq by (intro Cons.IH) (auto simp: all_live_def)
    ultimately show ?case using any [of ps] kq by (cases "k = k'") auto
  qed simp
qed

text \<open>The candidate right after \<open>DoElection\<close>.\<close>

definition candidacy :: "SRaft \<Rightarrow> SRaft" where
  "candidacy l = (Dump (l\<lparr>state := CANDIDATE, currentTerm := currentTerm l + 1, votesRecieved := 1, votedFor := addrStr l\<rparr>))
     \<lparr>ticks := Suc (ticks l), dueElectionFail := clock l (ticks l) + interval_election_fail,
      calls := calls l @ map (\<lambda>(k, q). CallRequestVote (peerSRaftClient (the q))
        (election_request (l\<lparr>currentTerm := currentTerm l + 1\<rparr>) (clock l (ticks l)))) (peers l)\<rparr>"

lemma DoElection_candidacy:
  assumes "peers l \<noteq> []" "all_live (peers l)"
  shows "DoElection l = Inr (candidacy l)"
proof -
  let ?s = "(elected l)\<lparr>ticks := Suc (ticks l)\<rparr>"
  have "?s = (Dump (l\<lparr>state := CANDIDATE, currentTerm := currentTerm l + 1, votesRecieved := 1,
       votedFor := addrStr l\<rparr>))\<lparr>ticks := Suc (ticks l) , dueElectionFail := clock l (ticks l) + interval_election_fail\<rparr>"
    using assms(1) by (simp add: elected_def Dump_def)
  moreover have "election_request ?s ms = election_request (l\<lparr>currentTerm := currentTerm l + 1\<rparr>) ms" for ms
    by (simp add: election_request_def elected_def Dump_def)
  moreover have "calls ?s = calls l" by (simp add: elected_def Dump_def)
  ultimately show ?thesis
    by (simp add: DoElection_eq for_peers_votes [OF assms(2)] candidacy_def)
qed

lemma candidacy_simps [simp]:
  "state (candidacy l) = CANDIDATE" "currentTerm (candidacy l) = currentTerm l + 1" "votesRecieved (candidacy l) = 1"
  "peers (candidacy l) = peers l" "logs (candidacy l) = logs l" "channel (candidacy l) = channel l"
  "commitIndex (candidacy l) = commitIndex l" "lastApplied (candidacy l) = lastApplied l"
  "running (candidacy l) = running l" "fs_ok (candidacy l) = fs_ok l" "addrStr (candidacy l) = addrStr l"
  "dueElectionFail (candidacy l) = clock l (ticks l) + interval_election_fail"
  by (simp_all add: candidacy_def Dump_def)

lemma OnTimer_candidacy:
  assumes "running l" "state l = FOLLOWER" "dueElection l < clock l (ticks l)"
    and "\<not> clock l (Suc (ticks l)) + interval_election_fail < clock l (ticks l)"
    and "peers l \<noteq> []" "all_live (peers l)"
  shows "OnTimer l = Inr (candidacy (l\<lparr>ticks := Suc (ticks l)\<rparr>))"
  using assms DoElection_candidacy [of "l\<lparr>ticks := Suc (ticks l)\<rparr>"]
  by (simp add: OnTimer_def get_current_ms_def timer_heartbeat_def timer_election_def timer_fail_def)

text \<open>Everything but the election state is as before.\<close>

definition same_store :: "SRaft \<Rightarrow> SRaft \<Rightarrow> bool" where
  "same_store l t \<longleftrightarrow> logs t = logs l \<and> peers t = peers l \<and> channel t = channel l \<and> commitIndex t = commitIndex l \<and>
     lastApplied t = lastApplied l \<and> running t = running l \<and> fs_ok t = fs_ok l \<and> addrStr t = addrStr l"

text \<open>The candidate \<open>l\<close> after \<open>n\<close> granted votes.\<close>

definition after_votes :: "SRaft \<Rightarrow> nat \<Rightarrow> SRaft \<Rightarrow> bool" where
  "after_votes l n t \<longleftrightarrow> same_store l t \<and> calls t = calls l \<and> currentTerm t = currentTerm l \<and>
     (if length (peers l) div 2 < 1 + n \<and> n \<noteq> 0 then state t = LEADER
      else state t = CANDIDATE \<and> votesRecieved t = 1 + of_nat n)"

lemma after_votes_step:
  assumes "after_votes l n t" "vr_vote_granted r" "\<not> currentTerm l < vr_term r"
    and "length (peers l) < 2 ^ 63" "n < length (peers l)"
  shows "after_votes l (Suc n) (OnRequestVoteResponse r t)"
proof -
  have "unat (of_nat (length (peers l)) div 2 :: u64) = length (peers l) div 2"
    using assms(4) by (simp add: unat_div unat_of_nat_u64)
  moreover have "unat (of_nat (Suc (Suc n)) :: u64) = Suc (Suc n)" using assms(4,5) by (intro unat_of_nat_u64) simp
  ultimately have w: "(of_nat (length (peers l)) div 2 :: u64) < of_nat (Suc (Suc n)) \<longleftrightarrow> length (peers l) div 2 < Suc (Suc n)"
    by (simp only: word_less_nat_alt)
  show ?thesis using assms w
    by (auto simp: after_votes_def OnRequestVoteResponse_def same_store_def split: if_splits)
qed

definition votes_for :: "SRaft \<Rightarrow> SRaft \<Rightarrow> bool" where
  "votes_for l f \<longleftrightarrow> running f \<and> \<not> currentTerm l < currentTerm f \<and> \<not> log_outdated (election_request l 0) f \<and>
     addrStr f \<in> fst ` set (peers l)"

definition voted :: "u64 \<Rightarrow> SRaft \<Rightarrow> SRaft \<Rightarrow> bool" where
  "voted t f f' \<longleftrightarrow> currentTerm f' = t \<and> state f' \<noteq> LEADER \<and> same_store f f'"

lemma vote_exchange_step:
  assumes t: "after_votes l n t" and rq: "vote_request_to (addrStr f) (calls l) = Some rq"
    and g: "grants rq f" "currentTerm f < currentTerm l" "vq_term rq = currentTerm l"
    and len: "length (peers l) < 2 ^ 63" "n < length (peers l)"
  shows "\<exists>f' t'. vote_exchange f t = (f', t') \<and> voted (currentTerm l) f f' \<and> after_votes l (Suc n) t'"
proof -
  have "vote_exchange f t = (granted_state rq f, OnRequestVoteResponse (vote_reply rq f) t)"
    using t rq OnRequestVoteRequest_granted [OF g(1)]
    by (simp add: vote_exchange_def after_votes_def RaftMessagesServiceImpl_RequestVote_def RequestVote_thread_def)
  moreover have "after_votes l (Suc n) (OnRequestVoteResponse (vote_reply rq f) t)"
    using g by (intro after_votes_step [OF t _ _ len]) (simp_all add: vote_reply_def not_less)
  moreover have "voted (currentTerm l) f (granted_state rq f)"
    using g(3) by (simp add: voted_def same_store_def)
  ultimately show ?thesis by blast
qed

lemma vote_round_votes:
  assumes "after_votes l n t" "length (peers l) < 2 ^ 63" "n + length fs \<le> length (peers l)"
    and "\<And>f. f \<in> set fs \<Longrightarrow> \<exists>rq. vote_request_to (addrStr f) (calls l) = Some rq \<and> grants rq f \<and>
       currentTerm f < currentTerm l \<and> vq_term rq = currentTerm l"
  shows "\<exists>fs' t'. vote_round fs t = (fs', t') \<and> list_all2 (voted (currentTerm l)) fs fs' \<and> after_votes l (n + length fs) t'"
  using assms(1,3,4)
proof (induction fs arbitrary: n t)
  case Nil
  then show ?case by simp
next
  case (Cons f fs)
  obtain rq where "vote_request_to (addrStr f) (calls l) = Some rq" "grants rq f" "currentTerm f < currentTerm l"
      "vq_term rq = currentTerm l" using Cons.prems(3) [of f] by auto
  then obtain f' t1 where 1: "vote_exchange f t = (f', t1)" "voted (currentTerm l) f f'" "after_votes l (Suc n) t1"
    using vote_exchange_step [OF Cons.prems(1) _ _ _ _ assms(2), of f rq] Cons.prems(2) by auto
  obtain fs' t' where "vote_round fs t1 = (fs', t')" "list_all2 (voted (currentTerm l)) fs fs'"
      "after_votes l (Suc n + length fs) t'"
    using Cons.IH [OF 1(3)] Cons.prems(2,3) by auto
  then show ?case using 1 by (intro exI [of _ "f' # fs'"] exI [of _ t']) simp
qed

lemma election_wins:
  assumes l: "running l" "state l = FOLLOWER" "dueElection l < clock l (ticks l)"
      "\<not> clock l (Suc (ticks l)) + interval_election_fail < clock l (ticks l)" "currentTerm l \<noteq> -1"
    and ps: "all_live (peers l)" "distinct (map fst (peers l))" "length (peers l) < 2 ^ 63"
      "\<And>k p. (k, Some p) \<in> set (peers l) \<Longrightarrow> peerSRaftClient p = k"
    and fs: "distinct (map addrStr fs)" "\<And>f. f \<in> set fs \<Longrightarrow> votes_for l f" "length (peers l) div 2 < 1 + length fs" "fs \<noteq> []"
  shows "\<exists>l' fs' l''. OnTimer l = Inr l' \<and> vote_round fs l' = (fs', l'') \<and> state l'' = LEADER \<and>
     currentTerm l'' = currentTerm l + 1 \<and> same_store l l'' \<and> list_all2 (voted (currentTerm l + 1)) fs fs'"
proof -
  let ?c = "candidacy (l\<lparr>ticks := Suc (ticks l)\<rparr>)"
  have keys: "set (map addrStr fs) \<subseteq> fst ` set (peers l)" using fs(2) by (auto simp: votes_for_def)
  then have ne: "peers l \<noteq> []" using fs(4) by (cases fs) auto
  have "length fs = card (set (map addrStr fs))" using fs(1) by (metis distinct_card length_map)
  also have "\<dots> \<le> card (fst ` set (peers l))" using keys by (intro card_mono) auto
  also have "\<dots> = length (peers l)" using ps(2) by (metis distinct_card length_map list.set_map)
  finally have few: "length fs \<le> length (peers l)" .
  have inc: "currentTerm l < currentTerm l + 1" using l(5) by (rule u64_less_inc)
  have g: "\<exists>rq. vote_request_to (addrStr f) (calls ?c) = Some rq \<and> grants rq f \<and>
       currentTerm f < currentTerm ?c \<and> vq_term rq = currentTerm ?c" if "f \<in> set fs" for f
  proof -
    have v: "running f" "currentTerm f < currentTerm l + 1" "\<not> log_outdated (election_request l 0) f"
        "addrStr f \<in> fst ` set (peers l)"
      using fs(2) [OF that] inc by (auto simp: votes_for_def)
    let ?s = "l\<lparr>ticks := Suc (ticks l), currentTerm := currentTerm l + 1\<rparr>"
    let ?rq = "election_request ?s (clock l (Suc (ticks l)))"
    have s: "calls ?c = calls l @ map (\<lambda>(k, q). CallRequestVote (peerSRaftClient (the q)) ?rq) (peers l)"
      by (simp add: candidacy_def)
    have "vote_request_to (addrStr f) (calls ?c) = Some ?rq"
      using vote_request_to_all [OF v(4) ps(1,4)] by (simp add: s vote_request_to_append)
    moreover have "log_outdated ?rq f = log_outdated (election_request l 0) f"
      by (simp add: log_outdated_def election_request_def)
    ultimately show ?thesis using v by (simp add: grants_def election_request_def)
  qed
  have "after_votes ?c 0 ?c" by (simp add: after_votes_def same_store_def)
  from vote_round_votes [where fs = fs, OF this _ _ g] obtain fs' l'' where
    "vote_round fs ?c = (fs', l'')" "list_all2 (voted (currentTerm ?c)) fs fs'" "after_votes ?c (length fs) l''"
    using ps(3) few by auto
  moreover have "OnTimer l = Inr ?c" by (rule OnTimer_candidacy [OF l(1-4) ne ps(1)])
  ultimately show ?thesis using fs(3,4)
    by (intro exI [of _ ?c] exI [of _ fs'] exI [of _ l'']) (auto simp: after_votes_def same_store_def)
qed

text \<open>
  Claim C8. An undisturbed election succeeds. A follower whose election is due and whose clock does
  not jump starts it on the next timer pass and sends its request to every peer. When followers
  without a newer term and with a log the request is not behind answer, in any order, and there are
  enough of them for the code's majority, it leads the next term; log, peers and commit state are as
  before, and each of these followers is in the new term and no leader.
\<close>
theorem election_succeeds:
  assumes l: "running l" "state l = FOLLOWER" "dueElection l < clock l (ticks l)"
      "\<not> clock l (Suc (ticks l)) + interval_election_fail < clock l (ticks l)" "currentTerm l \<noteq> -1"
    and ps: "all_live (peers l)" "distinct (map fst (peers l))" "length (peers l) < 2 ^ 63"
      "\<And>k p. (k, Some p) \<in> set (peers l) \<Longrightarrow> peerSRaftClient p = k"
    and fs: "distinct (map addrStr fs)" "\<And>f. f \<in> set fs \<Longrightarrow> votes_for l f" "length (peers l) div 2 < 1 + length fs" "fs \<noteq> []"
  shows "\<exists>l' fs' l''. OnTimer l = Inr l' \<and> vote_round fs l' = (fs', l'') \<and> state l'' = LEADER \<and>
     currentTerm l'' = currentTerm l + 1 \<and> same_store l l'' \<and> list_all2 (voted (currentTerm l + 1)) fs fs'"
  using assms by (rule election_wins)

definition waiting_node :: "string \<Rightarrow> SRaft" where
  "waiting_node = MakeNode [''a'', ''b'', ''c''] (\<lambda>k. of_nat (1000 * k)) (\<lambda>k lo hi. lo) None"

theorem election_succeeds_witness:
  "\<exists>l' fs' l''. OnTimer (waiting_node ''a'') = Inr l' \<and> vote_round [waiting_node ''b''] l' = (fs', l'') \<and>
     state l'' = LEADER \<and> currentTerm l'' = 1"
proof -
  let ?l = "waiting_node ''a''" let ?f = "waiting_node ''b''"
  have l: "running ?l" "state ?l = FOLLOWER" "dueElection ?l < clock ?l (ticks ?l)"
      "\<not> clock ?l (Suc (ticks ?l)) + interval_election_fail < clock ?l (ticks ?l)" "currentTerm ?l \<noteq> -1"
      "all_live (peers ?l)" "distinct (map fst (peers ?l))" "length (peers ?l) < 2 ^ 63"
      "\<And>k p. (k, Some p) \<in> set (peers ?l) \<Longrightarrow> peerSRaftClient p = k"
    by (auto simp: waiting_node_def MakeNode_def new_SRaft_def AddPeer_def Run_def Load_def get_current_ms_def
        get_ranged_random_def all_live_def interval_election_low_def interval_election_fail_def)
  have "votes_for ?l f" if "f \<in> set [?f]" for f
    using that by (auto simp: waiting_node_def votes_for_def log_outdated_def election_request_def MakeNode_def new_SRaft_def
        AddPeer_def Run_def Load_def get_current_ms_def get_ranged_random_def sless_i64)
  moreover have "length (peers ?l) = 2" "currentTerm ?l = 0"
    by (simp_all add: waiting_node_def MakeNode_def new_SRaft_def AddPeer_def Run_def Load_def get_current_ms_def
        get_ranged_random_def)
  ultimately show ?thesis using election_succeeds [where fs = "[?f]", OF l] by fastforce
qed

end
