(* ===== verification/NetUtil.thy ===== *)
theory NetUtil
  imports Prelude
begin

text \<open>
  The small classes the network library stands on: \<open>Timestamp\<close>, \<open>Logger\<close>, \<open>InetAddress\<close> and
  \<open>Socket\<close> (each a \<open>.h\<close> and a \<open>.cc\<close> of that name), and what they use of \<open>printf\<close>.

  \<open>localtime\<close>, \<open>inet_addr\<close> and the socket calls are parameters. \<open>inet_ntop\<close> for \<open>AF_INET\<close> is written out: the
  bytes of the address in memory order, in decimal, with dots. The host is little-endian, as the
  x86 Linux the build files aim at, so \<open>htons\<close> and \<open>ntohs\<close> swap the two bytes.
\<close>

subsection \<open>Formatted output\<close>

definition digit :: "nat \<Rightarrow> char" where "digit n = char_of (48 + n)"
definition digit_value :: "char \<Rightarrow> nat" where "digit_value c = of_char c - 48"
definition is_digit :: "char \<Rightarrow> bool" where "is_digit c \<longleftrightarrow> 48 \<le> (of_char c :: nat) \<and> of_char c < (58 :: nat)"

text \<open>\<open>%u\<close>; \<open>%d\<close>; and \<open>%0<w>d\<close>.\<close>

fun decimal :: "nat \<Rightarrow> string" where
  "decimal n = (if n < 10 then [digit n] else decimal (n div 10) @ [digit (n mod 10)])"

declare decimal.simps [simp del]

definition fmt_d :: "int \<Rightarrow> string" where
  "fmt_d i = (if i < 0 then CHR ''-'' # decimal (nat (- i)) else decimal (nat i))"

definition fmt_0d :: "nat \<Rightarrow> int \<Rightarrow> string" where
  "fmt_0d w i =
     (if i < 0 then CHR ''-'' # (let s = decimal (nat (- i)) in replicate (w - 1 - length s) (CHR ''0'') @ s)
      else let s = decimal (nat i) in replicate (w - length s) (CHR ''0'') @ s)"

text \<open>\<open>snprintf\<close> into \<open>n\<close> bytes keeps \<open>n - 1\<close> of them; the string made of the array ends at the first null.\<close>

definition c_str :: "string \<Rightarrow> string" where
  "c_str s = takeWhile (\<lambda>c. c \<noteq> CHR 0x00) s"

definition snprintf :: "nat \<Rightarrow> string \<Rightarrow> string" where
  "snprintf n s = c_str (take (n - 1) s)"

fun read_decimal :: "nat \<Rightarrow> string \<Rightarrow> nat" where
  "read_decimal a [] = a"
| "read_decimal a (c # cs) = read_decimal (10 * a + digit_value c) cs"

lemma read_decimal_append: "read_decimal a (s @ t) = read_decimal (read_decimal a s) t"
  by (induction s arbitrary: a) auto

lemma digit_facts [simp]:
  assumes "n < 10"
  shows "digit_value (digit n) = n" "is_digit (digit n)"
  using assms by (simp_all add: digit_def digit_value_def is_digit_def)

lemma decimal_ne [simp]: "decimal n \<noteq> []"
  by (subst decimal.simps) simp

lemma read_decimal_decimal: "read_decimal 0 (decimal n) = n"
proof (induction n rule: decimal.induct)
  case (1 n)
  show ?case
  proof (cases "n < 10")
    case True
    then show ?thesis by (subst decimal.simps) simp
  next
    case False
    then have "read_decimal 0 (decimal n) = 10 * (n div 10) + n mod 10"
      using 1 by (subst decimal.simps) (simp add: read_decimal_append)
    then show ?thesis by simp
  qed
qed

lemma decimal_inj: "decimal m = decimal n \<Longrightarrow> m = n"
  by (metis read_decimal_decimal)

lemma decimal_digits: "c \<in> set (decimal n) \<Longrightarrow> is_digit c"
proof (induction n rule: decimal.induct)
  case (1 n)
  then show ?case by (subst (asm) (2) decimal.simps) (auto split: if_splits)
qed

lemma decimal_length: "n < 10 ^ k \<Longrightarrow> 0 < k \<Longrightarrow> length (decimal n) \<le> k"
proof (induction n arbitrary: k rule: decimal.induct)
  case (1 n)
  show ?case
  proof (cases "n < 10")
    case True
    then show ?thesis using 1(3) by (subst decimal.simps) simp
  next
    case False
    then obtain j where k: "k = Suc j" "0 < j" using 1(2) by (cases k; cases "k - 1") auto
    then have "n div 10 < 10 ^ j" using 1(2) by (simp add: less_mult_imp_div_less mult.commute)
    then have "length (decimal (n div 10)) \<le> j" by (rule 1(1) [OF False _ k(2)])
    then show ?thesis using False k(1) by (subst decimal.simps) simp
  qed
qed

lemma is_digit_not [simp]: "\<not> is_digit (CHR ''.'')" "\<not> is_digit (CHR '':'')" "\<not> is_digit (CHR 0x00)"
  "\<not> is_digit (CHR ''-'')" "\<not> is_digit (CHR ''/'')"
  by (simp_all add: is_digit_def)

text \<open>A decimal number followed by something that is no digit is read back.\<close>

lemma decimal_append_inj:
  assumes "decimal m @ s = decimal n @ t"
    and "s = [] \<or> \<not> is_digit (hd s)" "t = [] \<or> \<not> is_digit (hd t)"
  shows "m = n \<and> s = t"
proof -
  have "takeWhile is_digit (decimal k @ u) = decimal k" if "u = [] \<or> \<not> is_digit (hd u)" for k u
    using that decimal_digits by (cases u) (auto simp: takeWhile_append)
  then have "decimal m = decimal n" using assms by metis
  then show ?thesis using assms(1) decimal_inj by auto
qed

lemma c_str_id: "(CHR 0x00) \<notin> set s \<Longrightarrow> c_str s = s"
  by (auto simp: c_str_def takeWhile_eq_all_conv)

lemma decimal_no_null: "(CHR 0x00) \<notin> set (decimal n)"
  using decimal_digits is_digit_not(3) by blast

lemma fmt_0d_nat:
  assumes "0 \<le> i" "i < 10 ^ w" "0 < w"
  shows "length (fmt_0d w i) = w" "read_decimal 0 (fmt_0d w i) = nat i" "(CHR 0x00) \<notin> set (fmt_0d w i)"
proof -
  have z: "read_decimal 0 (replicate k (CHR ''0'')) = 0" for k
    by (induction k) (simp_all add: digit_value_def)
  have d: "is_digit (CHR ''0'')" by (simp add: is_digit_def)
  have l: "length (decimal (nat i)) \<le> w" using assms decimal_length [of "nat i" w] by (simp add: nat_less_iff)
  show "length (fmt_0d w i) = w" using assms(1) l by (simp add: fmt_0d_def Let_def)
  show "read_decimal 0 (fmt_0d w i) = nat i"
    using assms(1) by (simp add: fmt_0d_def Let_def read_decimal_append z read_decimal_decimal)
  have "c \<in> set (fmt_0d w i) \<Longrightarrow> is_digit c" for c
    using assms(1) d decimal_digits by (auto simp: fmt_0d_def Let_def)
  then show "(CHR 0x00) \<notin> set (fmt_0d w i)" using is_digit_not(3) by blast
qed

subsection \<open>Time stamps\<close>

text \<open>\<open>now\<close> gets what \<open>to_time_t\<close> gives: the field named after microseconds holds seconds.\<close>

record Timestamp =
  microSecondSinceEpoch :: i64

definition Timestamp_default :: Timestamp where
  "Timestamp_default = \<lparr>microSecondSinceEpoch = 0\<rparr>"

definition Timestamp_of :: "i64 \<Rightarrow> Timestamp" where
  "Timestamp_of t = \<lparr>microSecondSinceEpoch = t\<rparr>"

definition Timestamp_now :: "i64 \<Rightarrow> Timestamp" where
  "Timestamp_now currentTime = Timestamp_of currentTime"

record tm =
  tm_year :: int
  tm_mon :: int
  tm_mday :: int
  tm_hour :: int
  tm_min :: int
  tm_sec :: int

definition time_text :: "tm \<Rightarrow> string" where
  "time_text t = fmt_0d 4 (tm_year t + 1900) @ ''/'' @ fmt_0d 2 (tm_mon t + 1) @ ''/'' @ fmt_0d 2 (tm_mday t) @
     '' '' @ fmt_0d 2 (tm_hour t) @ '':'' @ fmt_0d 2 (tm_min t) @ '':'' @ fmt_0d 2 (tm_sec t)"

definition toString :: "(i64 \<Rightarrow> tm option) \<Rightarrow> Timestamp \<Rightarrow> string result" where
  "toString localtime ts =
     (case localtime (microSecondSinceEpoch ts) of
        None \<Rightarrow> Inl NullDeref
      | Some timeinfo \<Rightarrow> Inr (snprintf 128 (time_text timeinfo)))"

definition tm_ok :: "tm \<Rightarrow> bool" where
  "tm_ok t \<longleftrightarrow> 0 \<le> tm_year t + 1900 \<and> tm_year t + 1900 \<le> 9999 \<and> 0 \<le> tm_mon t \<and> tm_mon t \<le> 11 \<and>
     0 \<le> tm_mday t \<and> tm_mday t \<le> 31 \<and> 0 \<le> tm_hour t \<and> tm_hour t \<le> 23 \<and>
     0 \<le> tm_min t \<and> tm_min t \<le> 59 \<and> 0 \<le> tm_sec t \<and> tm_sec t \<le> 60"

text \<open>The six numbers of a time text, read off their columns.\<close>

definition read_time :: "string \<Rightarrow> tm" where
  "read_time s = (let num = (\<lambda>i n. int (read_decimal 0 (take n (drop i s))))
     in \<lparr>tm_year = num 0 4 - 1900, tm_mon = num 5 2 - 1, tm_mday = num 8 2, tm_hour = num 11 2,
         tm_min = num 14 2, tm_sec = num 17 2\<rparr>)"

lemma time_text_columns:
  assumes "length y = 4" "length mo = 2" "length d = 2" "length h = 2" "length mi = 2" "length s = 2"
  defines "x \<equiv> y @ ''/'' @ mo @ ''/'' @ d @ '' '' @ h @ '':'' @ mi @ '':'' @ s"
  shows "length x = 19" "take 4 (drop 0 x) = y" "take 2 (drop 5 x) = mo" "take 2 (drop 8 x) = d"
    "take 2 (drop 11 x) = h" "take 2 (drop 14 x) = mi" "take 2 (drop 17 x) = s"
  using assms by (simp_all add: x_def)

text \<open>
  A time stamp prints as exactly 19 characters, from which the broken-down time is read back: neither
  the buffer of 128 bytes nor a field of the wrong width cuts or shifts anything.
\<close>

lemma time_text_ok:
  assumes "localtime (microSecondSinceEpoch ts) = Some t" "tm_ok t"
  shows "\<exists>s. toString localtime ts = Inr s \<and> length s = 19 \<and> read_time s = t"
proof -
  let ?y = "fmt_0d 4 (tm_year t + 1900)" and ?mo = "fmt_0d 2 (tm_mon t + 1)" and ?d = "fmt_0d 2 (tm_mday t)"
    and ?h = "fmt_0d 2 (tm_hour t)" and ?mi = "fmt_0d 2 (tm_min t)" and ?s = "fmt_0d 2 (tm_sec t)"
  note ok = assms(2) [unfolded tm_ok_def]
  have y: "length ?y = 4" "read_decimal 0 ?y = nat (tm_year t + 1900)" "(CHR 0x00) \<notin> set ?y"
    using fmt_0d_nat [of "tm_year t + 1900" 4] ok by simp_all
  have two: "length (fmt_0d 2 i) = 2" "read_decimal 0 (fmt_0d 2 i) = nat i" "(CHR 0x00) \<notin> set (fmt_0d 2 i)"
    if "0 \<le> i" "i \<le> 60" for i
    using fmt_0d_nat [of i 2] that by simp_all
  have r: "0 \<le> tm_mon t + 1" "tm_mon t + 1 \<le> 60" "0 \<le> tm_mday t" "tm_mday t \<le> 60" "0 \<le> tm_hour t"
    "tm_hour t \<le> 60" "0 \<le> tm_min t" "tm_min t \<le> 60" "0 \<le> tm_sec t" "tm_sec t \<le> 60" using ok by simp_all
  note mo = two [OF r(1,2)] and d = two [OF r(3,4)] and h = two [OF r(5,6)] and mi = two [OF r(7,8)]
    and se = two [OF r(9,10)]
  note col = time_text_columns [OF y(1) mo(1) d(1) h(1) mi(1) se(1)]
  have "(CHR 0x00) \<notin> set (time_text t)"
    by (simp add: time_text_def y(3) mo(3) d(3) h(3) mi(3) se(3))
  then have str: "toString localtime ts = Inr (time_text t)"
    using assms(1) col(1) by (simp add: toString_def snprintf_def c_str_id time_text_def)
  have "int (nat (tm_year t + 1900)) - 1900 = tm_year t" "int (nat (tm_mon t + 1)) - 1 = tm_mon t"
    using ok by simp_all
  then have "read_time (time_text t) = t"
    unfolding time_text_def read_time_def Let_def col y(2) mo(2) d(2) h(2) mi(2) se(2) using ok by simp
  then show ?thesis using str col(1) unfolding time_text_def [symmetric] by blast
qed

subsection \<open>The logger\<close>

text \<open>
  One \<open>Logger\<close> serves the process. The macros set the level and then log, in two calls; \<open>text\<close> is what
  the format and its arguments give. \<open>LOG_FATAL\<close> ends the process. \<open>LOG_DEBUG\<close> is empty unless its
  switch is defined.
\<close>

datatype logLvel = INFO | ERROR | FATAL | DEBUG

primrec level_number :: "logLvel \<Rightarrow> int" where
  "level_number INFO = 0"
| "level_number ERROR = 1"
| "level_number FATAL = 2"
| "level_number DEBUG = 3"

record Logger =
  logLevel :: int
  cout :: string

definition setLogLevel :: "int \<Rightarrow> Logger \<Rightarrow> Logger" where
  "setLogLevel level l = l\<lparr>logLevel := level\<rparr>"

definition level_prefix :: "int \<Rightarrow> string" where
  "level_prefix level =
     (if level = level_number INFO then ''[INFO]''
      else if level = level_number ERROR then ''[ERROR]''
      else if level = level_number FATAL then ''[FATAL]''
      else if level = level_number DEBUG then ''[DEBUG]''
      else [])"

definition Logger_log :: "(i64 \<Rightarrow> tm option) \<Rightarrow> i64 \<Rightarrow> string \<Rightarrow> Logger \<Rightarrow> Logger result" where
  "Logger_log localtime time msg l =
     (let l = l\<lparr>cout := cout l @ level_prefix (logLevel l)\<rparr>
      in rbind (toString localtime (Timestamp_now time))
           (\<lambda>t. Inr (l\<lparr>cout := cout l @ t @ '' : '' @ msg @ [CHR 0x0A]\<rparr>)))"

definition LOG :: "logLvel \<Rightarrow> (i64 \<Rightarrow> tm option) \<Rightarrow> i64 \<Rightarrow> string \<Rightarrow> Logger \<Rightarrow> Logger result" where
  "LOG level localtime time text l =
     Logger_log localtime time (snprintf 1024 text) (setLogLevel (level_number level) l)"

definition LOG_FATAL :: "(i64 \<Rightarrow> tm option) \<Rightarrow> i64 \<Rightarrow> string \<Rightarrow> Logger \<Rightarrow> Logger result" where
  "LOG_FATAL localtime time text l = rbind (LOG FATAL localtime time text l) (\<lambda>l. Inl Exits)"

definition LOG_DEBUG :: "bool \<Rightarrow> (i64 \<Rightarrow> tm option) \<Rightarrow> i64 \<Rightarrow> string \<Rightarrow> Logger \<Rightarrow> Logger result" where
  "LOG_DEBUG enabled localtime time text l = (if enabled then LOG DEBUG localtime time text l else Inr l)"

lemma snprintf_length: "length (snprintf n s) \<le> n - 1"
  by (simp add: snprintf_def c_str_def) (metis length_take min.bounded_iff length_takeWhile_le)

lemma LOG_line:
  assumes "localtime time = Some t" "tm_ok t"
  shows "\<exists>ts. LOG level localtime time text l =
     Inr (l\<lparr>logLevel := level_number level,
            cout := cout l @ level_prefix (level_number level) @ ts @ '' : '' @ snprintf 1024 text @ [CHR 0x0A]\<rparr>)"
  using time_text_ok [OF _ assms(2), of localtime "Timestamp_now time"] assms(1)
  by (auto simp: LOG_def Logger_log_def setLogLevel_def Timestamp_now_def Timestamp_of_def)

subsection \<open>Addresses\<close>

record sockaddr_in =
  sin_family :: "16 word"
  sin_port :: "16 word"
  s_addr :: "32 word"

definition AF_INET :: "16 word" where "AF_INET = 2"

definition htons :: "16 word \<Rightarrow> 16 word" where
  "htons w = push_bit 8 w OR drop_bit 8 w"

definition ntohs :: "16 word \<Rightarrow> 16 word" where
  "ntohs w = push_bit 8 w OR drop_bit 8 w"

definition addr_byte :: "nat \<Rightarrow> 32 word \<Rightarrow> nat" where
  "addr_byte i w = take_bit 8 (unat (drop_bit (8 * i) w))"

definition inet_ntop :: "32 word \<Rightarrow> string" where
  "inet_ntop w = decimal (addr_byte 0 w) @ ''.'' @ decimal (addr_byte 1 w) @ ''.'' @
     decimal (addr_byte 2 w) @ ''.'' @ decimal (addr_byte 3 w)"

definition new_InetAddress :: "(string \<Rightarrow> 32 word) \<Rightarrow> 16 word \<Rightarrow> string \<Rightarrow> sockaddr_in" where
  "new_InetAddress inet_addr port ip =
     \<lparr>sin_family = AF_INET, sin_port = htons port, s_addr = inet_addr (c_str ip)\<rparr>"

definition ToIp :: "sockaddr_in \<Rightarrow> string" where
  "ToIp a = inet_ntop (s_addr a)"

text \<open>\<open>sprintf\<close> writes behind the address in the 64 bytes, the final null included.\<close>

definition ToIpPort :: "sockaddr_in \<Rightarrow> string result" where
  "ToIpPort a =
     (let buf = inet_ntop (s_addr a);
          port = ntohs (sin_port a);
          text = '':'' @ decimal (unat port)
      in if length buf + length text + 1 \<le> 64 then Inr (buf @ text) else Inl OutOfBounds)"

definition ToPort :: "sockaddr_in \<Rightarrow> 16 word" where
  "ToPort a = ntohs (sin_port a)"

lemma ntohs_htons [simp]: "ntohs (htons w) = w"
  by (rule bit_word_eqI) (auto simp: ntohs_def htons_def bit_simps)

lemma htons_ntohs [simp]: "htons (ntohs w) = w"
  by (rule bit_word_eqI) (auto simp: ntohs_def htons_def bit_simps)

lemma addr_byte_less: "addr_byte i w < 256"
  by (simp add: addr_byte_def take_bit_eq_mod)

lemma addr_bytes_inj:
  assumes "\<And>i. i < 4 \<Longrightarrow> addr_byte i v = addr_byte i w"
  shows "v = w"
proof (rule bit_word_eqI)
  fix n assume n: "n < LENGTH(32)"
  then have "n div 8 < 4" by simp
  then have "bit (addr_byte (n div 8) v) (n mod 8) = bit (addr_byte (n div 8) w) (n mod 8)"
    using assms by simp
  then show "bit v n = bit w n" using n by (simp add: addr_byte_def bit_simps)
qed

lemma inet_ntop_length: "length (inet_ntop w) \<le> 15"
proof -
  have "length (decimal (addr_byte i w)) \<le> 3" for i
    using decimal_length [of "addr_byte i w" 3] addr_byte_less [of i w] by simp
  from this [of 0] this [of 1] this [of 2] this [of 3] show ?thesis by (simp add: inet_ntop_def)
qed

lemma inet_ntop_inj:
  assumes eq: "inet_ntop v @ '':'' @ s = inet_ntop w @ '':'' @ t"
  shows "v = w \<and> s = t"
proof -
  note eq1 = eq [unfolded inet_ntop_def append_assoc]
  have 0: "addr_byte 0 v = addr_byte 0 w \<and> ''.'' @ decimal (addr_byte 1 v) @ ''.'' @ decimal (addr_byte 2 v) @
      ''.'' @ decimal (addr_byte 3 v) @ '':'' @ s = ''.'' @ decimal (addr_byte 1 w) @ ''.'' @ decimal (addr_byte 2 w) @
      ''.'' @ decimal (addr_byte 3 w) @ '':'' @ t"
    by (rule decimal_append_inj [OF eq1]) simp_all
  then have 1: "addr_byte 1 v = addr_byte 1 w \<and> ''.'' @ decimal (addr_byte 2 v) @ ''.'' @ decimal (addr_byte 3 v) @
      '':'' @ s = ''.'' @ decimal (addr_byte 2 w) @ ''.'' @ decimal (addr_byte 3 w) @ '':'' @ t"
    by (intro decimal_append_inj) simp_all
  then have 2: "addr_byte 2 v = addr_byte 2 w \<and> ''.'' @ decimal (addr_byte 3 v) @ '':'' @ s =
      ''.'' @ decimal (addr_byte 3 w) @ '':'' @ t"
    by (intro decimal_append_inj) simp_all
  then have 3: "addr_byte 3 v = addr_byte 3 w \<and> '':'' @ s = '':'' @ t"
    by (intro decimal_append_inj) simp_all
  have "addr_byte i v = addr_byte i w" if "i < 4" for i
    using that 0 1 2 3 by (auto simp: less_Suc_eq numeral_eq_Suc)
  then show ?thesis using 3 addr_bytes_inj by auto
qed

lemma decimal_u16: "length (decimal (unat (w :: 16 word))) \<le> 5"
proof -
  have "unat w < 10 ^ 5" using unsigned_less [of w, where 'a = nat] by simp
  then show ?thesis by (rule decimal_length) simp
qed

lemma ToIpPort_ok:
  "\<exists>s. ToIpPort a = Inr s \<and> s = inet_ntop (s_addr a) @ '':'' @ decimal (unat (ToPort a)) \<and> length s \<le> 21"
  using inet_ntop_length [of "s_addr a"] decimal_u16 [of "ntohs (sin_port a)"]
  by (simp add: ToIpPort_def ToPort_def Let_def)

text \<open>
  An address prints in at most 21 characters, so writing the port behind the address stays
  inside the 64 bytes, and the text determines the address and the port: two socket addresses
  print alike exactly when both agree.
\<close>
lemma ToIpPort_determines:
  "\<exists>s. ToIpPort a = Inr s \<and> length s \<le> 21 \<and>
     (ToIpPort b = Inr s \<longleftrightarrow> s_addr b = s_addr a \<and> ToPort b = ToPort a)"
proof -
  obtain s where s: "ToIpPort a = Inr s" "s = inet_ntop (s_addr a) @ '':'' @ decimal (unat (ToPort a))"
    "length s \<le> 21" using ToIpPort_ok by blast
  obtain t where t: "ToIpPort b = Inr t" "t = inet_ntop (s_addr b) @ '':'' @ decimal (unat (ToPort b))"
    using ToIpPort_ok by blast
  have "t = s \<longleftrightarrow> s_addr b = s_addr a \<and> ToPort b = ToPort a"
    unfolding s(2) t(2) using inet_ntop_inj decimal_inj word_unat_eq_iff by metis
  then show ?thesis using s t(1) by auto
qed

text \<open>The constructor keeps its port; only a port and an address given in dotted form are printed back.\<close>

lemma ToPort_new_InetAddress: "ToPort (new_InetAddress inet_addr port ip) = port"
  by (simp add: ToPort_def new_InetAddress_def)

subsection \<open>Sockets\<close>

text \<open>
  A \<open>Socket\<close> is its descriptor; the system calls act on the kernel state \<open>'k\<close>. \<open>Accept\<close> hands the
  call an uninitialised length, the parameter \<open>len\<close>.
\<close>

datatype sockopt = TCP_NODELAY | SO_REUSEADDR | SO_REUSEPORT | SO_KEEPALIVE

definition BindAddress :: "(int \<Rightarrow> sockaddr_in \<Rightarrow> 'k \<Rightarrow> int \<times> 'k) \<Rightarrow> sockaddr_in \<Rightarrow> int \<Rightarrow> 'k \<Rightarrow> 'k result" where
  "BindAddress bind localaddress sockfd k =
     (let (r, k) = bind sockfd localaddress k in if r \<noteq> 0 then Inl Exits else Inr k)"

definition Listen :: "(int \<Rightarrow> int \<Rightarrow> 'k \<Rightarrow> int \<times> 'k) \<Rightarrow> int \<Rightarrow> 'k \<Rightarrow> 'k result" where
  "Listen listen sockfd k = (let (r, k) = listen sockfd 1024 k in if r \<noteq> 0 then Inl Exits else Inr k)"

definition Accept :: "(int \<Rightarrow> int \<Rightarrow> 'k \<Rightarrow> int \<times> sockaddr_in \<times> 'k) \<Rightarrow> int \<Rightarrow> int \<Rightarrow> sockaddr_in \<Rightarrow> 'k \<Rightarrow>
    int \<times> sockaddr_in \<times> 'k" where
  "Accept accept len sockfd peeraddress k =
     (let (confd, addr, k) = accept sockfd len k
      in (confd, if 0 \<le> confd then addr else peeraddress, k))"

definition ShutdownWrite :: "(int \<Rightarrow> 'k \<Rightarrow> int \<times> 'k) \<Rightarrow> int \<Rightarrow> 'k \<Rightarrow> 'k" where
  "ShutdownWrite shutdown sockfd k = snd (shutdown sockfd k)"

definition SetTcpNoDelay :: "(int \<Rightarrow> sockopt \<Rightarrow> int \<Rightarrow> 'k \<Rightarrow> 'k) \<Rightarrow> bool \<Rightarrow> int \<Rightarrow> 'k \<Rightarrow> 'k" where
  "SetTcpNoDelay setsockopt on sockfd k = setsockopt sockfd TCP_NODELAY (if on then 1 else 0) k"

definition SetReuseAddr :: "(int \<Rightarrow> sockopt \<Rightarrow> int \<Rightarrow> 'k \<Rightarrow> 'k) \<Rightarrow> bool \<Rightarrow> int \<Rightarrow> 'k \<Rightarrow> 'k" where
  "SetReuseAddr setsockopt on sockfd k = setsockopt sockfd SO_REUSEADDR (if on then 1 else 0) k"

definition SetReusePort :: "(int \<Rightarrow> sockopt \<Rightarrow> int \<Rightarrow> 'k \<Rightarrow> 'k) \<Rightarrow> bool \<Rightarrow> int \<Rightarrow> 'k \<Rightarrow> 'k" where
  "SetReusePort setsockopt on sockfd k = setsockopt sockfd SO_REUSEPORT (if on then 1 else 0) k"

definition SetKeepAlive :: "(int \<Rightarrow> sockopt \<Rightarrow> int \<Rightarrow> 'k \<Rightarrow> 'k) \<Rightarrow> bool \<Rightarrow> int \<Rightarrow> 'k \<Rightarrow> 'k" where
  "SetKeepAlive setsockopt on sockfd k = setsockopt sockfd SO_KEEPALIVE (if on then 1 else 0) k"

definition delete_Socket :: "(int \<Rightarrow> 'k \<Rightarrow> 'k) \<Rightarrow> int \<Rightarrow> 'k \<Rightarrow> 'k" where
  "delete_Socket close_fd sockfd k = close_fd sockfd k"
end
