(* ===== verification/TestCluster.thy ===== *)
theory TestCluster
  imports ClientServer ElectionRound NetUtil
begin

text \<open>
  The cluster of \<open>utils_test.h\<close> that the test driver runs: \<open>n\<close> key-value servers on consecutive ports,
  each with the Raft addresses of the others as its peers, and a client that knows them all. The
  clocks, the random sources and the persisted files of the servers are parameters.
\<close>

definition basePort :: u64 where "basePort = 9000"
definition baseRaftPort :: u64 where "baseRaftPort = 8000"

definition local_addr :: "u64 \<Rightarrow> nat \<Rightarrow> string" where
  "local_addr port i = ''127.0.0.1:'' @ decimal (unat (port + of_nat i))"

definition MakeServers :: "nat \<Rightarrow> (nat \<Rightarrow> nat \<Rightarrow> u64) \<Rightarrow> (nat \<Rightarrow> nat \<Rightarrow> u64 \<Rightarrow> u64 \<Rightarrow> u64) \<Rightarrow>
    (nat \<Rightarrow> PersistRecord option) \<Rightarrow> Skvserver list" where
  "MakeServers n clk rnd files =
     (let servers = map (\<lambda>i. let serverAddr = local_addr basePort i; raftAddr = local_addr baseRaftPort i
                             in new_Skvserver serverAddr raftAddr (clk i) (rnd i) (files i)) [0..<n]
      in map (\<lambda>s. fold (\<lambda>t s. if kv_addrStr s \<noteq> kv_addrStr t then addPeer (raftAddrStr t) s else s) servers s) servers)"

definition RunServerRaft :: "Skvserver list \<Rightarrow> Skvserver list" where
  "RunServerRaft servers = map run servers"

definition InitClient :: "Skvserver list \<Rightarrow> Skvclient \<Rightarrow> Skvclient" where
  "InitClient servers client = fold (\<lambda>s client. AddServers (kv_addrStr s) client) servers client"

definition PickLeader :: "SRaft list \<Rightarrow> SRaft option" where
  "PickLeader nds = find (\<lambda>nd. state nd = LEADER) nds"

lemma PickLeader_cases:
  "(case PickLeader nds of Some nd \<Rightarrow> nd \<in> set nds \<and> state nd = LEADER | None \<Rightarrow> \<forall>nd \<in> set nds. state nd \<noteq> LEADER)"
  by (auto simp: PickLeader_def find_Some_iff find_None_iff split: option.split)

subsection \<open>What it builds\<close>

lemma local_addr_inj:
  assumes "local_addr port i = local_addr port j" "i < 2 ^ 64" "j < 2 ^ 64"
  shows "i = j"
proof -
  have "unat (port + of_nat i) = unat (port + of_nat j)"
    using assms(1) by (intro decimal_inj) (simp add: local_addr_def)
  then have "unat (of_nat i :: u64) = unat (of_nat j :: u64)" by (metis unsigned_word_eqI add_left_cancel)
  then show ?thesis using assms(2,3) by (simp only: unat_of_nat_u64)
qed

abbreviation fresh_peer :: "string \<Rightarrow> string \<times> SRaftPeer option" where
  "fresh_peer a \<equiv> (a, Some \<lparr>peer_name = a, peerSRaftClient = a, nextIndex = 0, matchIndex = -1\<rparr>)"

lemma update_absent: "k \<notin> fst ` set ps \<Longrightarrow> AList.update k v ps = ps @ [(k, v)]"
  by (induction ps) auto

lemma fold_addPeer:
  assumes "distinct (map fst (peers (node s)) @ map raftAddrStr ts)"
  shows "fold (\<lambda>t s. if kv_addrStr s \<noteq> kv_addrStr t then addPeer (raftAddrStr t) s else s) ts s =
    s\<lparr>node := (node s)\<lparr>peers := peers (node s) @
        map (\<lambda>t. fresh_peer (raftAddrStr t)) (filter (\<lambda>t. kv_addrStr s \<noteq> kv_addrStr t) ts)\<rparr>\<rparr>"
  using assms
proof (induction ts arbitrary: s)
  case (Cons t ts)
  show ?case
  proof (cases "kv_addrStr s = kv_addrStr t")
    case True
    then show ?thesis using Cons.IH [of s] Cons.prems by simp
  next
    case False
    let ?s = "addPeer (raftAddrStr t) s"
    have ps: "peers (node ?s) = peers (node s) @ [fresh_peer (raftAddrStr t)]" "kv_addrStr ?s = kv_addrStr s"
      using Cons.prems by (simp_all add: addPeer_def AddPeer_def update_absent)
    then have "distinct (map fst (peers (node ?s)) @ map raftAddrStr ts)" using Cons.prems by auto
    from Cons.IH [OF this] show ?thesis using False ps by (simp add: addPeer_def AddPeer_def)
  qed
qed simp

definition other_addrs :: "nat \<Rightarrow> nat \<Rightarrow> string list" where
  "other_addrs n i = map (local_addr baseRaftPort) (filter (\<lambda>j. j \<noteq> i) [0..<n])"

definition started_server :: "nat \<Rightarrow> nat \<Rightarrow> (nat \<Rightarrow> u64) \<Rightarrow> (nat \<Rightarrow> u64 \<Rightarrow> u64 \<Rightarrow> u64) \<Rightarrow> PersistRecord option \<Rightarrow> Skvserver" where
  "started_server n i clk rnd file =
     (let s = new_Skvserver (local_addr basePort i) (local_addr baseRaftPort i) clk rnd file
      in run (s\<lparr>node := (node s)\<lparr>peers := map fresh_peer (other_addrs n i)\<rparr>\<rparr>))"

lemma local_addr_distinct: "n < 2 ^ 63 \<Longrightarrow> distinct (map (local_addr port) [0..<n])"
  by (auto simp: distinct_map inj_on_def dest!: local_addr_inj)

lemma MakeServers_started:
  assumes "n < 2 ^ 63"
  shows "RunServerRaft (MakeServers n clk rnd files) = map (\<lambda>i. started_server n i (clk i) (rnd i) (files i)) [0..<n]"
proof -
  let ?sv = "\<lambda>i. new_Skvserver (local_addr basePort i) (local_addr baseRaftPort i) (clk i) (rnd i) (files i)"
  have a: "kv_addrStr (?sv i) = local_addr basePort i" "raftAddrStr (?sv i) = local_addr baseRaftPort i" "peers (node (?sv i)) = []" for i
    by (simp_all add: new_Skvserver_def new_SRaft_def)
  have "filter (\<lambda>t. kv_addrStr (?sv i) \<noteq> kv_addrStr t) (map ?sv [0..<n]) = map ?sv (filter (\<lambda>j. j \<noteq> i) [0..<n])" if "i < n" for i
  proof -
    have "local_addr basePort i \<noteq> local_addr basePort j \<longleftrightarrow> j \<noteq> i" if "j < n" for j
      using local_addr_inj [of basePort i j] assms \<open>i < n\<close> that by auto
    then have "filter ((\<lambda>t. kv_addrStr (?sv i) \<noteq> kv_addrStr t) \<circ> ?sv) [0..<n] = filter (\<lambda>j. j \<noteq> i) [0..<n]"
      by (intro filter_cong) (simp_all add: a)
    then show ?thesis by (simp only: filter_map)
  qed
  then show ?thesis using local_addr_distinct [OF assms, of baseRaftPort]
    by (auto simp: RunServerRaft_def MakeServers_def Let_def fold_addPeer a comp_def started_server_def other_addrs_def)
qed

lemma started_node:
  "running (node (started_server n i clk rnd file))" "state (node (started_server n i clk rnd file)) = FOLLOWER"
  "peers (node (started_server n i clk rnd None)) = map fresh_peer (other_addrs n i)"
  "logs (node (started_server n i clk rnd None)) = []" "currentTerm (node (started_server n i clk rnd None)) = 0"
  "addrStr (node (started_server n i clk rnd None)) = local_addr baseRaftPort i" "fs_ok (node (started_server n i clk rnd None))"
  "commitIndex (node (started_server n i clk rnd None)) = -1" "lastApplied (node (started_server n i clk rnd None)) = -1"
  "lastIncludeIndex (node (started_server n i clk rnd None)) = -1" "lastIncludeTerm (node (started_server n i clk rnd None)) = 0"
  "channel (node (started_server n i clk rnd None)) = Some []" "kv_addrStr (started_server n i clk rnd file) = local_addr basePort i"
  "tobeDestroy (started_server n i clk rnd file) = False" "recieveMsgThread (started_server n i clk rnd file) = LoopTest"
  "kvDB (started_server n i clk rnd file) = [''hello'' \<mapsto> ''world'']"
  "clock (node (started_server n i clk rnd file)) = clk" "ticks (node (started_server n i clk rnd file)) = 1"
  "dueElection (node (started_server n i clk rnd file)) = clk 0 + rnd 0 interval_election_low interval_election_high"
  by (auto simp: started_server_def new_Skvserver_def new_SRaft_def run_def Run_def Load_def get_current_ms_def
      get_ranged_random_def Let_def split: option.splits)

lemma fresh_peers:
  assumes "n < 2 ^ 63" "i < n"
  defines "ps \<equiv> map fresh_peer (other_addrs n i)"
  shows "all_live ps" "distinct (map fst ps)" "length ps = n - 1" "(k, Some p) \<in> set ps \<Longrightarrow> fresh_peer k = (k, Some p)"
    "j < n \<Longrightarrow> j \<noteq> i \<Longrightarrow> map_of ps (local_addr baseRaftPort j) = Some (snd (fresh_peer (local_addr baseRaftPort j)))"
proof -
  have fst: "map fst ps = other_addrs n i" by (simp add: ps_def comp_def)
  show "all_live ps" "(k, Some p) \<in> set ps \<Longrightarrow> fresh_peer k = (k, Some p)" by (auto simp: ps_def all_live_def)
  have "distinct (other_addrs n i)"
    using local_addr_distinct [OF assms(1), of baseRaftPort] unfolding other_addrs_def
    by (auto simp: distinct_map inj_on_def)
  then show d: "distinct (map fst ps)" by (simp add: fst)
  have "length (filter (\<lambda>j. j \<noteq> i) [0..<n]) = card ({j. j \<noteq> i} \<inter> set [0..<n])" by (rule distinct_length_filter) simp
  also have "{j. j \<noteq> i} \<inter> set [0..<n] = {0..<n} - {i}" by auto
  finally show "length ps = n - 1" using assms(2) by (simp add: ps_def other_addrs_def)
  show "map_of ps (local_addr baseRaftPort j) = Some (snd (fresh_peer (local_addr baseRaftPort j)))" if "j < n" "j \<noteq> i"
    by (rule map_of_is_SomeI [OF d]) (use that in \<open>auto simp: ps_def other_addrs_def\<close>)
qed

lemma InitClient_named:
  "named_servers (InitClient servers new_Skvclient)"
  "fst ` set (kv_servers (InitClient servers new_Skvclient)) = kv_addrStr ` set servers"
proof -
  have i: "InitClient servers c = fold AddServers (map kv_addrStr servers) c" for c by (simp add: InitClient_def fold_map comp_def)
  show "named_servers (InitClient servers new_Skvclient)" unfolding i by (rule named_servers_new)
  have "fst ` set (kv_servers (fold AddServers as c)) = set as \<union> fst ` set (kv_servers c)" for as c
    by (induction as arbitrary: c) (auto simp: AddServers_def dom_update)
  then show "fst ` set (kv_servers (InitClient servers new_Skvclient)) = kv_addrStr ` set servers"
    unfolding i by (simp add: new_Skvclient_def)
qed

subsection \<open>The first election\<close>

text \<open>The servers with some of their nodes replaced, and the server at an address.\<close>

fun put_back :: "nat list \<Rightarrow> SRaft list \<Rightarrow> Skvserver list \<Rightarrow> Skvserver list" where
  "put_back (j # js) (f # fs) svs = put_back js fs (svs[j := (svs ! j)\<lparr>node := f\<rparr>])"
| "put_back js fs svs = svs"

definition server_at :: "Skvserver list \<Rightarrow> string \<Rightarrow> Skvserver" where
  "server_at svs k = the (find (\<lambda>s. kv_addrStr s = k) svs)"

lemma put_back_nth:
  assumes "distinct js" "length fs = length js" "set js \<subseteq> {..<length svs}"
  shows "length (put_back js fs svs) = length svs"
    "m < length js \<Longrightarrow> put_back js fs svs ! (js ! m) = (svs ! (js ! m))\<lparr>node := fs ! m\<rparr>"
    "j \<notin> set js \<Longrightarrow> put_back js fs svs ! j = svs ! j"
  using assms
proof (induction js fs svs arbitrary: m j rule: put_back.induct)
  case (1 i js f fs svs)
  { case 1 then show ?case using "1.IH"(1) by auto }
  { case 2
    show ?case
    proof (cases m)
      case 0
      then show ?thesis using "1.IH"(3) [of i] 2 by auto
    next
      case (Suc m')
      then show ?thesis using "1.IH"(2) [of m'] 2 by (auto simp: nth_list_update)
    qed }
  { case 3 then show ?case using "1.IH"(3) by auto }
qed auto

lemma server_at_nth:
  "distinct (map kv_addrStr svs) \<Longrightarrow> j < length svs \<Longrightarrow> server_at svs (kv_addrStr (svs ! j)) = svs ! j"
proof (induction svs arbitrary: j)
  case (Cons s svs)
  show ?case
  proof (cases j)
    case 0
    then show ?thesis by (simp add: server_at_def)
  next
    case (Suc k)
    then have "kv_addrStr (svs ! k) \<in> kv_addrStr ` set svs" using Cons.prems(2) by simp
    then have "kv_addrStr s \<noteq> kv_addrStr (svs ! k)" using Cons.prems(1) by auto
    then show ?thesis using Suc Cons by (simp add: server_at_def)
  qed
qed simp

lemma put_back_addrs: "map kv_addrStr (put_back js fs svs) = map kv_addrStr svs"
proof (induction js fs svs rule: put_back.induct)
  case (1 j js f fs svs)
  have "(map kv_addrStr svs)[j := kv_addrStr (svs ! j)] = map kv_addrStr svs" by (metis list_update_id map_update)
  then show ?case using 1 by (simp add: map_update)
qed auto

lemma fresh_votes_for:
  assumes n: "n < 2 ^ 63" and i: "i < n" and j: "j < n" "j \<noteq> i"
    and svs: "svs = RunServerRaft (MakeServers n clk rnd (\<lambda>_. None))"
  shows "votes_for (node (svs ! i)) (node (svs ! j))"
proof -
  have "local_addr baseRaftPort j \<in> fst ` set (map fresh_peer (other_addrs n i))" using j by (force simp: other_addrs_def)
  then show ?thesis using i j MakeServers_started [OF n]
    by (simp add: votes_for_def svs started_node log_outdated_def election_request_def sless_i64)
qed

lemma fresh_election_won:
  assumes n: "n < 2 ^ 63" "i < n" and svs: "svs = RunServerRaft (MakeServers n clk rnd (\<lambda>_. None))"
    and js: "set js \<subseteq> {..<n} - {i}" "js \<noteq> []" "(n - 1) div 2 < 1 + length js"
    and d: "distinct (map (\<lambda>j. addrStr (node (svs ! j))) js)"
    and clk: "clk i 0 + rnd i 0 interval_election_low interval_election_high < clk i 1"
      "\<not> clk i 2 + interval_election_fail < clk i 1"
  shows "\<exists>l0 fs l. OnTimer (node (svs ! i)) = Inr l0 \<and> vote_round (map (\<lambda>j. node (svs ! j)) js) l0 = (fs, l) \<and>
     state l = LEADER \<and> currentTerm l = 1 \<and> same_store (node (svs ! i)) l \<and>
     list_all2 (voted 1) (map (\<lambda>j. node (svs ! j)) js) fs"
proof -
  let ?l = "node (svs ! i)" and ?fs = "map (\<lambda>j. node (svs ! j)) js"
  have l: "?l = node (started_server n i (clk i) (rnd i) None)" using n by (simp add: svs MakeServers_started)
  have p: "peers ?l = map fresh_peer (other_addrs n i)" by (simp add: l started_node)
  note ps = fresh_peers [OF n, folded p]
  have "\<exists>l' fs' l''. OnTimer ?l = Inr l' \<and> vote_round ?fs l' = (fs', l'') \<and> state l'' = LEADER \<and>
     currentTerm l'' = currentTerm ?l + 1 \<and> same_store ?l l'' \<and> list_all2 (voted (currentTerm ?l + 1)) ?fs fs'"
  proof (rule election_wins)
    show "running ?l" "state ?l = FOLLOWER" "currentTerm ?l \<noteq> -1" "dueElection ?l < clock ?l (ticks ?l)"
      using clk(1) by (simp_all add: l started_node)
    show "\<not> clock ?l (Suc (ticks ?l)) + interval_election_fail < clock ?l (ticks ?l)"
      using clk(2) by (simp add: l started_node numeral_2_eq_2)
    show "votes_for ?l f" if f: "f \<in> set ?fs" for f 
    proof -
      obtain j where "j \<in> set js" "f = node (svs ! j)" using f by auto
      then show ?thesis using js(1) fresh_votes_for [OF n _ _ svs, of j] by blast
    qed
    show "distinct (map addrStr ?fs)" using d by (simp add: comp_def)
    show "all_live (peers ?l)" "distinct (map fst (peers ?l))" by (rule ps(1), rule ps(2))
    show "length (peers ?l) < 2 ^ 63" "length (peers ?l) div 2 < 1 + length ?fs" using n(1) js(3) ps(3) by simp_all
    show "peerSRaftClient q = k" if "(k, Some q) \<in> set (peers ?l)" for k q using ps(4) [OF that] by auto
    show "?fs \<noteq> []" using js(2) by simp
  qed
  moreover have "currentTerm ?l = 0" by (simp add: l started_node)
  ultimately show ?thesis by simp
qed

text \<open>A node that leads after it was started holds nothing and knows that its peers hold nothing.\<close>

lemma fresh_leading:
  assumes n: "n < 2 ^ 63" "i < n" "1 < n" and l: "same_store (node (started_server n i c r None)) l" "state l = LEADER"
  shows "leading l" "peers l = map fresh_peer (other_addrs n i)" "logs l = []"
proof -
  have st: "running l" "logs l = []" "peers l = map fresh_peer (other_addrs n i)" "commitIndex l = -1" "lastApplied l = -1"
    using l(1) by (simp_all add: same_store_def started_node)
  note ps = fresh_peers [OF n(1,2), folded st(3)]
  have ne: "peers l \<noteq> []" "length (peers l) < 2 ^ 63" using ps(3) n(1,3) by auto
  have "peerSRaftClient p = k \<and> 0 \<le> sint (nextIndex p) \<and> sint (nextIndex p) \<le> int (length (logs l)) \<and>
      matchIndex p \<le>s LastLogIndex (logs l)" if "(k, Some p) \<in> set (peers l)" for k p
    using ps(4) [OF that] by (auto simp: st(2) sle_i64)
  moreover have "log_room (logs l)" "wf_log (logs l)" unfolding st(2) by (simp_all add: log_room_def)
  moreover have "lastApplied l \<le>s LastLogIndex (logs l)" "-1 \<le> sint (lastApplied l)" "commitIndex l = lastApplied l"
    unfolding st(2,4,5) by (simp_all add: sle_i64)
  ultimately show "leading l" unfolding leading_def using st(1,2) l(2) ps(1,2) ne by blast
  show "peers l = map fresh_peer (other_addrs n i)" "logs l = []" by (rule st(3), rule st(2))
qed

text \<open>
  The first election of a fresh cluster: server \<open>i\<close> ticks past its due time and the servers \<open>js\<close> answer.
\<close>

lemma fresh_election:
  assumes "n < 2 ^ 63" "i < n" and svs: "svs = RunServerRaft (MakeServers n clk rnd (\<lambda>_. None))"
    and js: "distinct js" "set js \<subseteq> {..<n} - {i}" "js \<noteq> []" "(n - 1) div 2 < 1 + length js"
    and clk: "clk i 0 + rnd i 0 interval_election_low interval_election_high < clk i 1"
      "\<not> clk i 2 + interval_election_fail < clk i 1"
  shows "\<exists>l0 fs l. OnTimer (node (svs ! i)) = Inr l0 \<and> vote_round (map (\<lambda>j. node (svs ! j)) js) l0 = (fs, l) \<and>
     leading l \<and> same_store (node (svs ! i)) l \<and> (\<forall>f \<in> set fs. in_sync l f \<and> state f \<noteq> LEADER) \<and>
     length fs = length js \<and> distinct (map addrStr fs)"
proof -
  let ?fs = "map (\<lambda>j. node (svs ! j)) js"
  have sv: "svs ! j = started_server n j (clk j) (rnd j) None" if "j < n" for j
    using that by (simp add: svs MakeServers_started [OF assms(1)])
  have jn: "j < n" "j \<noteq> i" if "j \<in> set js" for j using js(2) that by auto
  have addrs: "map (\<lambda>j. addrStr (node (svs ! j))) js = map (local_addr baseRaftPort) js" using jn by (simp add: sv started_node)
  have "distinct (map (local_addr baseRaftPort) js)"
    using js(1) jn assms(1) by (fastforce simp: distinct_map inj_on_def dest!: local_addr_inj)
  then have d: "distinct (map (\<lambda>j. addrStr (node (svs ! j))) js)" unfolding addrs .
  obtain l0 fs l where r: "OnTimer (node (svs ! i)) = Inr l0" "vote_round ?fs l0 = (fs, l)" "state l = LEADER" "currentTerm l = 1"
      "same_store (node (svs ! i)) l" "list_all2 (voted 1) ?fs fs"
    using fresh_election_won [OF assms(1,2) svs js(2,3,4) d clk] by blast
  obtain j0 where "j0 \<in> set js" using js(3) by (cases js) auto
  then have "1 < n" using jn [of j0] assms(2) by linarith
  note L = fresh_leading [OF assms(1,2) this r(5) [unfolded sv [OF assms(2)]] r(3)]
  have ln: "length fs = length js" using list_all2_lengthD [OF r(6)] by simp
  have "in_sync l f \<and> state f \<noteq> LEADER" if f: "f \<in> set fs" for f
  proof -
    obtain m where m: "m < length js" "f = fs ! m" using f ln by (auto simp: in_set_conv_nth)
    then have v: "voted 1 (node (svs ! (js ! m))) f" using list_all2_nthD2 [OF r(6), of m] ln by simp
    have j: "js ! m < n" "js ! m \<noteq> i" using jn m(1) by simp_all
    then show ?thesis using v fresh_peers(5) [OF assms(1,2) j] r(4) L(2)
      by (simp add: voted_def same_store_def in_sync_def sv started_node)
  qed
  moreover have "map addrStr fs = map addrStr ?fs"
    using r(6) by (induction rule: list_all2_induct) (auto simp: voted_def same_store_def)
  then have "distinct (map addrStr fs)" using d by (simp add: comp_def)
  ultimately show ?thesis using r(1,2,5) L(1) ln by (intro exI [of _ l0] exI [of _ fs] exI [of _ l]) simp
qed

text \<open>The started servers as a table: their addresses, and the server found at an address.\<close>

lemma started_table:
  fixes n :: nat
  assumes n: "n < 2 ^ 63" and svs: "svs = RunServerRaft (MakeServers n clk rnd (\<lambda>_. None))"
  shows "length svs = n" "j < n \<Longrightarrow> svs ! j = started_server n j (clk j) (rnd j) None"
    "map kv_addrStr svs = map (local_addr basePort) [0..<n]"
    "map kv_addrStr svs' = map kv_addrStr svs \<Longrightarrow> j < n \<Longrightarrow> server_at svs' (local_addr basePort j) = svs' ! j"
proof -
  show len: "length svs = n" by (simp add: svs MakeServers_started [OF n])
  show sv: "svs ! j = started_server n j (clk j) (rnd j) None" if "j < n" for j using that by (simp add: svs MakeServers_started [OF n])
  show as: "map kv_addrStr svs = map (local_addr basePort) [0..<n]"
    by (intro nth_equalityI [where xs = "map f xs" for f xs]) (simp_all add: len sv started_node)
  show "server_at svs' (local_addr basePort j) = svs' ! j" if same: "map kv_addrStr svs' = map kv_addrStr svs" and j: "j < n"
  proof -
    have l: "length svs' = n" using same len by (metis length_map)
    have "kv_addrStr (svs' ! j) = map kv_addrStr svs' ! j" using j l by simp
    also have "\<dots> = local_addr basePort j" using j by (simp add: same as)
    finally show ?thesis
      using server_at_nth [of svs' j] j l local_addr_distinct [OF n, of basePort] by (simp add: same as)
  qed
qed

lemma put_back_state:
  assumes "distinct js" "length fs = length js" "set js \<subseteq> {..<length svs}"
    and fs: "\<And>f. f \<in> set fs \<Longrightarrow> P (state f)" and svs: "j \<notin> set js \<Longrightarrow> P (state (node (svs ! j)))"
  shows "P (state (node (put_back js fs svs ! j)))"
proof (cases "j \<in> set js")
  case True
  then obtain q where q: "q < length js" "js ! q = j" by (auto simp: in_set_conv_nth)
  then have "put_back js fs svs ! j = (svs ! j)\<lparr>node := fs ! q\<rparr>" using put_back_nth(2) [OF assms(1-3), of q] by simp
  then show ?thesis using fs [of "fs ! q"] q(1) assms(2) by simp
next
  case False
  then show ?thesis using put_back_nth(3) [OF assms(1-3) False] svs by simp
qed

lemma fresh_table:
  fixes n :: nat
  assumes n: "n < 2 ^ 63" "i < n" and svs: "svs = RunServerRaft (MakeServers n clk rnd (\<lambda>_. None))"
    and js: "distinct js" "set js \<subseteq> {..<n} - {i}" and fs: "length fs = length js" "\<And>f. f \<in> set fs \<Longrightarrow> state f \<noteq> LEADER"
  shows "server_at (put_back (i # js) (l # fs) svs) (local_addr basePort i) = (svs ! i)\<lparr>node := l\<rparr>"
    "j < n \<Longrightarrow> j \<noteq> i \<Longrightarrow> state (node (server_at (put_back (i # js) (l # fs) svs) (local_addr basePort j))) \<noteq> LEADER"
proof -
  note T = started_table [OF n(1) svs]
  let ?t = "put_back (i # js) (l # fs) svs"
  have ok: "distinct (i # js)" "length (l # fs) = length (i # js)" "set (i # js) \<subseteq> {..<length svs}"
    using js fs n(2) T(1) by auto
  have at: "server_at ?t (local_addr basePort j) = ?t ! j" if "j < n" for j by (rule T(4) [OF put_back_addrs that])
  show "server_at ?t (local_addr basePort i) = (svs ! i)\<lparr>node := l\<rparr>"
    unfolding at [OF n(2)] using put_back_nth(2) [OF ok, of 0] by simp
  show "state (node (server_at ?t (local_addr basePort j))) \<noteq> LEADER" if j: "j < n" "j \<noteq> i"
  proof -
    have ok': "distinct js" "length fs = length js" "set js \<subseteq> {..<length (svs[i := (svs ! i)\<lparr>node := l\<rparr>])}"
      using ok by simp_all
    have "state (node (put_back js fs (svs[i := (svs ! i)\<lparr>node := l\<rparr>]) ! j)) \<noteq> LEADER"
      by (rule put_back_state [where P = "\<lambda>s. s \<noteq> LEADER", OF ok' fs(2)]) (use j T(2) in \<open>simp_all add: started_node\<close>)
    then show ?thesis unfolding at [OF j(1)] by simp
  qed
qed

end
