(* ===== verification/SteadyCluster.thy ===== *)
theory SteadyCluster
  imports ClientServer
begin

text \<open>
  Writes one after the other. A leader and followers that have just answered are ready for the next write
  (\<open>steady_write\<close>), provided that the answers end with the one that commits: later answers are dropped
  before the leader records them (see \<open>LateFollower\<close>), so the \<open>quorum\<close> is taken minimal. The
  servers are one table, with the nodes of the followers in it; the client's puts go to this table.
\<close>

subsection \<open>A leader and its quorum\<close>

definition quorum :: "SRaft \<Rightarrow> SRaft list \<Rightarrow> bool" where
  "quorum l fs \<longleftrightarrow> fs \<noteq> [] \<and> distinct (map addrStr fs) \<and> enough l (map addrStr fs) \<and>
     \<not> enough l (map addrStr (butlast fs)) \<and> (\<forall>f \<in> set fs. in_sync l f)"

lemma enough_cong: "length (peers l') = length (peers l) \<Longrightarrow> length ms = length ns \<Longrightarrow> enough l' ms \<longleftrightarrow> enough l ns"
  by (cases ms; cases ns) (auto simp: enough_def)

lemma acked_peers_map:
  "acked_peers c names ps = map (\<lambda>(k, q). (k, if k \<in> names
     then map_option (\<lambda>p. p\<lparr>nextIndex := c + 1, matchIndex := c\<rparr>) q else q)) ps"
  by (induction ps) auto

lemma acked_peers_mem:
  assumes "(k, Some p) \<in> set (acked_peers c names ps)"
  shows "\<exists>q. (k, Some q) \<in> set ps \<and> p = (if k \<in> names then q\<lparr>nextIndex := c + 1, matchIndex := c\<rparr> else q)"
proof -
  obtain o' where "(k, o') \<in> set ps" "Some p = (if k \<in> names then map_option (\<lambda>p. p\<lparr>nextIndex := c + 1, matchIndex := c\<rparr>) o' else o')"
    using assms by (auto simp: acked_peers_map)
  then show ?thesis by (cases o') (auto split: if_splits)
qed

lemma acked_peers_Nil: "acked_peers c names ps = [] \<longleftrightarrow> ps = []"
  by (simp add: acked_peers_map)

lemma acked_peers_in: "k \<in> names \<Longrightarrow> map_of (acked_peers c names ps) k =
    map_option (map_option (\<lambda>p. p\<lparr>nextIndex := c + 1, matchIndex := c\<rparr>)) (map_of ps k)"
  by (induction ps) auto

lemma leading_channel [simp]: "leading (l\<lparr>channel := que\<rparr>) = leading l"
  by (simp add: leading_def)

lemma quorum_channel [simp]: "quorum (l\<lparr>channel := que\<rparr>) fs = quorum l fs"
  by (simp add: quorum_def enough_def in_sync_def)

text \<open>A leader \<open>t\<close> that was \<open>l\<close>, wrote \<open>cmd\<close> and had it acknowledged by the followers \<open>names\<close>.\<close>

definition wrote :: "string \<Rightarrow> string set \<Rightarrow> SRaft \<Rightarrow> SRaft \<Rightarrow> bool" where
  "wrote cmd names l t \<longleftrightarrow> logs t = logs l @ [new_entry cmd l] \<and> state t = LEADER \<and> currentTerm t = currentTerm l \<and>
     commitIndex t = LastLogIndex (logs t) \<and> lastApplied t = LastLogIndex (logs t) \<and>
     peers t = acked_peers (LastLogIndex (logs t)) names (peers l) \<and> same_identity l t"

lemma next_index_after:
  assumes "leading l" "length (logs l) + 1 < 2 ^ 63 - 2"
  shows "sint (LastLogIndex (logs l @ [new_entry cmd l]) + 1) = int (length (logs l)) + 1"
  using leading_new_log(4) [OF assms(1), of cmd] assms(2) by (subst sint_i64_inc) simp_all

lemma wrote_leading:
  assumes l: "leading l" and t: "wrote cmd names l t" and room: "length (logs l) + 1 < 2 ^ 63 - 2"
  shows "leading t"
proof -
  note T = t [unfolded wrote_def]
  note L = leading_new_log [OF l, of cmd] leading_last [OF l]
  have len: "length (peers t) = length (peers l)" using T by (simp add: acked_peers_map)
  have peer: "peerSRaftClient p = k \<and> 0 \<le> sint (nextIndex p) \<and> sint (nextIndex p) \<le> int (length (logs t)) \<and>
      matchIndex p \<le>s LastLogIndex (logs t)" if "(k, Some p) \<in> set (peers t)" for k p
  proof -
    have "(k, Some p) \<in> set (acked_peers (LastLogIndex (logs t)) names (peers l))" using that T by argo
    from acked_peers_mem [OF this] obtain p0 where p0: "(k, Some p0) \<in> set (peers l)"
        "p = (if k \<in> names then p0\<lparr>nextIndex := LastLogIndex (logs t) + 1, matchIndex := LastLogIndex (logs t)\<rparr> else p0)"
      by blast
    have "peerSRaftClient p0 = k" "0 \<le> sint (nextIndex p0)" "sint (nextIndex p0) \<le> int (length (logs l))"
        "matchIndex p0 \<le>s LastLogIndex (logs l)"
      using l p0(1) by (auto simp: leading_def)
    then show ?thesis using p0(2) next_index_after [OF l room, of cmd] T L(4,5) by (auto simp: sle_i64 split: if_splits)
  qed
  have room': "log_room (logs t)" using L(4) T room by (simp add: log_room_def)
  have "peers l \<noteq> []" "distinct (map fst (peers l))" "length (peers l) < 2 ^ 63" "all_live (peers l)"
    using l by (simp_all add: leading_def)
  then have "peers t \<noteq> []" "distinct (map fst (peers t))" "length (peers t) < 2 ^ 63" "all_live (peers t)"
    using T len by (simp_all add: acked_peers_Nil)
  then show ?thesis using l T L room' peer unfolding leading_def by (simp add: same_identity_def sle_i64)
qed

lemma wrote_in_sync:
  assumes l: "leading l" and t: "wrote cmd names l t" and room: "length (logs l) + 1 < 2 ^ 63 - 2"
    and f: "in_sync l f" "addrStr f \<in> names" and f': "brought f f'" "logs f' = logs t"
  shows "in_sync t f'"
proof -
  note T = t [unfolded wrote_def]
  obtain p where p: "map_of (peers l) (addrStr f) = Some (Some p)" using f(1) by (auto simp: in_sync_def)
  let ?p = "p\<lparr>nextIndex := LastLogIndex (logs t) + 1, matchIndex := LastLogIndex (logs t)\<rparr>"
  have "addrStr f' = addrStr f" using f'(1) by (simp add: brought_def same_identity_def)
  then have "map_of (peers t) (addrStr f') = Some (Some ?p)" using T f(2) p acked_peers_in by simp
  moreover have "logs f' = take (length (logs t)) (logs t) @ []" "wf_log (logs f')"
    using f'(2) T leading_new_log(1) [OF l, of cmd] by simp_all
  moreover have "running f'" "fs_ok f'" "\<not> currentTerm t < currentTerm f'"
    using f(1) f'(1) T by (auto simp: in_sync_def brought_def same_identity_def)
  moreover have "sint (nextIndex ?p) = int (length (logs t))" using next_index_after [OF l room, of cmd] T by simp
  ultimately show ?thesis unfolding in_sync_def by fastforce
qed

lemma wrote_quorum:
  assumes q: "quorum l fs" and t: "wrote cmd names l t" and a: "map addrStr fs' = map addrStr fs"
    and s: "\<And>f. f \<in> set fs' \<Longrightarrow> in_sync t f"
  shows "quorum t fs'"
proof -
  have len: "length (peers t) = length (peers l)" "length fs' = length fs"
    using t a by (simp add: wrote_def acked_peers_map) (metis a length_map)
  have Q: "fs \<noteq> []" "distinct (map addrStr fs)" "enough l (map addrStr fs)" "\<not> enough l (map addrStr (butlast fs))"
    using q by (simp_all add: quorum_def)
  have "enough t (map addrStr fs') \<longleftrightarrow> enough l (map addrStr fs)"
    "enough t (map addrStr (butlast fs')) \<longleftrightarrow> enough l (map addrStr (butlast fs))"
    using len(2) by (simp_all add: enough_cong [OF len(1)])
  moreover have "fs' \<noteq> []" using Q(1) len(2) by auto
  ultimately show ?thesis unfolding quorum_def using Q a s by metis
qed

text \<open>A write that its quorum answers leaves the leader and the quorum ready for the next one.\<close>

lemma steady_write:
  assumes l: "leading l" "lastApplied l = LastLogIndex (logs l)" and q: "quorum l fs" and room: "length (logs l) + 1 < 2 ^ 63 - 2"
    and cmd: "cmd \<noteq> []"
  shows "\<exists>l' fs' l''. DoLog cmd l = Inr (1, l') \<and> append_round fs l' = Inr (fs', l'') \<and>
    leading l'' \<and> lastApplied l'' = LastLogIndex (logs l'') \<and> quorum l'' fs' \<and> logs l'' = logs l @ [new_entry cmd l] \<and>
    channel l' = channel l \<and> channel l'' = map_option (\<lambda>que. que @ [cmd]) (channel l) \<and> (\<forall>f \<in> set fs'. logs f = logs l'' \<and> log_saved f) \<and>
    map addrStr fs' = map addrStr fs \<and> map state fs' = map state fs"
proof -
  have fs: "fs \<noteq> []" "distinct (map addrStr fs)" "enough l (map addrStr fs)" "\<not> enough l (map addrStr (butlast fs))"
    "\<And>f. f \<in> set fs \<Longrightarrow> in_sync l f"
    using q by (simp_all add: quorum_def)
  obtain l' fs' t where r: "DoLog cmd l = Inr (1, l')" "logs l' = logs l @ [new_entry cmd l]" "peers l' = peers l"
      "commitIndex l' = commitIndex l" "lastApplied l' = lastApplied l" "channel l' = channel l"
      "append_round fs l' = Inr (fs', t)" "map addrStr fs' = map addrStr fs"
      "\<forall>f' \<in> set fs'. logs f' = logs l' \<and> log_saved f'" "after_acks l' (rev (map addrStr fs)) t"
      "list_all2 brought fs fs'" "currentTerm l' = currentTerm l" "state t = LEADER"
      "peers t = acked_peers (LastLogIndex (logs l')) (set (map addrStr fs)) (peers l)"
    using write_round [OF l(1) fs(2,5), of cmd] fs(1,4) by blast
  have "enough l' (rev (map addrStr fs))" using fs(3) r(3) by (simp add: enough_def)
  then have T: "commitIndex t = LastLogIndex (logs l')" "lastApplied t = LastLogIndex (logs l')" "logs t = logs l'"
      "currentTerm t = currentTerm l"
      "channel t = map_option (\<lambda>que. que @ commands (nat (sint (lastApplied l) + 1)) (logs l')) (channel l)"
    using r(3,5,6,10,12) by (simp_all add: after_acks_def)
  have "nat (sint (lastApplied l) + 1) = length (logs l)" using l(2) leading_last [OF l(1)] by simp
  then have ch: "channel t = map_option (\<lambda>que. que @ [cmd]) (channel l)"
    using T(5) r(2) cmd by (simp add: commands_def new_entry_def)
  have "same_identity l t" by (rule same_identity_trans [OF DoLog_identity [OF r(1)] append_round_identity [OF r(7)]])
  then have W: "wrote cmd (set (map addrStr fs)) l t" using T r(2,13,14) by (simp add: wrote_def)
  have lead: "leading t" by (rule wrote_leading [OF l(1) W room])
  have "in_sync t f'" if "f' \<in> set fs'" for f'
  proof -
    obtain i where i: "i < length fs'" "fs' ! i = f'" using \<open>f' \<in> set fs'\<close> by (auto simp: in_set_conv_nth)
    then have "fs ! i \<in> set fs" "brought (fs ! i) f'" using r(11) by (auto simp: list_all2_conv_all_nth)
    then show ?thesis using wrote_in_sync [OF l(1) W room fs(5)] r(9) T(3) that by simp
  qed
  then have "quorum t fs'" by (rule wrote_quorum [OF q W r(8)])
  moreover have "map state fs' = map state fs"
    using r(11) by (auto simp: list_all2_conv_all_nth brought_def intro: nth_equalityI)
  ultimately show ?thesis using r(1,6,7,8,9) lead T(2,3) ch r(2)
    by (intro exI [of _ l'] exI [of _ fs'] exI [of _ t]) simp
qed

subsection \<open>The cluster as one table of servers\<close>

fun put_nodes :: "string list \<Rightarrow> SRaft list \<Rightarrow> (string \<Rightarrow> Skvserver) \<Rightarrow> (string \<Rightarrow> Skvserver)" where
  "put_nodes (k # ks) (f # fs) servers = put_nodes ks fs (servers(k := (servers k)\<lparr>node := f\<rparr>))"
| "put_nodes ks fs servers = servers"

abbreviation nodes_at :: "string list \<Rightarrow> (string \<Rightarrow> Skvserver) \<Rightarrow> SRaft list" where
  "nodes_at ks servers \<equiv> map (\<lambda>k. node (servers k)) ks"

lemma put_nodes_other: "k \<notin> set ks \<Longrightarrow> put_nodes ks fs servers k = servers k"
  by (induction ks fs servers rule: put_nodes.induct) auto

lemma put_nodes_at:
  "distinct ks \<Longrightarrow> length fs = length ks \<Longrightarrow> i < length ks \<Longrightarrow>
   put_nodes ks fs servers (ks ! i) = (servers (ks ! i))\<lparr>node := fs ! i\<rparr>"
proof (induction ks fs servers arbitrary: i rule: put_nodes.induct)
  case (1 k ks f fs servers)
  let ?s = "servers(k := (servers k)\<lparr>node := f\<rparr>)"
  show ?case
  proof (cases i)
    case 0
    then show ?thesis using 1(2) by (simp add: put_nodes_other)
  next
    case (Suc j)
    then have j: "j < length ks" "ks ! j \<noteq> k" using 1(2,4) by auto
    have "put_nodes ks fs ?s (ks ! j) = (?s (ks ! j))\<lparr>node := fs ! j\<rparr>" using 1(2,3) j(1) by (intro 1(1)) simp_all
    then show ?thesis using Suc j(2) by simp
  qed
qed auto

lemma nodes_at_put: "distinct ks \<Longrightarrow> length fs = length ks \<Longrightarrow> nodes_at ks (put_nodes ks fs servers) = fs"
  by (rule nth_equalityI) (simp_all add: put_nodes_at)

text \<open>
  What happens while the client sleeps after a put: the servers \<open>ks\<close> answer the leader's requests and its receiving
  thread makes \<open>n\<close> steps.
\<close>

definition replicate_round :: "nat \<Rightarrow> string \<Rightarrow> string list \<Rightarrow> (string \<Rightarrow> Skvserver) \<Rightarrow> (string \<Rightarrow> Skvserver) result" where
  "replicate_round n leader ks servers =
     rbind (append_round (nodes_at ks servers) (node (servers leader))) (\<lambda>(fs, l).
     rbind (run_steps kv_step (replicate n Recieve) ((servers leader)\<lparr>node := l\<rparr>)) (\<lambda>sv.
     Inr (put_nodes ks fs (servers(leader := sv)))))"

definition settled :: "Skvserver \<Rightarrow> bool" where
  "settled sv \<longleftrightarrow> leading (node sv) \<and> receiving sv \<and> queued sv = [] \<and> lastApplied (node sv) = LastLogIndex (logs (node sv))"

definition steady :: "string set \<Rightarrow> string \<Rightarrow> string list \<Rightarrow> (string \<Rightarrow> Skvserver) \<Rightarrow> bool" where
  "steady names leader ks servers \<longleftrightarrow> distinct (leader # ks) \<and> settled (servers leader) \<and>
     quorum (node (servers leader)) (nodes_at ks servers) \<and>
     (\<forall>k \<in> names \<union> set ks. k \<noteq> leader \<longrightarrow> state (node (servers k)) \<noteq> LEADER)"

lemma receiving_run:
  "receiving sv \<Longrightarrow> run_steps kv_step (replicate n Recieve) sv = Inr u \<Longrightarrow> receiving u"
proof (induction n arbitrary: sv)
  case (Suc n)
  obtain w where "kv_step Recieve sv = Inr w" "run_steps kv_step (replicate n Recieve) w = Inr u"
    using Suc.prems by (auto simp: rbind_Inr_iff)
  then show ?case using Suc.IH recieve_drains(1) [OF Suc.prems(1)] by blast
qed simp

definition holds_log :: "Skvserver \<Rightarrow> SRaft \<Rightarrow> bool" where
  "holds_log sv f \<longleftrightarrow> logs f = logs (node sv) \<and> log_saved f"

text \<open>The receiving thread of the leader runs the one command of the write.\<close>

lemma write_drained:
  assumes rc: "receiving sv" "queued sv = []" and ch: "channel l = map_option (\<lambda>que. que @ [format_cmd q]) (channel (node sv))"
    and q: "clean_request q" and n: "3 \<le> n"
  shows "\<exists>u que. run_steps kv_step (replicate n Recieve) (sv\<lparr>node := l\<rparr>) = Inr u \<and> receiving u \<and> queued u = [] \<and>
    kvDB u = spec_write q (kvDB sv) \<and> node u = l\<lparr>channel := que\<rparr>"
proof -
  let ?u = "sv\<lparr>node := l\<rparr>"
  have "channel (node sv) = Some []" using rc by (auto simp: receiving_def queued_def)
  then have u: "receiving ?u" "queued ?u = [format_cmd q]" using rc(1) ch by (simp_all add: receiving_def queued_def)
  obtain w where run: "run_steps kv_step (replicate n Recieve) ?u = Inr w" "db_of w = db_of ?u"
    using drain_runs [of n ?u] by auto
  have "drain_steps ?u \<le> n" using n u by (simp add: drain_steps_def)
  then have e: "queued w = []" using drain [OF u(1) run(1)] by blast
  then have "kvDB w = spec_write q (kvDB sv)" using run(2) u(2) apply_format [OF q] by (simp add: db_of_def)
  then show ?thesis using run(1) e receiving_run [OF u(1) run(1)] recieves_node [OF run(1)] by auto
qed

lemma put_nodes_state:
  assumes ks: "nodes_at ks new = fs" and st: "map state fs = map state (nodes_at ks servers)" and k: "k \<in> set ks"
  shows "state (node (new k)) = state (node (servers k))"
proof -
  obtain i where i: "i < length ks" "k = ks ! i" using k by (auto simp: in_set_conv_nth)
  have "map state (nodes_at ks new) ! i = map state (nodes_at ks servers) ! i" using ks st by simp
  then show ?thesis using i by simp
qed

lemma write_step:
  assumes c: "named_servers c" "leader \<in> fst ` set (kv_servers c)"
    and st: "steady (fst ` set (kv_servers c)) leader ks servers"
    and w: "word_string key" "word_string v" and n: "3 \<le> n"
    and room: "length (logs (node (servers leader))) + 1 < 2 ^ 63 - 2"
  shows "\<exists>served new. serve_puts (Skvclient_Put key v c) servers = Inr served \<and> replicate_round n leader ks served = Inr new \<and>
     steady (fst ` set (kv_servers c)) leader ks new \<and> kvDB (new leader) = (kvDB (servers leader))(key \<mapsto> v) \<and>
     length (logs (node (new leader))) = length (logs (node (servers leader))) + 1 \<and>
     (\<forall>k \<in> set ks. holds_log (new leader) (node (new k)))"
proof -
  let ?q = "put_request key v" and ?S = "servers leader" and ?L = "node (servers leader)" and ?fs = "nodes_at ks servers"
  have clean: "clean_request ?q" using w by (simp add: clean_request_def)
  have S: "leading ?L" "lastApplied ?L = LastLogIndex (logs ?L)" "receiving ?S" "queued ?S = []" "quorum ?L ?fs" "distinct (leader # ks)"
    and others: "\<And>k. k \<in> fst ` set (kv_servers c) \<Longrightarrow> k \<noteq> leader \<Longrightarrow> state (node (servers k)) \<noteq> LEADER"
    using st by (auto simp: steady_def settled_def)
  have "format_cmd ?q \<noteq> []" by (simp add: format_cmd_def)
  from steady_write [OF S(1,2,5) room this]
  obtain l' fs l where r: "DoLog (format_cmd ?q) ?L = Inr (1, l')" "append_round ?fs l' = Inr (fs, l)"
      "leading l" "lastApplied l = LastLogIndex (logs l)" "quorum l fs" "logs l = logs ?L @ [new_entry (format_cmd ?q) ?L]"
      "channel l = map_option (\<lambda>que. que @ [format_cmd ?q]) (channel ?L)"
      "\<forall>f \<in> set fs. logs f = logs l \<and> log_saved f" "map state fs = map state ?fs" by blast
  have "state ?L = LEADER" using S(1) by (simp add: leading_def)
  then have put: "putAppend ?q PutAppendResponse_default ?S =
      Inr (PutAppendResponse_default\<lparr>pp_WrongLeader := False, pp_Err := ''none''\<rparr>, ?S\<lparr>node := l'\<rparr>)"
    using r(1) by (simp add: putAppend_def)
  let ?served = "servers(leader := ?S\<lparr>node := l'\<rparr>)"
  have served: "serve_puts (Skvclient_Put key v c) servers = Inr ?served"
    by (rule put_served [where servers = servers and leader = leader, OF c others put])
  obtain sv que where sv: "run_steps kv_step (replicate n Recieve) (?S\<lparr>node := l\<rparr>) = Inr sv" "receiving sv" "queued sv = []"
      "kvDB sv = spec_write ?q (kvDB ?S)" "node sv = l\<lparr>channel := que\<rparr>"
    using write_drained [OF S(3,4) r(7) clean n] by blast
  define new where "new = put_nodes ks fs (?served(leader := sv))"
  have len: "length fs = length ks" using r(9) by (metis length_map)
  have same: "nodes_at ks ?served = ?fs" using S(6) by auto
  have run: "replicate_round n leader ks ?served = Inr new"
    unfolding replicate_round_def same using r(2) sv(1) by (simp add: new_def)
  have new: "new leader = sv" "nodes_at ks new = fs" "k \<notin> set (leader # ks) \<Longrightarrow> new k = servers k" for k
    using S(6) len nodes_at_put [of ks fs] by (simp_all add: new_def put_nodes_other)
  have keeps: "state (node (new k)) \<noteq> LEADER" if k: "k \<in> fst ` set (kv_servers c) \<union> set ks" "k \<noteq> leader" for k
    using put_nodes_state [OF new(2) r(9)] new(3) [of k] others st k by (cases "k \<in> set ks") (auto simp: steady_def)
  have holds: "holds_log sv (node (new k))" if "k \<in> set ks" for k
  proof -
    have "node (new k) \<in> set (nodes_at ks new)" using that by simp
    then show ?thesis using r(8) sv(5) unfolding new(2) by (simp add: holds_log_def)
  qed
  have "settled sv" using sv(2,3,5) r(3,4) by (simp add: settled_def)
  then have "steady (fst ` set (kv_servers c)) leader ks new" using S(6) new(1,2) r(5) sv(5) keeps by (simp add: steady_def)
  moreover have "kvDB sv = (kvDB ?S)(key \<mapsto> v)" using sv(4) by (simp add: spec_write_def)
  ultimately show ?thesis using served run new(1) holds r(6) sv(5)
    by (intro exI [of _ ?served] exI [of _ new]) simp
qed

subsection \<open>Any number of writes\<close>

text \<open>The client's puts one after the other, with \<open>env i\<close> for what the servers do after the \<open>i\<close>-th.\<close>

fun put_values :: "(nat \<Rightarrow> (string \<Rightarrow> Skvserver) \<Rightarrow> (string \<Rightarrow> Skvserver) result) \<Rightarrow> nat \<Rightarrow> Skvclient \<Rightarrow>
    (string \<times> string) list \<Rightarrow> (string \<Rightarrow> Skvserver) \<Rightarrow> (string \<Rightarrow> Skvserver) result" where
  "put_values env i c [] servers = Inr servers"
| "put_values env i c ((key, v) # kvs) servers =
     rbind (serve_puts (Skvclient_Put key v c) servers) (\<lambda>servers.
     rbind (env i servers) (\<lambda>servers. put_values env (Suc i) c kvs servers))"

definition put_all :: "(string \<times> string) list \<Rightarrow> db \<Rightarrow> db" where
  "put_all kvs m = fold (\<lambda>(k, v) m. m(k \<mapsto> v)) kvs m"

lemma put_all_simps [simp]: "put_all [] m = m" "put_all ((k, v) # kvs) m = put_all kvs (m(k \<mapsto> v))"
  by (simp_all add: put_all_def)

lemma put_all_other: "key \<notin> fst ` set kvs \<Longrightarrow> put_all kvs m key = m key"
  by (induction kvs arbitrary: m) auto

lemma put_all_distinct: "distinct (map fst kvs) \<Longrightarrow> (key, v) \<in> set kvs \<Longrightarrow> put_all kvs m key = Some v"
  by (induction kvs arbitrary: m) (auto simp: put_all_other)

lemma put_values_steady:
  assumes c: "named_servers c" "leader \<in> fst ` set (kv_servers c)"
    and env: "\<And>j. i \<le> j \<Longrightarrow> j < i + length kvs \<Longrightarrow> env j = replicate_round n leader ks" and n: "3 \<le> n"
    and st: "steady (fst ` set (kv_servers c)) leader ks servers"
    and w: "\<And>key v. (key, v) \<in> set kvs \<Longrightarrow> word_string key \<and> word_string v"
    and room: "length (logs (node (servers leader))) + length kvs < 2 ^ 63 - 2"
  shows "\<exists>new. put_values env i c kvs servers = Inr new \<and> steady (fst ` set (kv_servers c)) leader ks new \<and>
     kvDB (new leader) = put_all kvs (kvDB (servers leader)) \<and>
     (kvs \<noteq> [] \<longrightarrow> (\<forall>k \<in> set ks. holds_log (new leader) (node (new k))))"
  using env st w room
proof (induction kvs arbitrary: servers i)
  case (Cons kv kvs)
  obtain key v where kv: "kv = (key, v)" by (cases kv)
  obtain served s1 where 1: "serve_puts (Skvclient_Put key v c) servers = Inr served" "replicate_round n leader ks served = Inr s1"
     "steady (fst ` set (kv_servers c)) leader ks s1" "kvDB (s1 leader) = (kvDB (servers leader))(key \<mapsto> v)"
     "length (logs (node (s1 leader))) = length (logs (node (servers leader))) + 1"
     "\<forall>k \<in> set ks. holds_log (s1 leader) (node (s1 k))"
    using write_step [OF c Cons.prems(2) _ _ n, of key v] Cons.prems(3,4) kv by auto
  obtain new where 2: "put_values env (Suc i) c kvs s1 = Inr new" "steady (fst ` set (kv_servers c)) leader ks new"
     "kvDB (new leader) = put_all kvs (kvDB (s1 leader))" "kvs \<noteq> [] \<longrightarrow> (\<forall>k \<in> set ks. holds_log (new leader) (node (new k)))"
    using Cons.IH [of "Suc i" s1] Cons.prems(1,3,4) 1(3,5) by auto
  have "put_values env i c (kv # kvs) servers = Inr new" using Cons.prems(1) [of i] kv 1(1,2) 2(1) by simp
  moreover have "\<forall>k \<in> set ks. holds_log (new leader) (node (new k))"
    using 1(6) 2(1,4) by (cases "kvs = []") auto
  ultimately show ?case using 2(2,3) 1(4) kv by auto
qed simp

text \<open>
  Claim C5. A cluster in step is a map. As long as the same followers, just enough of them for a commit, answer
  the leader after every put, and the leader's receiving thread makes three steps or more, any number of puts of the client
  for which the log has room, their keys and values not empty and without white space, go through without a fault, and
  afterwards a \<open>Get\<close> of any key returns what a map with the same updates holds, or \<open>Error\<close> when it holds nothing;
  the log of every one of these followers is the leader's log, on disk.
\<close>
theorem cluster_is_a_map:
  assumes "named_servers c" "leader \<in> fst ` set (kv_servers c)" "steady (fst ` set (kv_servers c)) leader ks servers" "3 \<le> n"
    and "\<And>key v. (key, v) \<in> set kvs \<Longrightarrow> word_string key \<and> word_string v"
    and "length (logs (node (servers leader))) + length kvs < 2 ^ 63 - 2"
  shows "\<exists>new. put_values (\<lambda>_. replicate_round n leader ks) 1 c kvs servers = Inr new \<and>
     (\<forall>key. Skvclient_Get (serve_get new) key c =
        (case put_all kvs (kvDB (servers leader)) key of None \<Rightarrow> ''Error'' | Some v \<Rightarrow> v, c\<lparr>leaderName := leader\<rparr>)) \<and>
     (kvs \<noteq> [] \<longrightarrow> (\<forall>k \<in> set ks. logs (node (new k)) = logs (node (new leader)) \<and> log_saved (node (new k))))"
proof -
  obtain new where new: "put_values (\<lambda>_. replicate_round n leader ks) 1 c kvs servers = Inr new"
     "steady (fst ` set (kv_servers c)) leader ks new" "kvDB (new leader) = put_all kvs (kvDB (servers leader))"
     "kvs \<noteq> [] \<longrightarrow> (\<forall>k \<in> set ks. holds_log (new leader) (node (new k)))"
    using put_values_steady [OF assms(1,2) refl assms(4,3,5,6)] by blast
  have "Skvclient_Get (serve_get new) key c = (case kvDB (new leader) key of None \<Rightarrow> ''Error'' | Some v \<Rightarrow> v, c\<lparr>leaderName := leader\<rparr>)" for key
    by (rule get_from_any_leader [OF assms(1,2)]) (use new(2) in \<open>auto simp: steady_def settled_def leading_def\<close>)
  then show ?thesis using new by (simp add: holds_log_def)
qed

definition steady_servers :: "string \<Rightarrow> Skvserver" where
  "steady_servers k = (if k = ''b'' then example_server\<lparr>node := five_nodes_leader\<lparr>logs := []\<rparr>\<rparr>
     else example_server\<lparr>node := example_follower\<rparr>)"

theorem cluster_is_a_map_witness:
  "\<exists>new. put_values (\<lambda>_. replicate_round 3 ''b'' [''F'']) 1 example_client [(''k'', ''v''), (''k'', ''w'')] steady_servers = Inr new \<and>
     fst (Skvclient_Get (serve_get new) ''k'' example_client) = ''w'' \<and>
     fst (Skvclient_Get (serve_get new) ''hello'' example_client) = ''world''"
proof -
  let ?l = "five_nodes_leader\<lparr>logs := []\<rparr>"
  have m: "''b'' \<in> fst ` set (kv_servers example_client)"
    by (simp add: example_client_def AddServers_def new_Skvclient_def)
  have n: "named_servers example_client" unfolding example_client_def by (rule named_servers_new)
  have l: "leading ?l" "logs ?l = []" "length (peers ?l) = 4" "lastApplied ?l = -1" "channel ?l = Some []"
    by (auto simp: leading_def five_nodes_leader_def example_leader_def new_SRaft_def log_room_def all_live_def sle_i64)
  have f: "in_sync ?l example_follower" "state example_follower = FOLLOWER"
    by (simp_all add: in_sync_def five_nodes_leader_def example_leader_def example_follower_def new_SRaft_def)
  have sv: "node (steady_servers ''b'') = ?l" "node (steady_servers k) = (if k = ''b'' then ?l else example_follower)"
      "kvDB (steady_servers ''b'') = [''hello'' \<mapsto> ''world'']" "tobeDestroy (steady_servers ''b'') = False"
      "recieveMsgThread (steady_servers ''b'') = LoopTest" for k
    by (simp_all add: steady_servers_def example_server_def new_Skvserver_def)
  have st: "steady (fst ` set (kv_servers example_client)) ''b'' [''F''] steady_servers"
    using l f by (simp add: steady_def settled_def quorum_def enough_def receiving_def queued_def sv LastLogIndex_def)
  have w: "word_string key \<and> word_string v" if "(key, v) \<in> set [(''k'', ''v''), (''k'', ''w'')]" for key v
    using that by (auto simp: word_string_def isspace_def)
  have r: "length (logs (node (steady_servers ''b''))) + length [(''k'', ''v''), (''k'', ''w'')] < 2 ^ 63 - 2"
    unfolding sv(1) l(2) by simp
  obtain new where new: "put_values (\<lambda>_. replicate_round 3 ''b'' [''F'']) 1 example_client [(''k'', ''v''), (''k'', ''w'')] steady_servers = Inr new"
     "\<And>key. Skvclient_Get (serve_get new) key example_client =
        (case put_all [(''k'', ''v''), (''k'', ''w'')] (kvDB (steady_servers ''b'')) key of None \<Rightarrow> ''Error'' | Some v \<Rightarrow> v,
         example_client\<lparr>leaderName := ''b''\<rparr>)"
    using cluster_is_a_map [OF n m st order_refl w r] by blast
  show ?thesis by (rule exI, rule conjI, rule new(1)) (simp add: new(2) sv(3))
qed
end
