(* ===== verification/TestDriver.thy ===== *)
theory TestDriver
  imports TestCluster SteadyCluster
begin

text \<open>
  The test driver \<open>sraft_test.cc\<close>. Its functions build the servers, put and read through the client, and sleep in
  between; what the servers do in the \<open>i\<close>-th sleep is the parameter \<open>env i\<close> of a driver. The values read are
  the result, which the program logs.
\<close>

subsection \<open>The driver\<close>

fun get_values :: "(nat \<Rightarrow> (string \<Rightarrow> Skvserver) \<Rightarrow> (string \<Rightarrow> Skvserver) result) \<Rightarrow> nat \<Rightarrow> Skvclient \<Rightarrow>
    string list \<Rightarrow> (string \<Rightarrow> Skvserver) \<Rightarrow> string list result" where
  "get_values env i c [] servers = Inr []"
| "get_values env i c (key # keys) servers =
     (let (v, c) = Skvclient_Get (serve_get servers) key c
      in rbind (env i servers) (\<lambda>servers. rbind (get_values env (Suc i) c keys servers) (\<lambda>vs. Inr (v # vs))))"

definition TestClientGet :: "(nat \<Rightarrow> (string \<Rightarrow> Skvserver) \<Rightarrow> (string \<Rightarrow> Skvserver) result) \<Rightarrow> (nat \<Rightarrow> nat \<Rightarrow> u64) \<Rightarrow>
    (nat \<Rightarrow> nat \<Rightarrow> u64 \<Rightarrow> u64 \<Rightarrow> u64) \<Rightarrow> (nat \<Rightarrow> PersistRecord option) \<Rightarrow> nat \<Rightarrow> string list result" where
  "TestClientGet env clk rnd files serverNum =
     (let servers = RunServerRaft (MakeServers serverNum clk rnd files);
          client = InitClient servers new_Skvclient
      in get_values env 0 client (replicate 5 ''hello'') (server_at servers))"

definition TestClientPut :: "(nat \<Rightarrow> (string \<Rightarrow> Skvserver) \<Rightarrow> (string \<Rightarrow> Skvserver) result) \<Rightarrow> (nat \<Rightarrow> nat \<Rightarrow> u64) \<Rightarrow>
    (nat \<Rightarrow> nat \<Rightarrow> u64 \<Rightarrow> u64 \<Rightarrow> u64) \<Rightarrow> (nat \<Rightarrow> PersistRecord option) \<Rightarrow> nat \<Rightarrow> string list result" where
  "TestClientPut env clk rnd files serverNum =
     (let servers = RunServerRaft (MakeServers serverNum clk rnd files)
      in rbind (env 0 (server_at servers)) (\<lambda>S.
         let client = InitClient servers new_Skvclient;
             keys = [''k1'', ''k2'', ''k3''];
             values = [''v1'', ''v2'', ''v3'']
         in rbind (put_values env 1 client (zip keys values) S) (\<lambda>S.
            get_values env (1 + length keys) client keys S)))"

definition TestMakeServer :: "(nat \<Rightarrow> nat \<Rightarrow> u64) \<Rightarrow> (nat \<Rightarrow> nat \<Rightarrow> u64 \<Rightarrow> u64 \<Rightarrow> u64) \<Rightarrow>
    (nat \<Rightarrow> PersistRecord option) \<Rightarrow> Skvserver list" where
  "TestMakeServer clk rnd files = RunServerRaft (MakeServers 5 clk rnd files)"

definition sraft_test_main :: "(nat \<Rightarrow> (string \<Rightarrow> Skvserver) \<Rightarrow> (string \<Rightarrow> Skvserver) result) \<Rightarrow> (nat \<Rightarrow> nat \<Rightarrow> u64) \<Rightarrow>
    (nat \<Rightarrow> nat \<Rightarrow> u64 \<Rightarrow> u64 \<Rightarrow> u64) \<Rightarrow> (nat \<Rightarrow> PersistRecord option) \<Rightarrow> string list result" where
  "sraft_test_main env clk rnd files = TestClientPut env clk rnd files 10"

subsection \<open>What happens while the driver sleeps\<close>

text \<open>An election: the timer of \<open>leader\<close> fires and the servers \<open>ks\<close> answer its requests.\<close>

definition elect_round :: "string \<Rightarrow> string list \<Rightarrow> (string \<Rightarrow> Skvserver) \<Rightarrow> (string \<Rightarrow> Skvserver) result" where
  "elect_round leader ks servers =
     rbind (OnTimer (node (servers leader))) (\<lambda>l.
     let (fs, l) = vote_round (nodes_at ks servers) l
     in Inr (put_nodes (leader # ks) (l # fs) servers))"

lemma get_values_idle:
  assumes "named_servers c" "leader \<in> fst ` set (kv_servers c)"
    and "\<And>k. k \<in> fst ` set (kv_servers c) \<Longrightarrow> k \<noteq> leader \<Longrightarrow> state (node (servers k)) \<noteq> LEADER"
    and "state (node (servers leader)) = LEADER" "\<And>j. i \<le> j \<Longrightarrow> env j = Inr"
  shows "get_values env i c keys servers = Inr (map (\<lambda>key. case kvDB (servers leader) key of None \<Rightarrow> ''Error'' | Some v \<Rightarrow> v) keys)"
  using assms
proof (induction keys arbitrary: i c)
  case (Cons key keys)
  have "Skvclient_Get (serve_get servers) key c =
      (case kvDB (servers leader) key of None \<Rightarrow> ''Error'' | Some v \<Rightarrow> v, c\<lparr>leaderName := leader\<rparr>)"
    by (rule get_from_any_leader [where servers = servers and leader = leader]) (use Cons.prems in simp_all)
  moreover have "get_values env (Suc i) (c\<lparr>leaderName := leader\<rparr>) keys servers =
      Inr (map (\<lambda>key. case kvDB (servers leader) key of None \<Rightarrow> ''Error'' | Some v \<Rightarrow> v) keys)"
    by (rule Cons.IH) (use Cons.prems in \<open>simp_all add: named_servers_def\<close>)
  ultimately show ?case using Cons.prems(5) [of i] by simp
qed simp

text \<open>The minimal quorum among the followers that elected the leader.\<close>

lemma quorum_take:
  assumes fs: "distinct (map addrStr fs)" "\<And>f. f \<in> set fs \<Longrightarrow> in_sync l f"
    and q: "0 < q" "q \<le> length fs" "length (peers l) div 2 \<le> 1 + q" "q = 1 \<or> q < length (peers l) div 2"
  shows "quorum l (take q fs)"
proof -
  have "length (butlast (take q fs)) = q - 1" "length (take q fs) = q" using q(1,2) by simp_all
  moreover from this have "butlast (take q fs) = []" if "q = 1"
    using that by (metis diff_self_eq_0 length_0_conv)
  ultimately have "\<not> enough l (map addrStr (butlast (take q fs)))" "enough l (map addrStr (take q fs))" "take q fs \<noteq> []"
    using q by (auto simp: enough_def simp del: butlast_take)
  moreover have "distinct (map addrStr (take q fs))" using fs(1) by (simp add: take_map [symmetric])
  ultimately show ?thesis using fs(2) by (auto simp: quorum_def dest: in_set_takeD)
qed

lemma fresh_elect_round:
  fixes n :: nat
  assumes "n < 2 ^ 63" "i < n" and svs: "svs = RunServerRaft (MakeServers n clk rnd (\<lambda>_. None))"
    and js: "distinct js" "set js \<subseteq> {..<n} - {i}" "js \<noteq> []" "(n - 1) div 2 < 1 + length js"
    and q: "0 < q" "q \<le> length js" "(n - 1) div 2 \<le> 1 + q" "q = 1 \<or> q < (n - 1) div 2"
    and clk: "clk i 0 + rnd i 0 interval_election_low interval_election_high < clk i 1"
      "\<not> clk i 2 + interval_election_fail < clk i 1"
  shows "\<exists>S. elect_round (local_addr basePort i) (map (local_addr basePort) js) (server_at svs) = Inr S \<and>
     steady (local_addr basePort ` {..<n}) (local_addr basePort i) (map (local_addr basePort) (take q js)) S \<and>
     kvDB (S (local_addr basePort i)) = [''hello'' \<mapsto> ''world''] \<and> logs (node (S (local_addr basePort i))) = []"
proof -
  let ?a = "local_addr basePort"
  obtain l0 fs l where e: "OnTimer (node (svs ! i)) = Inr l0" "vote_round (map (\<lambda>j. node (svs ! j)) js) l0 = (fs, l)"
      "leading l" "same_store (node (svs ! i)) l" "\<forall>f \<in> set fs. in_sync l f \<and> state f \<noteq> LEADER"
      "length fs = length js" "distinct (map addrStr fs)"
    using fresh_election [OF assms(1,2) svs js clk] by blast
  note T = started_table [OF assms(1) svs]
  have at: "server_at svs (?a j) = svs ! j" if "j < n" for j by (rule T(4) [OF refl that])
  have jn: "j < n" "j \<noteq> i" if "j \<in> set js" for j using js(2) that by auto
  have inj: "?a j = ?a k \<longleftrightarrow> j = k" if "j < n" "k < n" for j k
    using local_addr_inj [of basePort j k] that assms(1) by auto
  have d: "distinct (map ?a (i # js))" using js(1) jn assms(2) inj by (auto simp: distinct_map inj_on_def)
  define S where "S = put_nodes (?a i # map ?a js) (l # fs) (server_at svs)"
  have nd: "nodes_at (map ?a js) (server_at svs) = map (\<lambda>j. node (svs ! j)) js" using at jn by simp
  have run: "elect_round (?a i) (map ?a js) (server_at svs) = Inr S"
    unfolding elect_round_def nd using e(1,2) at [OF assms(2)] by (simp add: S_def)
  have at_i: "S (?a i) = (svs ! i)\<lparr>node := l\<rparr>"
    using put_nodes_at [of "?a i # map ?a js" "l # fs" 0 "server_at svs"] d e(6) at [OF assms(2)] by (simp add: S_def)
  have at_js: "nodes_at (map ?a js) S = fs"
    using nodes_at_put [of "?a i # map ?a js" "l # fs" "server_at svs"] d e(6) by (simp add: S_def)
  have L: "channel l = Some []" "logs l = []" "length (peers l) = n - 1" "lastApplied l = -1"
    using e(4) assms(2) fresh_peers(3) [OF assms(1,2)] by (simp_all add: same_store_def T(2) started_node)
  have "settled (S (?a i))" using e(3) L assms(2)
    by (simp add: at_i settled_def receiving_def queued_def T(2) started_node LastLogIndex_def)
  moreover have "quorum l (take q fs)" by (rule quorum_take [OF e(7)]) (use e(5,6) q L(3) in simp_all)
  moreover have "nodes_at (map ?a (take q js)) S = take q fs" using at_js by (simp add: take_map [symmetric])
  moreover have "state (node (S (?a j))) \<noteq> LEADER" if j: "j < n" "j \<noteq> i" for j
  proof (cases "j \<in> set js")
    case True
    then have "node (S (?a j)) \<in> set (nodes_at (map ?a js) S)" by auto
    then show ?thesis unfolding at_js using e(5) by blast
  next
    case False
    then have "?a j \<notin> set (?a i # map ?a js)" using j inj assms(2) jn by auto
    then show ?thesis unfolding S_def using at [OF j(1)] j(1) by (simp add: put_nodes_other T(2) started_node)
  qed
  moreover have "?a ` {..<n} \<union> set (map ?a (take q js)) = ?a ` {..<n}" using jn(1) by (auto dest: in_set_takeD)
  moreover have "distinct (?a i # map ?a (take q js))"
    using d by (auto simp: take_map [symmetric] dest: in_set_takeD)
  ultimately have "steady (?a ` {..<n}) (?a i) (map ?a (take q js)) S" using at_i unfolding steady_def by auto
  then show ?thesis using run L(2) assms(2) by (intro exI [of _ S]) (simp add: at_i T(2) started_node)
qed

lemma client_put_driver:
  assumes "n < 2 ^ 63" "i < n" and leader: "leader = local_addr basePort i"
    and js: "distinct js" "set js \<subseteq> {..<n} - {i}" "js \<noteq> []" "(n - 1) div 2 < 1 + length js"
    and q: "0 < q" "q \<le> length js" "(n - 1) div 2 \<le> 1 + q" "q = 1 \<or> q < (n - 1) div 2"
    and clk: "clk i 0 + rnd i 0 interval_election_low interval_election_high < clk i 1"
      "\<not> clk i 2 + interval_election_fail < clk i 1"
    and env: "env 0 = elect_round leader (map (local_addr basePort) js)"
      "\<And>j. j \<in> {1..3} \<Longrightarrow> env j = replicate_round m leader (map (local_addr basePort) (take q js))"
      "\<And>j. 4 \<le> j \<Longrightarrow> env j = Inr" and m: "3 \<le> m"
  shows "TestClientPut env clk rnd (\<lambda>_. None) n = Inr [''v1'', ''v2'', ''v3'']"
proof -
  define svs where "svs = RunServerRaft (MakeServers n clk rnd (\<lambda>_. None))"
  define c where "c = InitClient svs new_Skvclient"
  define kvs where "kvs = zip [''k1'', ''k2'', ''k3''] [''v1'', ''v2'', ''v3'']"
  let ?ks = "map (local_addr basePort) (take q js)"
  obtain S where S: "env 0 (server_at svs) = Inr S" "steady (local_addr basePort ` {..<n}) leader ?ks S"
     "kvDB (S leader) = [''hello'' \<mapsto> ''world'']" "logs (node (S leader)) = []"
    using fresh_elect_round [OF assms(1,2) svs_def js q clk] unfolding env(1) leader by blast
  have "fst ` set (kv_servers c) = kv_addrStr ` set svs" unfolding c_def by (rule InitClient_named(2))
  also have "\<dots> = local_addr basePort ` {..<n}"
    by (simp add: svs_def MakeServers_started [OF assms(1)] started_node image_image atLeast0LessThan)
  finally have names: "fst ` set (kv_servers c) = local_addr basePort ` {..<n}" .
  have c: "named_servers c" "leader \<in> fst ` set (kv_servers c)"
    unfolding names by (simp_all add: c_def InitClient_named(1) leader assms(2))
  have w: "word_string key \<and> word_string v" if "(key, v) \<in> set kvs" for key v
    using that by (auto simp: kvs_def word_string_def isspace_def)
  have r: "length (logs (node (S leader))) + length kvs < 2 ^ 63 - 2" by (simp add: S(4) kvs_def)
  have e: "env j = replicate_round m leader ?ks" if "1 \<le> j" "j < 1 + length kvs" for j
    using that by (intro env(2)) (simp add: kvs_def)
  obtain new where new: "put_values env 1 c kvs S = Inr new" "steady (fst ` set (kv_servers c)) leader ?ks new"
     "kvDB (new leader) = put_all kvs (kvDB (S leader))"
    using put_values_steady [where env = env and i = 1 and n = m and ks = ?ks and kvs = kvs and servers = S, OF c e m _ w r] S(2)
    unfolding names by blast
  have "get_values env 4 c [''k1'', ''k2'', ''k3''] new =
      Inr (map (\<lambda>key. case kvDB (new leader) key of None \<Rightarrow> ''Error'' | Some v \<Rightarrow> v) [''k1'', ''k2'', ''k3''])"
    by (rule get_values_idle [OF c]) (use new(2) env(3) in \<open>auto simp: steady_def settled_def leading_def\<close>)
  also have "\<dots> = Inr [''v1'', ''v2'', ''v3'']" by (simp add: new(3) kvs_def)
  finally have gets: "get_values env 4 c [''k1'', ''k2'', ''k3''] new = Inr [''v1'', ''v2'', ''v3'']" .
  have len: "1 + length [''k1'', ''k2'', ''k3''] = 4" by simp
  show ?thesis unfolding TestClientPut_def Let_def svs_def [symmetric] c_def [symmetric] kvs_def [symmetric] len
    using S(1) new(1) gets by (simp del: put_values.simps get_values.simps)
qed

text \<open>
  The driver \<open>TestClientPut\<close> with an election in the first sleep and the followers' answers in the others.
\<close>

definition sleeping :: "nat \<Rightarrow> string \<Rightarrow> string list \<Rightarrow> string list \<Rightarrow> nat \<Rightarrow> (string \<Rightarrow> Skvserver) \<Rightarrow> (string \<Rightarrow> Skvserver) result" where
  "sleeping m leader vs ws j =
     (if j = 0 then elect_round leader vs else if j < 4 then replicate_round m leader ws else Inr)"

text \<open>
  Claim C6. The test program reads what it wrote. \<open>TestClientPut\<close> starts two or more servers that find no persisted file; in its first sleep the
  timer of one of them fires and enough others vote for it, and in the sleep after each put as many of these
  as a commit needs answer its requests. Then no call faults, and the three values it reads at the
  end are the three values it put. The program runs it with ten servers.
\<close>
theorem test_client_put:
  assumes "n < 2 ^ 63" "i < n"
    and js: "distinct js" "set js \<subseteq> {..<n} - {i}" "js \<noteq> []" "(n - 1) div 2 < 1 + length js"
    and q: "0 < q" "q \<le> length js" "(n - 1) div 2 \<le> 1 + q" "q = 1 \<or> q < (n - 1) div 2"
    and clk: "clk i 0 + rnd i 0 interval_election_low interval_election_high < clk i 1"
      "\<not> clk i 2 + interval_election_fail < clk i 1" and m: "3 \<le> m"
  shows "TestClientPut (sleeping m (local_addr basePort i) (map (local_addr basePort) js) (map (local_addr basePort) (take q js))) clk rnd (\<lambda>_. None) n
     = Inr [''v1'', ''v2'', ''v3'']"
  by (rule client_put_driver [where n = n and i = i and js = js and q = q and m = m and clk = clk and rnd = rnd and leader = "local_addr basePort i",
        OF assms(1,2) refl js q clk _ _ _ m]) (simp_all add: sleeping_def)

theorem test_client_put_witness:
  "sraft_test_main (sleeping 3 (local_addr basePort 0) (map (local_addr basePort) [1, 2, 3, 4]) (map (local_addr basePort) [1, 2, 3]))
     (\<lambda>_ k. of_nat (1000 * k)) (\<lambda>_ _ lo _. lo) (\<lambda>_. None) = Inr [''v1'', ''v2'', ''v3'']"
proof -
  have c: "of_nat (1000 * 0) + interval_election_low < (of_nat (1000 * 1) :: u64)"
    "\<not> of_nat (1000 * 2) + interval_election_fail < (of_nat (1000 * 1) :: u64)"
    by (simp_all add: interval_election_low_def interval_election_fail_def)
  have j: "(10 :: nat) < 2 ^ 63" "(0 :: nat) < 10" "distinct [1, 2, 3, 4 :: nat]" "set [1, 2, 3, 4] \<subseteq> {..<10} - {0 :: nat}"
    "[1, 2, 3, 4 :: nat] \<noteq> []" "(10 - 1 :: nat) div 2 < 1 + length [1, 2, 3, 4 :: nat]"
    and q: "(0 :: nat) < 3" "3 \<le> length [1, 2, 3, 4 :: nat]" "(10 - 1 :: nat) div 2 \<le> 1 + 3" "(3 :: nat) = 1 \<or> 3 < (10 - 1 :: nat) div 2"
    by auto
  have "take 3 [1, 2, 3, 4 :: nat] = [1, 2, 3]" by simp
  then show ?thesis
    using test_client_put [where clk = "\<lambda>_ k. of_nat (1000 * k)" and rnd = "\<lambda>_ _ lo _. lo" and m = 3, OF j q c order_refl]
    unfolding sraft_test_main_def by simp
qed

subsection \<open>Reading before there is a leader\<close>

lemma get_without_leader:
  assumes "named_servers c" "\<And>k. k \<in> fst ` set (kv_servers c) \<Longrightarrow> state (node (servers k)) \<noteq> LEADER"
  shows "Skvclient_Get (serve_get servers) key c = ([], c)"
proof -
  have wrong: "gr_WrongLeader (KvserverClient_Get (serve_get servers) m k q)" if "k \<in> fst ` set (kv_servers c)" for m k q
    using assms(2) [OF that] by (simp add: KvserverClient_Get_def serve_get_def KvserverServiceImpl_Get_def get_def)
  have known: "kv_client p = k" "k \<in> fst ` set (kv_servers c)" if "(k, p) \<in> set (kv_servers c)" for k p
    using assms(1) that by (auto simp: named_servers_def) force
  have "ask_servers (serve_get servers) q m ps c = ([], c)" if "set ps \<subseteq> set (kv_servers c)" for q m ps
    using that by (induction ps arbitrary: m) (auto simp: known wrong)
  then have all: "ask_servers (serve_get servers) q m (kv_servers c) c = ([], c)" for q m by simp
  show ?thesis
  proof (cases "map_of (kv_servers c) (leaderName c)")
    case None
    then show ?thesis by (simp add: Skvclient_Get_def all)
  next
    case (Some p)
    have "(leaderName c, p) \<in> set (kv_servers c)" using Some by (rule map_of_SomeD)
    note known [OF this]
    then show ?thesis using Some wrong by (simp add: Skvclient_Get_def all)
  qed
qed

text \<open>
  \<open>TestClientGet\<close> reads at once and every 300 ms: until a server leads the client gets the empty string, which it cannot
  tell from a value, and after that the value every server starts with.
\<close>

lemma test_client_get:
  assumes "n < 2 ^ 63" "i < n"
    and js: "distinct js" "set js \<subseteq> {..<n} - {i}" "js \<noteq> []" "(n - 1) div 2 < 1 + length js"
    and q: "0 < q" "q \<le> length js" "(n - 1) div 2 \<le> 1 + q" "q = 1 \<or> q < (n - 1) div 2"
    and clk: "clk i 0 + rnd i 0 interval_election_low interval_election_high < clk i 1"
      "\<not> clk i 2 + interval_election_fail < clk i 1"
  shows "TestClientGet (\<lambda>j. if j = 1 then elect_round (local_addr basePort i) (map (local_addr basePort) js) else Inr) clk rnd (\<lambda>_. None) n
     = Inr [[], [], ''world'', ''world'', ''world'']"
proof -
  define svs where "svs = RunServerRaft (MakeServers n clk rnd (\<lambda>_. None))"
  define c where "c = InitClient svs new_Skvclient"
  define env where "env = (\<lambda>j :: nat. if j = 1 then elect_round (local_addr basePort i) (map (local_addr basePort) js) else Inr)"
  obtain S where S: "elect_round (local_addr basePort i) (map (local_addr basePort) js) (server_at svs) = Inr S"
     "steady (local_addr basePort ` {..<n}) (local_addr basePort i) (map (local_addr basePort) (take q js)) S"
     "kvDB (S (local_addr basePort i)) = [''hello'' \<mapsto> ''world'']"
    using fresh_elect_round [OF assms(1,2) svs_def js q clk] by blast
  have names: "named_servers c" "fst ` set (kv_servers c) = local_addr basePort ` {..<n}"
    using InitClient_named [of svs]
    by (simp_all add: c_def svs_def MakeServers_started [OF assms(1)] started_node image_image atLeast0LessThan)
  have none: "state (node (server_at svs k)) \<noteq> LEADER" if k: "k \<in> fst ` set (kv_servers c)" for k
  proof -
    obtain j where j: "j < n" "k = local_addr basePort j" using k names(2) by auto
    have as: "map kv_addrStr svs = map (local_addr basePort) [0..<n]" "length svs = n"
      by (simp_all add: svs_def MakeServers_started [OF assms(1)] started_node)
    have "svs ! j = started_server n j (clk j) (rnd j) None" using j(1) by (simp add: svs_def MakeServers_started [OF assms(1)])
    moreover have "server_at svs k = svs ! j"
      using server_at_nth [of svs j] as j local_addr_distinct [OF assms(1), of basePort] calculation by (simp add: started_node)
    ultimately show ?thesis by (simp add: started_node)
  qed
  have "get_values env 2 c (replicate 3 ''hello'') S =
      Inr (map (\<lambda>key. case kvDB (S (local_addr basePort i)) key of None \<Rightarrow> ''Error'' | Some v \<Rightarrow> v) (replicate 3 ''hello''))"
    by (rule get_values_idle [OF names(1)])
      (use S(2) names(2) assms(2) in \<open>auto simp: steady_def settled_def leading_def env_def\<close>)
  also have "\<dots> = Inr (replicate 3 ''world'')" by (simp add: S(3))
  finally have late: "get_values env 2 c (replicate 3 ''hello'') S = Inr (replicate 3 ''world'')" .
  note early = get_without_leader [OF names(1) none, of _ "''hello''"]
  have "get_values env 0 c (''hello'' # ''hello'' # replicate 3 ''hello'') (server_at svs) = Inr ([] # [] # replicate 3 ''world'')"
    using early late S(1) by (simp add: env_def [symmetric]) (simp add: env_def numeral_2_eq_2)
  moreover have "replicate 5 key = key # key # replicate 3 key" "replicate 3 key = [key, key, key]" for key :: string
    by (simp_all add: numeral_eq_Suc)
  ultimately show ?thesis unfolding TestClientGet_def Let_def svs_def [symmetric] c_def [symmetric] env_def [symmetric] by simp
qed

subsection \<open>Logging at the leader\<close>

text \<open>
  \<open>TestDoLog\<close>: nodes are looked up by their address, which stands for the pointer that \<open>PickLeader\<close> returns.
\<close>

fun do_logs :: "(nat \<Rightarrow> (string \<Rightarrow> SRaft) \<Rightarrow> (string \<Rightarrow> SRaft) result) \<Rightarrow> string list \<Rightarrow> nat \<Rightarrow> nat \<Rightarrow> (string \<Rightarrow> SRaft) \<Rightarrow>
    (string \<Rightarrow> SRaft) result" where
  "do_logs env addrs i 0 nds = Inr nds"
| "do_logs env addrs i (Suc n) nds =
     (case PickLeader (map nds addrs) of
        None \<Rightarrow> do_logs env addrs (Suc i) n nds
      | Some leader \<Rightarrow>
          let logstr = ''log '' @ decimal i
          in rbind (env (Suc i) nds) (\<lambda>nds.
             rbind (DoLog logstr (nds (addrStr leader))) (\<lambda>(r, s).
             do_logs env addrs (Suc i) n (nds(addrStr leader := s)))))"

definition TestDoLog :: "(nat \<Rightarrow> (string \<Rightarrow> SRaft) \<Rightarrow> (string \<Rightarrow> SRaft) result) \<Rightarrow> string list \<Rightarrow> (string \<Rightarrow> nat \<Rightarrow> u64) \<Rightarrow>
    (string \<Rightarrow> nat \<Rightarrow> u64 \<Rightarrow> u64 \<Rightarrow> u64) \<Rightarrow> (string \<Rightarrow> PersistRecord option) \<Rightarrow> (string \<Rightarrow> SRaft) result" where
  "TestDoLog env addrs clk rnd files = rbind (env 0 (nodes (MakeNodes addrs clk rnd files))) (do_logs env addrs 0 5)"

lemma leading_DoLog:
  assumes l: "leading l" and room: "length (logs l) + 1 < 2 ^ 63 - 2"
  shows "\<exists>l'. DoLog cmd l = Inr (1, l') \<and> leading l' \<and> logs l' = logs l @ [new_entry cmd l] \<and> addrStr l' = addrStr l"
proof -
  obtain l' where r: "DoLog cmd l = Inr (1, l')" "logs l' = logs l @ [new_entry cmd l]" "peers l' = peers l" "state l' = LEADER"
      "commitIndex l' = commitIndex l" "lastApplied l' = lastApplied l"
    using DoLog_leading [OF l, of cmd] by blast
  note L = leading_new_log [OF l, of cmd, folded r(2)] leading_last [OF l]
  have id: "same_identity l l'" by (rule DoLog_identity [OF r(1)])
  have "leading l'" unfolding leading_def
  proof (intro conjI allI impI)
    show "running l'" "state l' = LEADER" "wf_log (logs l')" "sint (BaseLogIndex (logs l')) = 0" "commitIndex l' = lastApplied l'"
      "-1 \<le> sint (lastApplied l')" "peers l' \<noteq> []" "all_live (peers l')" "distinct (map fst (peers l'))" "length (peers l') < 2 ^ 63"
      using l id r(3-6) L by (simp_all add: leading_def same_identity_def)
    show "log_room (logs l')" using L(4) room by (simp add: log_room_def)
    show "lastApplied l' \<le>s LastLogIndex (logs l')" using l r(6) L(4,5) by (simp add: leading_def sle_i64)
    fix k p assume "(k, Some p) \<in> set (peers l')"
    then have "peerSRaftClient p = k \<and> 0 \<le> sint (nextIndex p) \<and> sint (nextIndex p) \<le> int (length (logs l)) \<and>
        matchIndex p \<le>s LastLogIndex (logs l)"
      using l r(3) by (simp add: leading_def)
    then show "peerSRaftClient p = k" "0 \<le> sint (nextIndex p)" "sint (nextIndex p) \<le> int (length (logs l'))"
        "matchIndex p \<le>s LastLogIndex (logs l')"
      using r(2) L(4,5) by (auto simp: sle_i64)
  qed
  then show ?thesis using r DoLog_identity [OF r(1)] by (intro exI [of _ l']) (simp add: same_identity_def)
qed

text \<open>With a leader that stays, the driver's lines are appended to its log in order.\<close>

lemma do_logs_appends:
  assumes "PickLeader (map nds addrs) = Some (nds a)" "a \<in> set addrs" "distinct addrs" "leading (nds a)" "addrStr (nds a) = a"
    and "\<And>j. env j = Inr" "length (logs (nds a)) + n < 2 ^ 63 - 2" "\<And>b. b \<in> set addrs \<Longrightarrow> b \<noteq> a \<Longrightarrow> state (nds b) \<noteq> LEADER"
  shows "\<exists>nds'. do_logs env addrs i n nds = Inr nds' \<and>
     map le_data (logs (nds' a)) = map le_data (logs (nds a)) @ map (\<lambda>j. ''log '' @ decimal j) [i..<i + n]"
  using assms
proof (induction n arbitrary: i nds)
  case (Suc n)
  obtain l where l: "DoLog (''log '' @ decimal i) (nds a) = Inr (1, l)" "leading l"
      "logs l = logs (nds a) @ [new_entry (''log '' @ decimal i) (nds a)]" "addrStr l = a"
    using leading_DoLog [OF Suc.prems(4), of "''log '' @ decimal i"] Suc.prems(5,7) by auto
  let ?nds = "nds(a := l)"
  have pick: "PickLeader (map ?nds addrs) = Some (?nds a)"
  proof -
    have "find (\<lambda>nd. state nd = LEADER) (map ?nds as) = Some l" if "a \<in> set as" "set as \<subseteq> set addrs" for as
      using that l(2) Suc.prems(8) by (induction as) (auto simp: leading_def)
    then show ?thesis using Suc.prems(2) by (simp add: PickLeader_def)
  qed
  have st: "state (?nds b) \<noteq> LEADER" if "b \<in> set addrs" "b \<noteq> a" for b using Suc.prems(8) [OF that] that(2) by simp
  have room: "length (logs (?nds a)) + n < 2 ^ 63 - 2" using Suc.prems(7) l(3) by simp
  have "leading (?nds a)" "addrStr (?nds a) = a" using l(2,4) by simp_all
  from Suc.IH [OF pick Suc.prems(2,3) this Suc.prems(6) room st, of "Suc i"]
  obtain nds' where r: "do_logs env addrs (Suc i) n ?nds = Inr nds'"
     "map le_data (logs (nds' a)) = map le_data (logs (?nds a)) @ map (\<lambda>j. ''log '' @ decimal j) [Suc i..<Suc i + n]"
    by blast
  have "do_logs env addrs i (Suc n) nds = Inr nds'"
    using Suc.prems(1,5,6) l(1) r(1) by simp
  moreover have "[i..<i + Suc n] = i # [Suc i..<Suc i + n]" by (simp add: upt_conv_Cons)
  moreover have "map le_data (logs (?nds a)) = map le_data (logs (nds a)) @ [''log '' @ decimal i]"
    using l(3) by (simp add: new_entry_def)
  ultimately show ?case using r(2) by (intro exI [of _ nds']) simp
qed simp
end
