(* ===== verification/LostWrite.thy ===== *)
theory LostWrite
  imports ClientServer ElectionRound
begin

text \<open>
  What becomes of a committed write when a server without a log stands for election: the two rounds of
  \<open>ReplicatedWrite\<close> and \<open>ElectionRound\<close> one after the other, with the client reading before and after.
\<close>

definition no_snapshot :: "SRaft \<Rightarrow> bool" where
  "no_snapshot s \<longleftrightarrow> lastIncludeIndex s = -1 \<and> lastIncludeTerm s = 0"

text \<open>A follower whose election is due and whose clock does not jump.\<close>

definition about_to_stand :: "SRaft \<Rightarrow> bool" where
  "about_to_stand l \<longleftrightarrow> running l \<and> state l = FOLLOWER \<and> dueElection l < clock l (ticks l) \<and>
     \<not> clock l (Suc (ticks l)) + interval_election_fail < clock l (ticks l) \<and> currentTerm l \<noteq> -1 \<and>
     all_live (peers l) \<and> distinct (map fst (peers l)) \<and> length (peers l) < 2 ^ 63 \<and>
     (\<forall>k p. (k, Some p) \<in> set (peers l) \<longrightarrow> peerSRaftClient p = k)"

text \<open>A node without an entry gets the vote of the leader and of the followers that hold the leader's new entry.\<close>

lemma holders_vote:
  assumes L: "leading L" "same_identity L l" "currentTerm l = currentTerm L" "LastLogTerm (logs l) = currentTerm l"
    and fs: "\<And>f. f \<in> set fs \<Longrightarrow> in_sync L f" "list_all2 brought fs fs'" "\<And>f. f \<in> set fs' \<Longrightarrow> logs f = logs l"
    and B: "about_to_stand B" "logs B = []" "\<not> currentTerm B < currentTerm L"
    and voters: "\<And>f. f \<in> set (L # fs) \<Longrightarrow> no_snapshot f \<and> addrStr f \<in> fst ` set (peers B)"
    and f: "f \<in> set (l\<lparr>channel := que\<rparr> # fs')"
  shows "votes_for B f"
proof -
  have tm: "currentTerm L \<noteq> -1" "currentTerm B \<noteq> -1"
    using B(1,3) word_n1_ge [of "currentTerm B"] by (auto simp: about_to_stand_def order_less_le)
  have votes: "votes_for B g" if "same_identity f g" "currentTerm g \<le> currentTerm L" "logs g = logs l" "running f"
      "f \<in> set (L # fs)" for f g
    using that voters [OF that(5)] B(2,3) tm L(3,4) empty_log_not_outdated [OF B(2), of g]
    by (auto simp: votes_for_def same_identity_def no_snapshot_def)
  show ?thesis
  proof (cases "f \<in> set fs'")
    case True
    then obtain i where i: "i < length fs'" "fs' ! i = f" by (auto simp: in_set_conv_nth)
    have g: "fs ! i \<in> set fs" "brought (fs ! i) f" using fs(2) i by (auto simp: list_all2_conv_all_nth)
    show ?thesis
      by (rule votes [of "fs ! i"]) (use g fs(1) [OF g(1)] fs(3) [OF True] in \<open>auto simp: brought_def in_sync_def\<close>)
  next
    case False
    then have "f = l\<lparr>channel := que\<rparr>" using f by simp
    then show ?thesis by (intro votes [of L]) (use L in \<open>auto simp: same_identity_def leading_def\<close>)
  qed
qed

text \<open>
  Claim C20. A committed write can be lost. A client's value goes to the leader, to the logs of followers in
  sync, on disk, is committed, applied, and read back by the client. Then a server that has never had a log
  entry and knows the term passes its election time: the leader and the very followers that hold the entry
  vote for it, it leads the next term, and the client's next \<open>Get\<close> of the key finds the new leader and
  returns \<open>Error\<close>. No node fails, no message is lost and no clock jumps.
\<close>
theorem committed_write_lost:
  assumes c: "named_servers c" "leader \<in> fst ` set (kv_servers c)" "b \<in> fst ` set (kv_servers c)" "b \<noteq> leader"
    and others: "\<And>k. k \<in> fst ` set (kv_servers c) \<Longrightarrow> k \<noteq> leader \<Longrightarrow> state (node (servers k)) \<noteq> LEADER"
    and lead: "leading (node (servers leader))" "receiving (servers leader)"
    and fs: "distinct (addrStr (node (servers leader)) # map addrStr fs)" "\<And>f. f \<in> set fs \<Longrightarrow> in_sync (node (servers leader)) f"
      "fs \<noteq> []" "length (peers (node (servers leader))) div 2 \<le> 1 + length fs"
    and w: "word_string key" "word_string v"
    and n: "2 * (length (queued (servers leader)) + length (logs (node (servers leader))) + 1) + 1 \<le> n"
    and b: "about_to_stand (node (servers b))" "logs (node (servers b)) = []" "kvDB (servers b) key = None"
      "\<not> currentTerm (node (servers b)) < currentTerm (node (servers leader))"
    and voters: "\<And>f. f \<in> set (node (servers leader) # fs) \<Longrightarrow> no_snapshot f \<and> addrStr f \<in> fst ` set (peers (node (servers b)))"
      "length (peers (node (servers b))) div 2 < 2 + length fs"
  shows "\<exists>served fs' l sv b' vs lb. serve_puts (Skvclient_Put key v c) servers = Inr served \<and>
     append_round fs (node (served leader)) = Inr (fs', l) \<and>
     (\<forall>f \<in> set fs'. le_data (last (logs f)) = ''put '' @ key @ '' '' @ v \<and> log_saved f) \<and>
     run_steps kv_step (replicate n Recieve) ((served leader)\<lparr>node := l\<rparr>) = Inr sv \<and>
     Skvclient_Get (serve_get (served(leader := sv))) key c = (v, c\<lparr>leaderName := leader\<rparr>) \<and>
     OnTimer (node (served b)) = Inr b' \<and> vote_round (node sv # fs') b' = (vs, lb) \<and> state lb = LEADER \<and>
     Skvclient_Get (serve_get (served(leader := sv\<lparr>node := hd vs\<rparr>, b := (served b)\<lparr>node := lb\<rparr>))) key
       (c\<lparr>leaderName := leader\<rparr>) = (''Error'', c\<lparr>leaderName := b\<rparr>)"
proof -
  let ?L = "node (servers leader)" let ?B = "node (servers b)"
  have dist: "distinct (map addrStr fs)" using fs(1) by simp
  obtain served fs' l sv que where r: "serve_puts (Skvclient_Put key v c) servers = Inr served"
     "append_round fs (node (served leader)) = Inr (fs', l)"
     "\<forall>f \<in> set fs'. le_data (last (logs f)) = ''put '' @ key @ '' '' @ v \<and> log_saved f"
     "run_steps kv_step (replicate n Recieve) ((served leader)\<lparr>node := l\<rparr>) = Inr sv"
     "Skvclient_Get (serve_get (served(leader := sv))) key c = (v, c\<lparr>leaderName := leader\<rparr>)"
     and s: "\<And>k. k \<noteq> leader \<Longrightarrow> served k = servers k" and sv: "node sv = l\<lparr>channel := que\<rparr>"
     and l: "same_identity ?L l" "currentTerm l = currentTerm ?L" "LastLogTerm (logs l) = currentTerm l"
     and fs': "list_all2 brought fs fs'" "\<And>f. f \<in> set fs' \<Longrightarrow> logs f = logs l"
    using write_served [where servers = servers and leader = leader and fs = fs, OF c(1,2) others lead dist fs(2-4) w n] by blast
  have served_b: "served b = servers b" using s c(4) by simp
  have "map addrStr fs' = map addrStr fs" using fs'(1)
    by (auto simp: list_all2_conv_all_nth brought_def same_identity_def intro: nth_equalityI)
  then have d: "distinct (map addrStr (node sv # fs'))" "length fs' = length fs"
    using fs(1) l(1) sv list_all2_lengthD [OF fs'(1)] by (auto simp: same_identity_def)
  have B: "running ?B" "state ?B = FOLLOWER" "dueElection ?B < clock ?B (ticks ?B)"
      "\<not> clock ?B (Suc (ticks ?B)) + interval_election_fail < clock ?B (ticks ?B)" "currentTerm ?B \<noteq> -1"
      "all_live (peers ?B)" "distinct (map fst (peers ?B))" "length (peers ?B) < 2 ^ 63"
      "\<And>k p. (k, Some p) \<in> set (peers ?B) \<Longrightarrow> peerSRaftClient p = k"
    using b(1) by (simp_all add: about_to_stand_def)
  have all: "votes_for ?B f" if "f \<in> set (node sv # fs')" for f
    by (rule holders_vote [OF lead(1) l fs(2) fs' b(1,2,4) voters(1) that [unfolded sv]])
  obtain b' vs lb where e: "OnTimer ?B = Inr b'" "vote_round (node sv # fs') b' = (vs, lb)" "state lb = LEADER"
      "list_all2 (voted (currentTerm ?B + 1)) (node sv # fs') vs"
    using election_wins [where fs = "node sv # fs'", OF B d(1) all] voters(2) d(2) by auto
  have hd: "state (hd vs) \<noteq> LEADER" using e(4) by (cases vs) (auto simp: voted_def)
  let ?S = "served(leader := sv\<lparr>node := hd vs\<rparr>, b := (served b)\<lparr>node := lb\<rparr>)"
  let ?c = "c\<lparr>leaderName := leader\<rparr>"
  have "Skvclient_Get (serve_get ?S) key ?c = (case kvDB (?S b) key of None \<Rightarrow> ''Error'' | Some v \<Rightarrow> v, ?c\<lparr>leaderName := b\<rparr>)"
  proof (rule get_from_any_leader)
    show "named_servers ?c" using c(1) by (simp add: named_servers_def)
    show "b \<in> fst ` set (kv_servers ?c)" using c(3) by simp
    show "state (node (?S b)) = LEADER" using e(3) by simp
    show "state (node (?S k)) \<noteq> LEADER" if "k \<in> fst ` set (kv_servers ?c)" "k \<noteq> b" for k
      using that hd others [of k] s [of k] by auto
  qed
  then show ?thesis using r e served_b b(3)
    by (intro exI [of _ served] exI [of _ fs'] exI [of _ l] exI [of _ sv] exI [of _ b'] exI [of _ vs] exI [of _ lb]) simp
qed

definition forgetful_cluster :: "string \<Rightarrow> Skvserver" where
  "forgetful_cluster k = (if k = ''b'' then example_server\<lparr>node := five_nodes_leader\<lparr>logs := []\<rparr>\<rparr>
     else example_server\<lparr>node := (new_SRaft ''G'' (Some []) (\<lambda>k. of_nat (1000 * k + 1)) (\<lambda>k lo hi. lo) None)
       \<lparr>running := True, currentTerm := 1, peers := map (\<lambda>k. (k, Some \<lparr>peer_name = k, peerSRaftClient = k,
          nextIndex = 0, matchIndex = -1\<rparr>)) [''F'', ''L'', ''H'', ''I'']\<rparr>\<rparr>)"

lemma forgetful_leader:
  shows "node (forgetful_cluster ''b'') = five_nodes_leader\<lparr>logs := []\<rparr>" "receiving (forgetful_cluster ''b'')"
    "queued (forgetful_cluster ''b'') = []" "leading (five_nodes_leader\<lparr>logs := []\<rparr>)" "length (peers five_nodes_leader) = 4"
    "addrStr five_nodes_leader = ''L''" "no_snapshot (five_nodes_leader\<lparr>logs := []\<rparr>)" "currentTerm five_nodes_leader = 1"
  by (auto simp: forgetful_cluster_def example_server_def new_Skvserver_def receiving_def queued_def leading_def
      five_nodes_leader_def example_leader_def new_SRaft_def log_room_def all_live_def sle_i64 no_snapshot_def)

lemma forgetful_candidate:
  shows "about_to_stand (node (forgetful_cluster ''a''))" "logs (node (forgetful_cluster ''a'')) = []" "kvDB (forgetful_cluster ''a'') ''k'' = None"
    "currentTerm (node (forgetful_cluster ''a'')) = 1" "fst ` set (peers (node (forgetful_cluster ''a''))) = {''F'', ''L'', ''H'', ''I''}"
    "length (peers (node (forgetful_cluster ''a''))) = 4"
  by (auto simp: about_to_stand_def forgetful_cluster_def example_server_def new_Skvserver_def new_SRaft_def all_live_def
      interval_election_fail_def)

lemma forgetful_follower:
  shows "addrStr example_follower = ''F''" "no_snapshot example_follower" "in_sync (node (forgetful_cluster ''b'')) example_follower"
  by (simp_all add: forgetful_leader(1) in_sync_def five_nodes_leader_def example_leader_def example_follower_def new_SRaft_def no_snapshot_def)

theorem committed_write_lost_witness:
  "\<exists>served fs' l sv b' vs lb. serve_puts (Skvclient_Put ''k'' ''v'' example_client) forgetful_cluster = Inr served \<and>
     append_round [example_follower] (node (served ''b'')) = Inr (fs', l) \<and>
     run_steps kv_step (replicate 3 Recieve) ((served ''b'')\<lparr>node := l\<rparr>) = Inr sv \<and>
     fst (Skvclient_Get (serve_get (served(''b'' := sv))) ''k'' example_client) = ''v'' \<and>
     OnTimer (node (served ''a'')) = Inr b' \<and> vote_round (node sv # fs') b' = (vs, lb) \<and>
     fst (Skvclient_Get (serve_get (served(''b'' := sv\<lparr>node := hd vs\<rparr>, ''a'' := (served ''a'')\<lparr>node := lb\<rparr>))) ''k''
       (example_client\<lparr>leaderName := ''b''\<rparr>)) = ''Error''"
proof -
  let ?l = "five_nodes_leader\<lparr>logs := []\<rparr>"
  have m: "''b'' \<in> fst ` set (kv_servers example_client)" "''a'' \<in> fst ` set (kv_servers example_client)" "''a'' \<noteq> ''b''"
    by (simp_all add: example_client_def AddServers_def new_Skvclient_def)
  have n: "named_servers example_client" unfolding example_client_def by (rule named_servers_new)
  have o: "state (node (forgetful_cluster k)) \<noteq> LEADER" if "k \<in> fst ` set (kv_servers example_client)" "k \<noteq> ''b''" for k
    using that(2) by (simp add: forgetful_cluster_def new_SRaft_def)
  note b = forgetful_leader and a = forgetful_candidate and F = forgetful_follower
  have f: "in_sync (node (forgetful_cluster ''b'')) f" if "f \<in> set [example_follower]" for f using that F(3) by simp
  have w: "word_string ''k''" "word_string ''v''" by (simp_all add: word_string_def isspace_def)
  have d: "distinct (addrStr (node (forgetful_cluster ''b'')) # map addrStr [example_follower])" using b(1,6) F(1) by simp
  have l: "leading (node (forgetful_cluster ''b''))" "length (peers (node (forgetful_cluster ''b''))) div 2 \<le> 1 + length [example_follower]"
    "2 * (length (queued (forgetful_cluster ''b'')) + length (logs (node (forgetful_cluster ''b''))) + 1) + 1 \<le> 3"
    "\<not> currentTerm (node (forgetful_cluster ''a'')) < currentTerm (node (forgetful_cluster ''b''))"
    "length (peers (node (forgetful_cluster ''a''))) div 2 < 2 + length [example_follower]"
    using b a by simp_all
  have v: "no_snapshot f \<and> addrStr f \<in> fst ` set (peers (node (forgetful_cluster ''a'')))"
    if "f \<in> set (node (forgetful_cluster ''b'') # [example_follower])" for f
  proof -
    have "f = ?l \<or> f = example_follower" using that b(1) by simp
    then show ?thesis unfolding a(5) using b(6,7) F by (elim disjE) simp_all
  qed
  have "\<exists>served fs' l sv b' vs lb. serve_puts (Skvclient_Put ''k'' ''v'' example_client) forgetful_cluster = Inr served \<and>
     append_round [example_follower] (node (served ''b'')) = Inr (fs', l) \<and>
     (\<forall>f \<in> set fs'. le_data (last (logs f)) = ''put '' @ ''k'' @ '' '' @ ''v'' \<and> log_saved f) \<and>
     run_steps kv_step (replicate 3 Recieve) ((served ''b'')\<lparr>node := l\<rparr>) = Inr sv \<and>
     Skvclient_Get (serve_get (served(''b'' := sv))) ''k'' example_client = (''v'', example_client\<lparr>leaderName := ''b''\<rparr>) \<and>
     OnTimer (node (served ''a'')) = Inr b' \<and> vote_round (node sv # fs') b' = (vs, lb) \<and> state lb = LEADER \<and>
     Skvclient_Get (serve_get (served(''b'' := sv\<lparr>node := hd vs\<rparr>, ''a'' := (served ''a'')\<lparr>node := lb\<rparr>))) ''k''
       (example_client\<lparr>leaderName := ''b''\<rparr>) = (''Error'', example_client\<lparr>leaderName := ''a''\<rparr>)"
    by (rule committed_write_lost) (fact n m o l(1) b(2) d f l(2) w l(3) a(1-3) l(4) v l(5) | rule list.distinct(2))+
  then obtain served fs' l sv b' vs lb where
    r: "serve_puts (Skvclient_Put ''k'' ''v'' example_client) forgetful_cluster = Inr served"
     "append_round [example_follower] (node (served ''b'')) = Inr (fs', l)"
     "run_steps kv_step (replicate 3 Recieve) ((served ''b'')\<lparr>node := l\<rparr>) = Inr sv"
     "OnTimer (node (served ''a'')) = Inr b'" "vote_round (node sv # fs') b' = (vs, lb)"
    and g: "Skvclient_Get (serve_get (served(''b'' := sv))) ''k'' example_client = (''v'', example_client\<lparr>leaderName := ''b''\<rparr>)"
     "Skvclient_Get (serve_get (served(''b'' := sv\<lparr>node := hd vs\<rparr>, ''a'' := (served ''a'')\<lparr>node := lb\<rparr>))) ''k''
       (example_client\<lparr>leaderName := ''b''\<rparr>) = (''Error'', example_client\<lparr>leaderName := ''a''\<rparr>)"
    by (elim exE conjE)
  show ?thesis
    by (intro exI conjI; (rule r | rule trans [OF arg_cong [of _ _ fst, OF g(1)] fst_conv] | rule trans [OF arg_cong [of _ _ fst, OF g(2)] fst_conv]))
qed

end
