(* ===== verification/NodeFaults.thy ===== *)
theory NodeFaults
  imports RaftBehaviour
begin

text \<open>
  When the operations of a node return. An operation faults on a null peer and hangs in the copying loop when
  \<open>LastLogIndex()\<close> is \<open>-1\<close>, and nowhere else: every run in which the answers carry the names of peers and no command
  gets the index \<open>-1\<close> gives a node again. An answer under another name inserts the null peer.
\<close>

lemma entries_loop_total: "LastLogIndex es \<noteq> -1 \<Longrightarrow> \<exists>r. entries_loop es i = Some r"
proof (induction "2 ^ 64 - unat i" arbitrary: i rule: less_induct)
  case less
  show ?case
  proof (cases "i \<le> LastLogIndex es")
    case False
    then show ?thesis using entries_loop_done by blast
  next
    case True
    then have "i \<noteq> -1" using less.prems by (metis word_order.extremum_uniqueI)
    then have u: "unat (i + 1) = unat i + 1"
      by (metis add.commute eq_neg_iff_add_eq_0 unatSuc plus_1_eq_Suc)
    have "unat i < 2 ^ 64" by (rule unat_u64_bound)
    then have "\<exists>r. entries_loop es (i + 1) = Some r" using less.hyps [of "i + 1"] less.prems u by simp
    then show ?thesis using entries_loop_step [OF True] by blast
  qed
qed

lemma append_request_total:
  assumes "hb \<or> LastLogIndex (logs s) \<noteq> -1"
  shows "is_ok (append_request hb p now s)"
proof -
  have "\<forall>i. \<exists>r. entries_loop (logs s) i = Some r" if "\<not> hb" using that assms entries_loop_total [of "logs s"] by blast
  then obtain f where "\<not> hb \<Longrightarrow> entries_loop (logs s) i = Some (f i)" for i by (cases hb) (blast, metis)
  then show ?thesis by (cases hb) (simp_all add: append_request_def Let_def)
qed

lemma for_peers_total:
  assumes "\<And>p t. I t \<Longrightarrow> is_ok (f p t)" "\<And>p t t'. f p t = Inr t' \<Longrightarrow> I t \<Longrightarrow> I t'"
  shows "all_live ps \<Longrightarrow> I s \<Longrightarrow> is_ok (for_peers f ps s)"
proof (induction ps arbitrary: s)
  case (Cons kp ps)
  obtain k p where kp: "kp = (k, Some p)" using Cons.prems(1) by (cases kp) (auto simp: all_live_def)
  obtain s1 where "f p s = Inr s1" using assms(1) [OF Cons.prems(2)] by (auto simp: is_ok_iff)
  then show ?case using Cons assms(2) kp by (auto simp: all_live_def)
qed simp

lemma DoAppendEntries_total:
  assumes "all_live (peers s)" "hb \<or> LastLogIndex (logs s) \<noteq> -1"
  shows "is_ok (DoAppendEntries hb s)"
proof -
  have "is_ok (for_peers (send_append hb) (peers t) t)" if "peers t = peers s" "logs t = logs s" for t
  proof (rule for_peers_total [where I = "\<lambda>u. logs u = logs s"])
    show "is_ok (send_append hb p u)" if "logs u = logs s" for p u
      using append_request_total [of hb "u\<lparr>ticks := Suc (ticks u)\<rparr>" p "clock u (ticks u)"] assms(2) that
      by (auto simp: send_append_def get_current_ms_def is_ok_iff)
    show "logs u' = logs s" if "send_append hb p u = Inr u'" "logs u = logs s" for p u u'
      using same_but_callsD(2) [OF send_append_frame [OF that(1)]] that(2) by simp
  qed (use assms(1) that in simp_all)
  then show ?thesis by (simp add: DoAppendEntries_def Let_def)
qed

lemma DoElection_total:
  assumes "all_live (peers s)"
  shows "is_ok (DoElection s)"
proof -
  have ok: "is_ok (for_peers (send_vote_request n) (peers s) t)" for n t
    by (rule for_peers_total [where I = "\<lambda>_. True"]) (use assms in \<open>simp_all add: send_vote_request_def\<close>)
  show ?thesis using ok by (simp add: DoElection_def Let_def get_current_ms_def)
qed

lemma OnTimer_total:
  assumes "all_live (peers s)"
  shows "is_ok (OnTimer s)"
proof (cases "running s")
  case True
  let ?s = "s\<lparr>ticks := Suc (ticks s)\<rparr>" and ?n = "clock s (ticks s)"
  have "is_ok (timer_heartbeat ?n ?s)"
    using DoAppendEntries_total [of "?s\<lparr>dueHeartBeat := ?n + interval_heartBeat\<rparr>" True] assms
    by (simp add: timer_heartbeat_def SendHeartbeat_def Let_def)
  then obtain t where t: "timer_heartbeat ?n ?s = Inr t" by (auto simp: is_ok_iff)
  then have "peers t = peers s" using timer_heartbeat_core [OF t] by (simp add: core_def)
  then have "is_ok (timer_election ?n t)" using DoElection_total [of t] assms by (simp add: timer_election_def)
  then show ?thesis using t True by (auto simp: OnTimer_def get_current_ms_def is_ok_iff)
qed (simp add: OnTimer_def)

lemma LastLogIndex_wf: "wf_log es \<Longrightarrow> es \<noteq> [] \<Longrightarrow> LastLogIndex es \<noteq> -1"
  by (frule (1) sint_LastLogIndex) (auto elim!: wf_logE simp: Suc_le_eq simp flip: length_greater_0_conv)

lemma DoLog_total:
  assumes "all_live (peers s)" "LastLogIndex (logs s) + 1 \<noteq> -1"
  shows "is_ok (DoLog cmd s)"
proof -
  let ?es = "logs s @ [\<lparr>le_index = LastLogIndex (logs s) + 1, le_term = currentTerm s, le_command = 0, le_data = cmd\<rparr>]"
  have "LastLogIndex ?es = LastLogIndex (logs s) + 1" by (simp add: LastLogIndex_def)
  then have "is_ok (DoAppendEntries False (Dump (s\<lparr>logs := ?es\<rparr>)))"
    using assms by (intro DoAppendEntries_total) simp_all
  then show ?thesis by (auto simp: DoLog_def Let_def is_ok_iff)
qed

text \<open>In a well-formed log with room the next index is never the \<open>-1\<close> that stands for the empty log.\<close>

lemma next_index_wf: "wf_log es \<Longrightarrow> log_room es \<Longrightarrow> LastLogIndex es + 1 \<noteq> -1"
  using LastLogIndex_wf [OF wf_log_snoc, of es "LogEntry_default\<lparr>le_index := LastLogIndex es + 1\<rparr>"]
  by (simp add: LastLogIndex_def)

lemma OnAppendEntriesReponse_total:
  assumes live: "all_live (peers s)" and known: "map_of (peers s) (ar_name r) \<noteq> None"
  shows "is_ok (OnAppendEntriesReponse r hb s)"
proof -
  obtain p where p: "map_of (peers s) (ar_name r) = Some (Some p)"
    using known live by (metis all_live_def map_of_SomeD not_Some_eq snd_conv)
  have "count_votes c (AList.update k (Some q) (peers s)) v =
      Inr (v + of_nat (replicas c (AList.update k (Some q) (peers s))))" for c k q v
    by (rule count_votes_eq [OF all_live_update [OF live]])
  then show ?thesis using p by (auto simp: OnAppendEntriesReponse_def Let_def peers_index_def set_peer_def is_ok_iff)
qed

lemma peers_after:
  assumes live: "all_live (peers s)"
  shows "OnTimer s = Inr s' \<Longrightarrow> peers s' = peers s"
    and "DoLog cmd s = Inr (x, s') \<Longrightarrow> peers s' = peers s"
    and "peers (snd (snd (OnRequestVoteRequest q rsp s))) = peers s"
    and "peers (snd (snd (OnAppendEntriesRequest a rsp' s))) = peers s"
    and "map_of (peers s) (ar_name r) \<noteq> None \<Longrightarrow> OnAppendEntriesReponse r hb s = Inr s' \<Longrightarrow> all_live (peers s')"
proof -
  show "OnTimer s = Inr s' \<Longrightarrow> peers s' = peers s"
    by (erule OnTimer_cases) (auto simp: core_def DoElection_effect)
  show "DoLog cmd s = Inr (x, s') \<Longrightarrow> peers s' = peers s"
    by (auto simp: DoLog_def Let_def rbind_Inr_iff DoAppendEntries_frame split: if_splits)
  show "peers (snd (snd (OnRequestVoteRequest q rsp s))) = peers s"
    by (simp add: OnRequestVoteRequest_def Let_def get_current_ms_def)
  show "peers (snd (snd (OnAppendEntriesRequest a rsp' s))) = peers s"
    by (simp add: OnAppendEntriesRequest_def Let_def get_current_ms_def get_ranged_random_def)
  show "map_of (peers s) (ar_name r) \<noteq> None \<Longrightarrow> OnAppendEntriesReponse r hb s = Inr s' \<Longrightarrow> all_live (peers s')"
    using live by (auto simp: OnAppendEntriesReponse_def Let_def peers_index_def set_peer_def rbind_Inr_iff all_live_update
        split: if_splits option.splits)
qed

text \<open>
  What an event must not do: hand in an answer under a name that is no peer's, or append a command whose index would
  be \<open>-1\<close>, the value of \<open>LastLogIndex()\<close> for an empty log.
\<close>

fun proper_event :: "node_event \<Rightarrow> SRaft \<Rightarrow> bool" where
  "proper_event (AppendReply r hb) s \<longleftrightarrow> map_of (peers s) (ar_name r) \<noteq> None"
| "proper_event (ClientCommand cmd) s \<longleftrightarrow> LastLogIndex (logs s) + 1 \<noteq> -1"
| "proper_event _ s \<longleftrightarrow> True"

fun proper_run :: "node_event list \<Rightarrow> SRaft \<Rightarrow> bool" where
  "proper_run [] s \<longleftrightarrow> True"
| "proper_run (ev # evs) s \<longleftrightarrow> proper_event ev s \<and> (case node_step ev s of Inl e \<Rightarrow> True | Inr s' \<Rightarrow> proper_run evs s')"

lemma node_step_total:
  assumes live: "all_live (peers s)" and pr: "proper_event ev s"
  shows "\<exists>s'. node_step ev s = Inr s' \<and> all_live (peers s')"
proof -
  have "is_ok (node_step ev s) \<and> (\<forall>s'. node_step ev s = Inr s' \<longrightarrow> all_live (peers s'))"
  proof (cases ev)
    case Tick
    then show ?thesis using OnTimer_total [OF live] peers_after(1) [OF live] live by simp
  next
    case (ClientCommand cmd)
    then have "is_ok (DoLog cmd s)" using DoLog_total [OF live] pr by simp
    then show ?thesis using ClientCommand peers_after(2) [OF live] live by (auto simp: is_ok_iff)
  next
    case (AppendReply r hb)
    then have "map_of (peers s) (ar_name r) \<noteq> None" using pr by simp
    from OnAppendEntriesReponse_total [OF live this] peers_after(5) [OF live this] show ?thesis
      unfolding AppendReply by simp
  next
    case (JoinPeer a)
    then show ?thesis using live by (simp add: AddPeer_def all_live_update)
  qed (use live peers_after(3,4) [OF live] in
      \<open>simp_all add: OnRequestVoteResponse_frame Run_def Load_def get_current_ms_def get_ranged_random_def new_SRaft_def
         all_live_def split: option.split\<close>)
  then show ?thesis by (auto simp: is_ok_iff)
qed

lemma proper_run_total:
  "all_live (peers s) \<Longrightarrow> proper_run evs s \<Longrightarrow>
   \<exists>s'. run_steps node_step evs s = Inr s' \<and> all_live (peers s')"
proof (induction evs arbitrary: s)
  case (Cons ev evs)
  obtain s1 where "node_step ev s = Inr s1" "all_live (peers s1)"
    using node_step_total [OF Cons.prems(1), of ev] Cons.prems(2) by auto
  then show ?case using Cons.IH [of s1] Cons.prems(2) by simp
qed simp

lemma unknown_reply:
  assumes "map_of (peers s) (ar_name r) = None"
  shows "case OnAppendEntriesReponse r hb s of Inl e \<Rightarrow> e = NullDeref
    | Inr s' \<Rightarrow> SendHeartbeat s' = Inl NullDeref \<and> DoElection s' = Inl NullDeref"
proof (cases "OnAppendEntriesReponse r hb s")
  case (Inl e)
  then show ?thesis using assms
    by (auto simp: OnAppendEntriesReponse_def Let_def peers_index_def set_peer_def map_add_def split: if_splits)
next
  case (Inr s')
  then have "\<not> all_live (peers s')" using assms
    by (auto simp: OnAppendEntriesReponse_def Let_def peers_index_def set_peer_def all_live_def map_add_def split: if_splits)
  then show ?thesis using Inr null_peer_crashes by simp
qed

text \<open>
  Claim C17. A node crashes or hangs for two reasons only. For a node that is built without a persisted file, over any
  sequence of its operations, crashes and restarts included, and whatever the requests and answers hold, each operation returns a node, provided that every answer to an
  append request carries the name of a peer and that no command is appended under the index \<open>-1\<close>. An answer
  under any other name dereferences null at once or makes the next heartbeat and the next election do so; the
  thread of a failed call hands in such an answer, the default response.
\<close>
theorem node_never_faults:
  assumes "proper_run evs (new_SRaft addr chan clk rnd None)"
  shows "\<exists>s. run_steps node_step evs (new_SRaft addr chan clk rnd None) = Inr s \<and>
    (\<forall>r hb. map_of (peers s) (ar_name r) = None \<longrightarrow>
      (case OnAppendEntriesReponse r hb s of Inl e \<Rightarrow> e = NullDeref
       | Inr s' \<Rightarrow> SendHeartbeat s' = Inl NullDeref \<and> DoElection s' = Inl NullDeref)) \<and>
    (map_of (peers s) '''' = None \<longrightarrow>
      (\<forall>s'. AppendEntries_thread None True s = Inr s' \<longrightarrow> SendHeartbeat s' = Inl NullDeref \<and> DoElection s' = Inl NullDeref))"
proof -
  let ?s = "new_SRaft addr chan clk rnd None"
  have "all_live (peers ?s)" by (simp add: all_live_def new_SRaft_def)
  then show ?thesis using proper_run_total [OF _ assms] unknown_reply failed_rpc_crashes by blast
qed

definition busy_node_events :: "node_event list" where
  "busy_node_events = [Start, Tick, ClientCommand ''put k v'', JoinPeer ''P'', AppendReply \<lparr>ar_name = ''P'', ar_term = 1,
     ar_success = True, ar_last_log_index = 0, ar_last_log_term = 1, ar_time = 0, ar_seq = 0\<rparr> False, Tick]"

theorem node_never_faults_witness:
  "\<exists>s. run_steps node_step busy_node_events (new_SRaft ''N'' (Some []) (\<lambda>k. of_nat k * 10) (\<lambda>k lo hi. 0) None) = Inr s"
proof -
  have "proper_run busy_node_events (new_SRaft ''N'' (Some []) (\<lambda>k. of_nat k * 10) (\<lambda>k lo hi. 0) None)" by code_simp
  from node_never_faults [OF this] show ?thesis by blast
qed

end
