(* ===== verification/LogMatching.thy ===== *)
theory LogMatching
  imports NodeFaults ReplicatedWrite
begin

text \<open>
  The same index and term, two commands. Raft keeps an entry unique under its index and term because the leader of a
  term only appends. Here \<open>OnAppendEntriesRequest\<close> takes entries of a newer term without leaving the leader state or its
  old term: the leader's log is cut back to the one of its successor, and its next command is appended under the old term.
\<close>

lemma DoLog_appends:
  assumes "DoLog cmd s = Inr (1, s')"
  shows "logs s' = logs s @ [new_entry cmd s] \<and> currentTerm s' = currentTerm s \<and> state s' = LEADER"
  using assms by (auto simp: DoLog_def Let_def rbind_Inr_iff new_entry_def DoAppendEntries_frame split: if_splits)

lemma DoLog_at_leader:
  assumes "running s" "state s = LEADER" "all_live (peers s)" "wf_log (logs s)" "log_room (logs s)"
  shows "\<exists>s'. DoLog cmd s = Inr (1, s') \<and> logs s' = logs s @ [new_entry cmd s]"
proof -
  obtain x s' where d: "DoLog cmd s = Inr (x, s')" using DoLog_total [OF assms(3) next_index_wf [OF assms(4,5)], of cmd] by (auto simp: is_ok_iff)
  then have "x = 1" using assms(1,2) by (auto simp: DoLog_def Let_def rbind_Inr_iff)
  then show ?thesis using d DoLog_appends by blast
qed

lemma OnAppendEntriesRequest_peers: "OnAppendEntriesRequest r rsp s = (x, rsp', s') \<Longrightarrow> peers s' = peers s"
  by (auto simp: OnAppendEntriesRequest_def Let_def get_current_ms_def get_ranged_random_def split: if_splits)

lemma append_success:
  "OnAppendEntriesRequest r AppendEntriesResponse_default s = (x, rsp, s') \<Longrightarrow> ar_success rsp \<Longrightarrow> x = 1"
  by (auto simp: OnAppendEntriesRequest_def Let_def get_current_ms_def get_ranged_random_def split: if_splits)

text \<open>A leader's new entry reaches a follower that answers; the leader still has a live stub for every peer.\<close>

lemma entry_sent:
  assumes a: "leading a" and f: "in_sync a f"
  shows "\<exists>a1 f1 a2. DoLog cmd a = Inr (1, a1) \<and> append_exchange f a1 = Inr (f1, a2) \<and> logs f1 = logs a @ [new_entry cmd a] \<and>
    logs a2 = logs f1 \<and> state a2 = LEADER \<and> currentTerm a2 = currentTerm a \<and> all_live (peers a2) \<and> same_identity a a2"
proof -
  obtain a1 where a1: "DoLog cmd a = Inr (1, a1)" "logs a1 = logs a @ [new_entry cmd a]" "peers a1 = peers a" "currentTerm a1 = currentTerm a"
      "commitIndex a1 = commitIndex a" "lastApplied a1 = lastApplied a" "channel a1 = channel a" "state a1 = LEADER" "written a1"
    and r: "reachable_by a1 f"
    using write_start [OF a, of cmd] f by blast
  have m: "addrStr f \<in> fst ` set (peers a1)" using r by (force simp: reachable_by_def dest: map_of_SomeD)
  have "after_acks a1 [] a1" using a1(8) by (simp add: after_acks_def enough_def)
  note s = append_exchange_step [OF a1(9) this r]
  obtain f1 a2 where e: "append_exchange f a1 = Inr (f1, a2)" "logs f1 = logs a1" "after_acks a1 [addrStr f] a2"
      "\<not> enough a1 [] \<longrightarrow> peers a2 = acked_peers (LastLogIndex (logs a1)) (set [addrStr f]) (peers a1)"
    using s m by auto
  have ps: "peers a2 = acked_peers (LastLogIndex (logs a1)) (set [addrStr f]) (peers a1)" using e(4) by (simp add: enough_def)
  have "append_round [f] a1 = Inr ([f1], a2)" using e(1) by simp
  then have "same_identity a a2" by (rule same_identity_trans [OF DoLog_identity [OF a1(1)] append_round_identity])
  moreover have "all_live (peers a2)" using a ps a1(3) by (simp add: leading_def)
  moreover have "logs a2 = logs f1" "state a2 = LEADER" "currentTerm a2 = currentTerm a" using e(2,3) a1(4) by (simp_all add: after_acks_def)
  ultimately show ?thesis using a1(1,2) e(1,2) by (intro exI [of _ a1] exI [of _ f1] exI [of _ a2]) simp
qed

text \<open>A leader of an older term takes the log of the leader of the newer one and goes on as the leader of its own term.\<close>

lemma leader_overwritten:
  assumes c: "wf_log (logs c)" "sint (BaseLogIndex (logs c)) = 0" "log_room (logs c)"
    and p: "sint (nextIndex p) = int n" "0 < n" "n < length (logs c)"
    and a: "running a" "state a = LEADER" "fs_ok a" "all_live (peers a)" "wf_log (logs a)" "currentTerm a < currentTerm c"
    and logs: "take n (logs a) = take n (logs c)"
  shows "\<exists>request rsp a' a''. append_request False p now c = Inr request \<and>
    OnAppendEntriesRequest request AppendEntriesResponse_default a = (1, rsp, a') \<and> ar_success rsp \<and>
    state a' = LEADER \<and> currentTerm a' = currentTerm a \<and> DoLog cmd a' = Inr (1, a'') \<and> logs a' = logs c \<and> logs a'' = logs c @ [new_entry cmd a']"
proof -
  have ne: "logs c \<noteq> []" using p(3) by auto
  obtain request where rq: "append_request False p now c = Inr request"
    using append_request_total [of False c p now] LastLogIndex_wf [OF c(1) ne] by (auto simp: is_ok_iff)
  obtain x rsp a' where rsp: "OnAppendEntriesRequest request AppendEntriesResponse_default a = (x, rsp, a')"
    by (cases "OnAppendEntriesRequest request AppendEntriesResponse_default a" rule: prod_cases3)
  have F: "running a" "\<not> currentTerm c < currentTerm a" "fs_ok a" "logs a = take n (logs c) @ drop n (logs a)" "wf_log (logs a)"
    "n = 0 \<Longrightarrow> drop n (logs a) = []"
    using a p(2) logs(1) by (auto simp flip: logs(1))
  note e = replication_exchange [OF c(1,2) p(3,1) F rq rsp]
  have ids: "running a'" "peers a' = peers a" "state a' = LEADER"
    using e(8,10) a(1,2) OnAppendEntriesRequest_peers [OF rsp] by (simp_all add: same_identity_def)
  then obtain a'' where d: "DoLog cmd a' = Inr (1, a'')" "logs a'' = logs a' @ [new_entry cmd a']"
    using DoLog_at_leader [of a' cmd] a(4) c(1,3) e(1) by auto
  have x: "x = 1" using rsp e(3) by (rule append_success)
  then show ?thesis using rq rsp x e(1,3,9) ids(3) d by auto
qed

text \<open>
  Claim C21. Two logs can hold different commands under one index and term. A leader \<open>a\<close> logs \<open>cmd1\<close> and its
  follower \<open>f\<close> takes the entry. Then \<open>a\<close> answers a request of the leader \<open>c\<close> of a newer term, whose log agrees with
  the one of \<open>a\<close> up to the next index \<open>c\<close> has for it and is as long as the one of \<open>a\<close> was: it takes the log of \<open>c\<close>, answers with success
  and remains the leader of its old term. It logs \<open>cmd2\<close>, and now its log and the log of \<open>f\<close> hold \<open>cmd2\<close> and
  \<open>cmd1\<close> at the same place, with the same index and the same term.
\<close>
theorem log_matching_fails:
  assumes c: "wf_log (logs c)" "sint (BaseLogIndex (logs c)) = 0" "log_room (logs c)"
    and p: "sint (nextIndex p) = int n" "0 < n" "n < length (logs c)"
    and a: "leading a" "fs_ok a" "currentTerm a < currentTerm c" "in_sync a f"
    and logs: "take n (logs a) = take n (logs c)" "length (logs a) = length (logs c)" and cmds: "cmd1 \<noteq> cmd2"
  shows "\<exists>a1 f1 a2 request rsp a3 a4 i. DoLog cmd1 a = Inr (1, a1) \<and> append_exchange f a1 = Inr (f1, a2) \<and>
    append_request False p now c = Inr request \<and>
    OnAppendEntriesRequest request AppendEntriesResponse_default a2 = (1, rsp, a3) \<and> ar_success rsp \<and>
    state a3 = LEADER \<and> DoLog cmd2 a3 = Inr (1, a4) \<and> i < length (logs f1) \<and> i < length (logs a4) \<and>
    le_index (logs f1 ! i) = le_index (logs a4 ! i) \<and> le_term (logs f1 ! i) = le_term (logs a4 ! i) \<and>
    le_data (logs f1 ! i) = cmd1 \<and> le_data (logs a4 ! i) = cmd2 \<and> le_data (logs f1 ! i) \<noteq> le_data (logs a4 ! i)"
proof -
  obtain a1 f1 a2 where 1: "DoLog cmd1 a = Inr (1, a1)" "append_exchange f a1 = Inr (f1, a2)" "logs f1 = logs a @ [new_entry cmd1 a]"
      "logs a2 = logs f1" "state a2 = LEADER" "currentTerm a2 = currentTerm a" "all_live (peers a2)" "same_identity a a2"
    using entry_sent [OF a(1,4), of cmd1] by blast
  have "wf_log (logs a2)" using leading_new_log(1) [OF a(1), of cmd1] 1(3,4) by simp
  moreover have "running a2" "fs_ok a2" using 1(8) a(1,2) by (simp_all add: same_identity_def leading_def)
  moreover have "take n (logs a2) = take n (logs c)" using 1(3,4) logs p(3) by simp
  ultimately obtain request rsp a3 a4 where 2: "append_request False p now c = Inr request"
      "OnAppendEntriesRequest request AppendEntriesResponse_default a2 = (1, rsp, a3)" "ar_success rsp"
      "state a3 = LEADER" "currentTerm a3 = currentTerm a" "DoLog cmd2 a3 = Inr (1, a4)" "logs a3 = logs c" "logs a4 = logs c @ [new_entry cmd2 a3]"
    using leader_overwritten [OF c p, of a2 now cmd2] 1(5-7) a(3) by auto
  have ne: "logs c \<noteq> []" using p(3) by auto
  have "sint (LastLogIndex (logs c)) = sint (LastLogIndex (logs a))"
    using sint_LastLogIndex [OF c(1) ne] c(2) leading_last [OF a(1)] logs(2) by simp
  then have idx: "LastLogIndex (logs c) = LastLogIndex (logs a)" by (simp add: sint_i64_eq_iff)
  define i where "i = length (logs c)"
  have "logs f1 ! i = new_entry cmd1 a" "logs a4 ! i = new_entry cmd2 a3" "i < length (logs f1)" "i < length (logs a4)"
    using 1(3) 2(8) logs(2) by (simp_all add: i_def nth_append)
  then show ?thesis using 1(1,2) 2 idx cmds
    by (intro exI [of _ a1] exI [of _ f1] exI [of _ a2] exI [of _ request] exI [of _ rsp] exI [of _ a3] exI [of _ a4] exI [of _ i])
      (simp add: new_entry_def)
qed

definition later_entry :: "i64 \<Rightarrow> u64 \<Rightarrow> string \<Rightarrow> LogEntry" where
  "later_entry i t cmd = \<lparr>le_index = i, le_term = t, le_command = 0, le_data = cmd\<rparr>"

definition new_leader :: SRaft where
  "new_leader = example_leader\<lparr>currentTerm := 3, logs := [example_entry, later_entry 1 3 ''put k y'']\<rparr>"

definition old_leader :: SRaft where
  "old_leader = five_nodes_leader\<lparr>addrStr := ''L'', currentTerm := 2, logs := [example_entry, later_entry 1 2 ''put k w'']\<rparr>"

theorem log_matching_fails_witness:
  "\<exists>a1 f1 a2 request rsp a3 a4 i. DoLog ''put k x'' old_leader = Inr (1, a1) \<and>
     append_exchange (example_follower\<lparr>currentTerm := 2\<rparr>) a1 = Inr (f1, a2) \<and>
     append_request False \<lparr>peer_name = ''L'', peerSRaftClient = ''L'', nextIndex = 1, matchIndex = 0\<rparr> 0 new_leader = Inr request \<and>
     OnAppendEntriesRequest request AppendEntriesResponse_default a2 = (1, rsp, a3) \<and> DoLog ''put k z'' a3 = Inr (1, a4) \<and>
     le_index (logs f1 ! i) = le_index (logs a4 ! i) \<and> le_term (logs f1 ! i) = le_term (logs a4 ! i) \<and>
     le_data (logs f1 ! i) = ''put k x'' \<and> le_data (logs a4 ! i) = ''put k z''"
proof -
  let ?p = "\<lparr>peer_name = ''L'', peerSRaftClient = ''L'', nextIndex = 1, matchIndex = 0\<rparr>" and ?f = "example_follower\<lparr>currentTerm := 2\<rparr>"
  have l: "logs new_leader = [example_entry, later_entry 1 3 ''put k y'']" "currentTerm new_leader = 3"
    "logs old_leader = [example_entry, later_entry 1 2 ''put k w'']" "currentTerm old_leader = 2" "fs_ok old_leader"
    by (simp_all add: new_leader_def old_leader_def five_nodes_leader_def example_leader_def new_SRaft_def)
  have wf: "wf_log (logs new_leader)" "sint (BaseLogIndex (logs new_leader)) = 0" "log_room (logs new_leader)"
      "wf_log (logs old_leader)" "sint (BaseLogIndex (logs old_leader)) = 0" "log_room (logs old_leader)" "sint (LastLogIndex (logs old_leader)) = 1"
    by (simp_all add: l wf_log_def BaseLogIndex_def log_room_def LastLogIndex_def example_entry_def later_entry_def)
  have lead: "leading old_leader" unfolding leading_def using wf(4-7)
    by (auto simp: l sle_i64) (auto simp: old_leader_def five_nodes_leader_def example_leader_def new_SRaft_def all_live_def sle_i64
        LastLogIndex_def later_entry_def)
  have f: "in_sync old_leader ?f"
    by (simp add: in_sync_def l old_leader_def five_nodes_leader_def example_leader_def example_follower_def new_SRaft_def)
  have p: "sint (nextIndex ?p) = int 1" "(0 :: nat) < 1" "1 < length (logs new_leader)" "currentTerm old_leader < currentTerm new_leader"
    "take 1 (logs old_leader) = take 1 (logs new_leader)" "length (logs old_leader) = length (logs new_leader)" "''put k x'' \<noteq> ''put k z''"
    by (simp_all add: l)
  show ?thesis using log_matching_fails [OF wf(1-3) p(1-3) lead l(5) p(4) f p(5-7), of 0] by blast
qed
end
