(* ===== verification/LogToData.thy ===== *)
theory LogToData
  imports KvServer
begin

text \<open>
  From the log to the data: what a server's node applies goes through the channel and is run by the receiving thread.
  The commands of the log up to \<open>lastApplied\<close> are compared with the data and the channel, over any interleaving of the
  operations of the node, the receiving thread and crashes, with no other record of the past than the log itself.
\<close>

subsection \<open>What a step of the node sends to the channel\<close>

text \<open>The commands of the log behind the index \<open>a\<close> up to the index \<open>b\<close>, without the empty ones.\<close>

definition cmds_between :: "log \<Rightarrow> i64 \<Rightarrow> i64 \<Rightarrow> string list" where
  "cmds_between es a b =
     filter (\<lambda>cmd. cmd \<noteq> []) (map (\<lambda>i. le_data (GetLogByIndex es (word_of_int i))) [sint a + 1 .. sint b])"

definition applied_cmds :: "SRaft \<Rightarrow> string list" where
  "applied_cmds s = cmds_between (logs s) (-1) (lastApplied s)"

definition pushes :: "SRaft \<Rightarrow> SRaft \<Rightarrow> bool" where
  "pushes s s' \<longleftrightarrow> sint (lastApplied s) \<le> sint (lastApplied s') \<and>
     channel s' = map_option (\<lambda>que. que @ cmds_between (logs s') (lastApplied s) (lastApplied s')) (channel s)"

lemma cmds_between_empty: "sint b \<le> sint a \<Longrightarrow> cmds_between es a b = []"
  by (simp add: cmds_between_def)

lemma cmds_between_split:
  assumes "sint a \<le> sint b" "sint b \<le> sint c"
  shows "cmds_between es a c = cmds_between es a b @ cmds_between es b c"
proof -
  have "[sint a + 1 .. sint c] = [sint a + 1 .. sint b] @ [sint b + 1 .. sint c]"
    using assms upto_split2 [of "sint a + 1" "sint b" "sint c"] by (cases "sint a = sint b") auto
  then show ?thesis by (simp add: cmds_between_def)
qed

lemma pushes_same: "lastApplied s' = lastApplied s \<Longrightarrow> channel s' = channel s \<Longrightarrow> pushes s s'"
  by (simp add: pushes_def cmds_between_empty option.map_ident)

lemma pushes_cong:
  "pushes s s' \<Longrightarrow> lastApplied t = lastApplied s \<Longrightarrow> channel t = channel s \<Longrightarrow>
   lastApplied t' = lastApplied s' \<Longrightarrow> channel t' = channel s' \<Longrightarrow> logs t' = logs s' \<Longrightarrow> pushes t t'"
  by (simp add: pushes_def)

lemma DoApply_pushes: "pushes s (DoApply s)"
  by (auto simp: pushes_def DoApply_eq pending_cmds_def cmds_between_def sless_i64)

lemma DoAppendEntries_pushes:
  assumes "DoAppendEntries hb s = Inr s'"
  shows "pushes s s'"
proof -
  note f = same_but_callsD [OF DoAppendEntries_same [OF assms]]
  show ?thesis
  proof (cases "peers s = [] \<and> \<not> hb")
    case True
    show ?thesis
      by (rule pushes_cong [OF DoApply_pushes [of "s\<lparr>commitIndex := LastLogIndex (logs s)\<rparr>"]]) (use f True in simp_all)
  next
    case False
    then have "lastApplied s' = lastApplied s" "channel s' = channel s" using f by auto
    then show ?thesis by (rule pushes_same)
  qed
qed

lemma OnAppendEntriesReponse_pushes:
  assumes "OnAppendEntriesReponse r hb s = Inr s'"
  shows "pushes s s' \<and> logs s' = logs s"
proof -
  have d: "pushes s (DoApply u)" if "channel u = channel s" "lastApplied u = lastApplied s" for u
    by (rule pushes_cong [OF DoApply_pushes [of u]]) (use that in simp_all)
  show ?thesis using assms
    by (auto simp: OnAppendEntriesReponse_def Let_def peers_index_def rbind_Inr_iff
        dest!: set_peer_frame split: if_splits intro!: pushes_same d)
qed

lemma OnTimer_pushes: "OnTimer s = Inr s' \<Longrightarrow> pushes s s' \<and> logs s' = logs s"
  by (erule OnTimer_cases) (auto simp: core_def DoElection_effect intro!: pushes_same)

fun writes_log :: "node_event \<Rightarrow> bool" where
  "writes_log (AppendRequest r) = True"
| "writes_log (ClientCommand cmd) = True"
| "writes_log Start = True"
| "writes_log _ = False"

lemma node_step_pushes:
  assumes "node_step ev s = Inr s'" "\<And>clk rnd. ev \<noteq> Restart clk rnd"
  shows "pushes s s'" "\<not> writes_log ev \<Longrightarrow> logs s' = logs s"
proof -
  have "pushes s s' \<and> (\<not> writes_log ev \<longrightarrow> logs s' = logs s)"
  proof (cases ev)
    case Tick
    then show ?thesis using assms(1) OnTimer_pushes by simp
  next
    case (VoteRequest r)
    then show ?thesis using assms(1)
      by (cases "OnRequestVoteRequest r RequestVoteResponse_default s" rule: prod_cases3)
         (auto elim!: OnRequestVoteRequest_cases intro: pushes_same)
  next
    case (VoteReply r)
    then show ?thesis using assms(1) by (auto intro: pushes_same simp: OnRequestVoteResponse_frame)
  next
    case (AppendRequest r)
    then show ?thesis using assms(1)
      by (auto simp: OnAppendEntriesRequest_def Let_def get_current_ms_def get_ranged_random_def intro!: pushes_same)
  next
    case (AppendReply r hb)
    then show ?thesis using assms(1) OnAppendEntriesReponse_pushes by simp
  next
    case (ClientCommand cmd)
    have "pushes s s'" if "DoAppendEntries False (Dump (s\<lparr>logs := es\<rparr>)) = Inr s'" for es
      by (rule pushes_cong [OF DoAppendEntries_pushes [OF that]]) simp_all
    then show ?thesis using ClientCommand assms(1)
      by (auto simp: DoLog_def Let_def rbind_Inr_iff split: if_splits intro: pushes_same)
  qed (use assms in \<open>auto simp: AddPeer_def Run_def Load_def get_current_ms_def get_ranged_random_def
         intro!: pushes_same split: option.splits\<close>)
  then show "pushes s s'" "\<not> writes_log ev \<Longrightarrow> logs s' = logs s" by blast+
qed

subsection \<open>The data follows the log\<close>

text \<open>Every entry that has been applied is still under its index, with its command.\<close>

definition applied_kept :: "SRaft \<Rightarrow> SRaft \<Rightarrow> bool" where
  "applied_kept s s' \<longleftrightarrow> (\<forall>i. 0 \<le> i \<longrightarrow> i \<le> sint (lastApplied s) \<longrightarrow>
     le_data (GetLogByIndex (logs s') (word_of_int i)) = le_data (GetLogByIndex (logs s) (word_of_int i)))"

lemma applied_kept_same: "logs s' = logs s \<Longrightarrow> applied_kept s s'"
  by (simp add: applied_kept_def)

text \<open>A command of the client never touches an applied entry, and nothing is applied when a server starts.\<close>

lemma client_command_keeps:
  assumes "wf_log (logs s)" "lastApplied s \<le>s LastLogIndex (logs s)" "log_room (logs s)" "node_step (ClientCommand cmd) s = Inr s'"
  shows "applied_kept s s'"
proof (cases "logs s' = logs s")
  case False
  then obtain e where e: "logs s' = logs s @ [e]" "le_index e = LastLogIndex (logs s) + 1"
    using assms(4) by (auto simp: DoLog_def Let_def rbind_Inr_iff DoAppendEntries_frame split: if_splits)
  have wf: "wf_log (logs s @ [e])" by (rule wf_log_snoc [OF assms(1,3) e(2)])
  have "GetLogByIndex (logs s @ [e]) (word_of_int i) = GetLogByIndex (logs s) (word_of_int i)"
    if i: "0 \<le> i" "i \<le> sint (lastApplied s)" for i
  proof -
    have si: "sint (word_of_int i :: i64) = i"
      using i sint_i64_range [of "lastApplied s"] by (simp add: signed_of_int signed_take_bit_int_eq_self)
    have ne: "logs s \<noteq> []" using i assms(2) by (auto simp: sle_i64)
    have b: "BaseLogIndex (logs s @ [e]) = BaseLogIndex (logs s)" using ne by (simp add: BaseLogIndex_def nth_append)
    have l: "sint (LastLogIndex (logs s @ [e])) = sint (LastLogIndex (logs s)) + 1"
      using assms(3) e(2) by (subst sint_i64_inc [symmetric]) (simp_all add: LastLogIndex_def log_room_def)
    have "i \<le> sint (LastLogIndex (logs s))" using i assms(2) by (simp add: sle_i64)
    then show ?thesis using GetLogByIndex_wf [OF wf] GetLogByIndex_wf [OF assms(1)] i si b l ne sint_LastLogIndex [OF assms(1) ne]
      by (auto simp: nth_append)
  qed
  then show ?thesis by (simp add: applied_kept_def e(1))
qed (rule applied_kept_same)

lemma start_keeps: "lastApplied s = -1 \<Longrightarrow> applied_kept s s'"
  by (simp add: applied_kept_def)

inductive kv_run :: "Skvserver \<Rightarrow> Skvserver \<Rightarrow> bool" where
  raft: "node_step ev (node sv) = Inr n' \<Longrightarrow> (\<And>clk rnd. ev \<noteq> Restart clk rnd) \<Longrightarrow>
     (writes_log ev \<longrightarrow> applied_kept (node sv) n') \<Longrightarrow> kv_run sv (sv\<lparr>node := n'\<rparr>)"
| recieve: "recieve_step sv = Some sv' \<Longrightarrow> kv_run sv sv'"
| restart: "kv_run sv (new_Skvserver (kv_addrStr sv) (raftAddrStr sv) clk rnd (persist_file (node sv)))"

definition fresh_server :: "Skvserver \<Rightarrow> bool" where
  "fresh_server sv \<longleftrightarrow> (\<exists>saddr raddr clk rnd file. sv = new_Skvserver saddr raddr clk rnd file)"

definition delivery_inv :: "Skvserver \<Rightarrow> bool" where
  "delivery_inv sv \<longleftrightarrow> channel (node sv) \<noteq> None \<and> -1 \<le> sint (lastApplied (node sv)) \<and>
     (\<exists>done. applied_cmds (node sv) = done @ queued sv \<and> kvDB sv = fold apply_cmd done [''hello'' \<mapsto> ''world''])"

lemma delivery_inv_new: "delivery_inv (new_Skvserver saddr raddr clk rnd file)"
  by (simp add: delivery_inv_def new_Skvserver_def new_SRaft_def queued_def applied_cmds_def cmds_between_empty)

lemma delivery_inv_raft:
  assumes inv: "delivery_inv sv" and push: "pushes (node sv) n'" and kept: "applied_kept (node sv) n'"
  shows "delivery_inv (sv\<lparr>node := n'\<rparr>)"
proof -
  let ?n = "node sv"
  let ?new = "cmds_between (logs n') (lastApplied ?n) (lastApplied n')"
  obtain "done" que where I: "channel ?n = Some que" "-1 \<le> sint (lastApplied ?n)" "applied_cmds ?n = done @ queued sv"
    "kvDB sv = fold apply_cmd done [''hello'' \<mapsto> ''world'']" using inv by (auto simp: delivery_inv_def)
  have p: "sint (lastApplied ?n) \<le> sint (lastApplied n')" "channel n' = Some (que @ ?new)" 
    using push I(1) by (simp_all add: pushes_def)
  have "applied_cmds n' = cmds_between (logs n') (-1) (lastApplied ?n) @ ?new"
    unfolding applied_cmds_def by (rule cmds_between_split) (use I(2) p(1) in simp_all)
  also have "cmds_between (logs n') (-1) (lastApplied ?n) = applied_cmds ?n"
    using kept unfolding applied_cmds_def cmds_between_def applied_kept_def
    by (intro arg_cong [where f = "filter _"] map_cong) auto
  finally have "applied_cmds n' = done @ queued (sv\<lparr>node := n'\<rparr>)" using I(1,3) p(2) by (simp add: queued_def)
  then show ?thesis using I(2,4) p by (auto simp: delivery_inv_def)
qed

lemma delivery_inv_recieve:
  assumes inv: "delivery_inv sv" and step: "recieve_step sv = Some sv'"
  shows "delivery_inv sv'"
proof -
  have "applied_cmds (node sv') = applied_cmds (node sv) \<and> lastApplied (node sv') = lastApplied (node sv) \<and>
      channel (node sv') \<noteq> None \<and> (\<exists>cmds. queued sv = cmds @ queued sv' \<and> kvDB sv' = fold apply_cmd cmds (kvDB sv))"
    if "channel (node sv) \<noteq> None"
    using step that by (auto simp: recieve_step_def queued_def applied_cmds_def dest!: my_channel.pop_Some
        split: recieve_at.splits option.splits intro: exI [of _ "[]"] exI [of _ "[_]"])
  then obtain cmds where c: "applied_cmds (node sv') = applied_cmds (node sv)" "lastApplied (node sv') = lastApplied (node sv)"
      "channel (node sv') \<noteq> None" "queued sv = cmds @ queued sv'" "kvDB sv' = fold apply_cmd cmds (kvDB sv)"
    using inv unfolding delivery_inv_def by blast
  obtain "done" where "applied_cmds (node sv) = done @ queued sv" "kvDB sv = fold apply_cmd done [''hello'' \<mapsto> ''world'']"
    using inv unfolding delivery_inv_def by blast
  then have "applied_cmds (node sv') = (done @ cmds) @ queued sv'" "kvDB sv' = fold apply_cmd (done @ cmds) [''hello'' \<mapsto> ''world'']"
    using c by simp_all
  then show ?thesis using inv c(2,3) unfolding delivery_inv_def by metis
qed

interpretation delivery: inductive_invariant fresh_server kv_run delivery_inv
proof
  show "fresh_server sv \<Longrightarrow> delivery_inv sv" for sv by (auto simp: fresh_server_def delivery_inv_new)
  show "delivery_inv sv'" if I: "delivery_inv sv" and S: "kv_run sv sv'" for sv sv'
    using S
  proof (cases rule: kv_run.cases)
    case (raft ev n')
    have "applied_kept (node sv) n'" using raft(4) node_step_pushes(2) [OF raft(2,3)] applied_kept_same by blast
    then show ?thesis unfolding raft(1) by (rule delivery_inv_raft [OF I node_step_pushes(1) [OF raft(2,3)]])
  next
    case recieve
    then show ?thesis using delivery_inv_recieve [OF I] by blast
  next
    case restart
    then show ?thesis by (simp add: delivery_inv_new)
  qed
qed

text \<open>
  Claim C11. The data of a server follows its log. Over any interleaving of the operations of the node, the steps of the
  receiving thread and restarts of the process in which no entry already applied is replaced in the log, the data
  is the initial data with a part of the commands of the log up to \<open>lastApplied\<close> run in order, each once and from the
  first one on, and the rest of these commands is exactly what waits in the channel. (Only an append request or a second
  \<open>Run\<close> can replace an applied entry: \<open>client_command_keeps\<close>, \<open>node_step_pushes\<close>.)
\<close>
theorem data_is_a_prefix_of_the_log:
  assumes "reachable fresh_server kv_run sv"
  shows "\<exists>done. applied_cmds (node sv) = done @ queued sv \<and> kvDB sv = fold apply_cmd done [''hello'' \<mapsto> ''world'']"
  using delivery.reachable_inv [OF assms] unfolding delivery_inv_def by blast

subsection \<open>A write on its way\<close>

text \<open>A server on its own: it starts, elects itself, takes a command, applies it, and the receiving thread runs it.\<close>

definition first_put :: "Skvserver" where
  "first_put = new_Skvserver ''A'' ''R'' (\<lambda>k. of_nat (1000 * k)) (\<lambda>k lo hi. lo) None"

lemma kv_raft:
  "reachable fresh_server kv_run sv \<Longrightarrow> node_step ev (node sv) = Inr n' \<Longrightarrow> (\<And>clk rnd. ev \<noteq> Restart clk rnd) \<Longrightarrow>
   (writes_log ev \<longrightarrow> applied_kept (node sv) n') \<Longrightarrow> reachable fresh_server kv_run (sv\<lparr>node := n'\<rparr>)"
  by (erule reachable_step) (rule kv_run.raft)

lemma solo_write_delivered:
  "\<exists>sv. reachable fresh_server kv_run sv \<and> applied_cmds (node sv) = [''put k v''] \<and> queued sv = []"
proof -
  let ?n0 = "node first_put" and ?n1 = "Run (node first_put)"
  have r0: "reachable fresh_server kv_run first_put"
    by (rule reachable_init) (unfold fresh_server_def first_put_def, blast)
  have r1: "reachable fresh_server kv_run (first_put\<lparr>node := ?n1\<rparr>)"
    by (rule kv_raft [OF r0, of Start]) (simp_all add: start_keeps first_put_def new_Skvserver_def new_SRaft_def)
  have n1: "running ?n1" "state ?n1 = FOLLOWER" "peers ?n1 = []" "logs ?n1 = []" "lastApplied ?n1 = -1" "channel ?n1 = Some []"
     "dueElection ?n1 = interval_election_low" "clock ?n1 = (\<lambda>k. of_nat (1000 * k))" "ticks ?n1 = 1" "fs_ok ?n1" "currentTerm ?n1 = 0"
    by (simp_all add: first_put_def new_Skvserver_def new_SRaft_def Run_def Load_def get_current_ms_def get_ranged_random_def)
  obtain n2 where n2: "OnTimer ?n1 = Inr n2" "running n2" "state n2 = LEADER" "peers n2 = []" "logs n2 = []" "lastApplied n2 = -1"
     "channel n2 = Some []"
    using n1 by (simp add: OnTimer_def get_current_ms_def timer_heartbeat_def timer_election_def interval_election_low_def
        DoElection_def Dump_def timer_fail_def Let_def)
  have r2: "reachable fresh_server kv_run (first_put\<lparr>node := n2\<rparr>)"
    using kv_raft [OF r1, of Tick n2] n2(1) by simp
  have s: "solo n2" using n2 by (simp add: solo_def)
  obtain n3 where n3: "DoLog ''put k v'' n2 = Inr (1, n3)" "solo n3" "channel n3 = Some [''put k v'']"
    using DoLog_solo [OF s n2(7), of "''put k v''"] n2(5) by (auto simp: log_room_def)
  have "reachable fresh_server kv_run (first_put\<lparr>node := n3\<rparr>)"
    using kv_raft [OF r2, of "ClientCommand ''put k v''" n3] n3(1) n2(6) by (simp add: start_keeps)
  moreover have "recieve_step (first_put\<lparr>node := n3\<rparr>) = Some (first_put\<lparr>node := n3, recieveMsgThread := InPop\<rparr>)"
    by (simp add: recieve_step_def first_put_def new_Skvserver_def)
  ultimately have r3: "reachable fresh_server kv_run (first_put\<lparr>node := n3, recieveMsgThread := InPop\<rparr>)"
    using reachable_step kv_run.recieve by metis
  let ?sv = "first_put\<lparr>node := n3\<lparr>channel := Some []\<rparr>, kvDB := apply_cmd ''put k v'' (kvDB first_put), recieveMsgThread := LoopTest\<rparr>"
  have "recieve_step (first_put\<lparr>node := n3, recieveMsgThread := InPop\<rparr>) = Some ?sv"
    using n3(3) by (simp add: recieve_step_def)
  then have r: "reachable fresh_server kv_run ?sv" using reachable_step [OF r3] kv_run.recieve by blast
  have "logs n3 = [\<lparr>le_index = 0, le_term = currentTerm n2, le_command = 0, le_data = ''put k v''\<rparr>]"
    using n3(1) n2(2,3,5) by (auto simp: DoLog_def Let_def rbind_Inr_iff DoAppendEntries_frame)
  moreover from this have "lastApplied n3 = 0" using n3(2) by (simp add: solo_def LastLogIndex_def)
  ultimately have "applied_cmds (node ?sv) = [''put k v'']"
    by (simp add: applied_cmds_def cmds_between_def GetLogByIndex_def BaseLogIndex_def)
  then show ?thesis using r by (intro exI [of _ ?sv]) (simp add: queued_def)
qed

theorem data_is_a_prefix_of_the_log_witness:
  "\<exists>sv. reachable fresh_server kv_run sv \<and> applied_cmds (node sv) = [''put k v''] \<and> kvDB sv ''k'' = Some ''v''"
proof -
  obtain sv where sv: "reachable fresh_server kv_run sv" "applied_cmds (node sv) = [''put k v'']" "queued sv = []"
    using solo_write_delivered by blast
  have "kvDB sv = apply_cmd ''put k v'' [''hello'' \<mapsto> ''world'']"
    using data_is_a_prefix_of_the_log [OF sv(1)] sv(2,3) by auto
  moreover have "parse_cmd ''put k v'' = Some (''put'', ''k'', ''v'')"
    using parse_words [of "''put''" "''k''" "''v''" "[]"] by (simp add: word_string_def isspace_def)
  ultimately have "kvDB sv ''k'' = Some ''v''" by (simp add: apply_cmd_def)
  then show ?thesis using sv by blast
qed
end
