(* ===== verification/LateFollower.thy ===== *)
theory LateFollower
  imports SteadyCluster
begin

text \<open>
  What becomes of a follower that answers after the commit. \<open>OnAppendEntriesReponse\<close> leaves an answer for an index
  that is already committed before it sets \<open>nextIndex_\<close>, so the leader does not learn that the follower has the entries.
\<close>

text \<open>
  A leader and followers just enough for a commit: after their answers the entry is committed, and the answer of one
  more follower \<open>f\<close>, which takes the same entries, changes nothing at the leader.
\<close>

lemma late_answer_dropped:
  assumes l: "leading l" and q: "quorum l gs" and f: "in_sync l f" "addrStr f \<notin> addrStr ` set gs"
    and room: "length (logs l) + 1 < 2 ^ 63 - 2"
  shows "\<exists>l1 gs' l2 f1. DoLog cmd l = Inr (1, l1) \<and> logs l1 = logs l @ [new_entry cmd l] \<and> append_round gs l1 = Inr (gs', l2) \<and>
    wrote cmd (set (map addrStr gs)) l l2 \<and> append_exchange f l2 = Inr (f1, l2) \<and> logs f1 = logs l1 \<and> brought f f1 \<and> leading l2"
proof -
  have Q: "gs \<noteq> []" "distinct (map addrStr gs)" "enough l (map addrStr gs)" "\<not> enough l (map addrStr (butlast gs))"
    "\<And>g. g \<in> set gs \<Longrightarrow> in_sync l g"
    using q by (simp_all add: quorum_def)
  obtain l1 where l1: "DoLog cmd l = Inr (1, l1)" "logs l1 = logs l @ [new_entry cmd l]" "peers l1 = peers l" "written l1"
    and sync: "\<And>f. in_sync l f \<Longrightarrow> reachable_by l1 f"
    using write_start [OF l, of cmd] by blast
  obtain gs' l2 where r: "append_round gs l1 = Inr (gs', l2)" "after_acks l1 (rev (map addrStr gs)) l2"
      "currentTerm l1 = currentTerm l" "state l2 = LEADER"
      "peers l2 = acked_peers (LastLogIndex (logs l1)) (set (map addrStr gs)) (peers l)"
    using write_round [OF l Q(2,5), of cmd] Q(1,4) l1(1) by auto
  have e: "enough l1 (rev (map addrStr gs))" using Q(3) l1(3) by (simp add: enough_def)
  have "same_identity l l2" by (rule same_identity_trans [OF DoLog_identity [OF l1(1)] append_round_identity [OF r(1)]])
  then have w: "wrote cmd (set (map addrStr gs)) l l2" using e r l1(2) by (simp add: wrote_def after_acks_def)
  have "addrStr g \<in> fst ` set (peers l)" if "in_sync l g" for g
    using that by (force simp: in_sync_def dest: map_of_SomeD)
  then have "set (rev (map addrStr gs)) \<subseteq> fst ` set (peers l1)" using Q(5) l1(3) by auto
  moreover have "distinct (addrStr f # rev (map addrStr gs))" using Q(2) f(2) by simp
  ultimately obtain f1 where "append_exchange f l2 = Inr (f1, l2)" "logs f1 = logs l1" "brought f f1"
    using append_exchange_step [OF l1(4) r(2) sync [OF f(1)]] e by blast
  then show ?thesis using l1(1,2) r(1) w wrote_leading [OF l w room] by blast
qed

text \<open>
  Claim C19. A follower whose answer came after the commit misses the next write. Let a leader have exactly the
  followers \<open>gs\<close> it needs for a commit and one more, \<open>f\<close>, for which it still has next index 0. The followers
  \<open>gs\<close> take the first command and it is committed; then \<open>f\<close> takes it too and answers with success, but the answer is dropped
  before \<open>nextIndex_\<close> is set: the leader's state does not change at all. When the next command is logged, the
  request for \<open>f\<close> starts again from the front of the log, \<open>f\<close> refuses it because its previous index
  \<open>-1\<close> lies before its log, and the leader only corrects its record and starts no new call: \<open>f\<close> stays one entry behind.
\<close>
theorem late_follower_misses_writes:
  assumes "leading l" "quorum l gs" "in_sync l f" "addrStr f \<notin> addrStr ` set gs"
    and "map_of (peers l) (addrStr f) = Some (Some p)" "nextIndex p = 0" "length (logs l) + 1 < 2 ^ 63 - 2"
  shows "\<exists>l1 gs' l2 f1 l3 f2 l4. DoLog cmd1 l = Inr (1, l1) \<and> append_round gs l1 = Inr (gs', l2) \<and>
    commitIndex l2 = LastLogIndex (logs l1) \<and> append_exchange f l2 = Inr (f1, l2) \<and> logs f1 = logs l2 \<and>
    DoLog cmd2 l2 = Inr (1, l3) \<and> logs l3 = logs f1 @ [new_entry cmd2 l2] \<and> append_exchange f1 l3 = Inr (f2, l4) \<and>
    logs f2 = logs f1 \<and> logs l4 = logs l3 \<and> commitIndex l4 = commitIndex l2 \<and> channel l4 = channel l2 \<and> calls l4 = calls l3"
proof -
  obtain l1 gs' l2 f1 where 1: "DoLog cmd1 l = Inr (1, l1)" "logs l1 = logs l @ [new_entry cmd1 l]" "append_round gs l1 = Inr (gs', l2)"
      "wrote cmd1 (set (map addrStr gs)) l l2" "append_exchange f l2 = Inr (f1, l2)" "logs f1 = logs l1" "brought f f1" "leading l2"
    using late_answer_dropped [OF assms(1-4,7), of cmd1] by blast
  note W = 1(4) [unfolded wrote_def]
  have F: "addrStr f1 = addrStr f" "running f1" "\<not> currentTerm l2 < currentTerm f1"
    using 1(7) W assms(3) by (auto simp: brought_def same_identity_def in_sync_def)
  have p: "map_of (peers l2) (addrStr f1) = Some (Some p)"
    using W assms(4,5) F(1) by (simp add: acked_peers_map_of)
  have b: "logs f1 \<noteq> []" "sint (BaseLogIndex (logs f1)) = 0" using 1(2,6) leading_new_log(2,3) [OF assms(1), of cmd1] by simp_all
  obtain l3 f2 l4 where 2: "DoLog cmd2 l2 = Inr (1, l3)" "append_exchange f1 l3 = Inr (f2, l4)" "logs f2 = logs f1"
      "logs l4 = logs l3" "commitIndex l4 = commitIndex l2" "channel l4 = channel l2" "calls l4 = calls l3"
    using unrecorded_follower_refuses [OF 1(8) p assms(6) F(2,3) b, of cmd2] by blast
  have "logs l3 = logs l2 @ [new_entry cmd2 l2]" using write_start [OF 1(8), of cmd2] 2(1) by auto
  moreover have "logs l2 = logs l1" "commitIndex l2 = LastLogIndex (logs l1)" using W 1(2) by simp_all
  ultimately show ?thesis using 1(1,3,5,6) 2
    by (intro exI [of _ l1] exI [of _ gs'] exI [of _ l2] exI [of _ f1] exI [of _ l3] exI [of _ f2] exI [of _ l4]) simp
qed

text \<open>The leader of five nodes commits with the answer of \<open>F\<close>; the one of \<open>G\<close> comes late.\<close>

theorem late_follower_misses_writes_witness:
  "\<exists>l1 gs' l2 f1 l3 f2 l4. DoLog ''put k v'' (five_nodes_leader\<lparr>logs := []\<rparr>) = Inr (1, l1) \<and>
     append_round [example_follower] l1 = Inr (gs', l2) \<and> append_exchange (example_follower\<lparr>addrStr := ''G''\<rparr>) l2 = Inr (f1, l2) \<and>
     logs f1 = logs l2 \<and> DoLog ''put k w'' l2 = Inr (1, l3) \<and> append_exchange f1 l3 = Inr (f2, l4) \<and>
     map le_data (logs l4) = map le_data (logs f2) @ [''put k w'']"
proof -
  let ?l = "five_nodes_leader\<lparr>logs := []\<rparr>" and ?f = "example_follower\<lparr>addrStr := ''G''\<rparr>"
  let ?p = "\<lparr>peer_name = ''G'', peerSRaftClient = ''G'', nextIndex = 0, matchIndex = -1\<rparr>"
  have l: "leading ?l"
    by (auto simp: leading_def five_nodes_leader_def example_leader_def new_SRaft_def log_room_def all_live_def sle_i64)
  have f: "in_sync ?l example_follower" "in_sync ?l ?f" "length (peers ?l) = 4"
    by (simp_all add: in_sync_def five_nodes_leader_def example_leader_def example_follower_def new_SRaft_def)
  then have q: "quorum ?l [example_follower]" by (simp add: quorum_def enough_def)
  have p: "addrStr ?f \<notin> addrStr ` set [example_follower]" "map_of (peers ?l) (addrStr ?f) = Some (Some ?p)" "nextIndex ?p = 0"
    "length (logs ?l) + 1 < 2 ^ 63 - 2"
    by (simp_all add: five_nodes_leader_def example_leader_def example_follower_def new_SRaft_def)
  obtain l1 gs' l2 f1 l3 f2 l4 where r: "DoLog ''put k v'' ?l = Inr (1, l1)" "append_round [example_follower] l1 = Inr (gs', l2)"
     "append_exchange ?f l2 = Inr (f1, l2)" "logs f1 = logs l2" "DoLog ''put k w'' l2 = Inr (1, l3)"
     "logs l3 = logs f1 @ [new_entry ''put k w'' l2]" "append_exchange f1 l3 = Inr (f2, l4)" "logs f2 = logs f1" "logs l4 = logs l3"
    using late_follower_misses_writes [OF l q f(2) p, of "''put k v''" "''put k w''"] by blast
  have "map le_data (logs l4) = map le_data (logs f2) @ [''put k w'']"
    unfolding r(6,8,9) by (simp add: new_entry_def)
  then show ?thesis using r(1-5,7) by blast
qed

end
