(* ===== verification/RpcServers.thy ===== *)
theory RpcServers
  imports TestCluster NodeFaults
begin

text \<open>
  The classes \<open>SRaftServer\<close> and \<open>KvserverServer\<close> (\<open>SRaftRpc.h\<close>, \<open>SRaftRpc.cc\<close>): a server is built and started by its
  constructor and shut down by its destructor. gRPC itself is a parameter: \<open>build\<close> stands for \<open>AddListeningPort\<close>,
  \<open>RegisterService\<close> and \<open>BuildAndStart\<close> on one address, \<open>shutdown\<close> and \<open>wait\<close> for the calls of these names (\<open>None\<close>: the
  call does not return), all over a state of the network. The services they register are in \<open>SRaftRpc\<close> and \<open>KvServer\<close>.
\<close>

text \<open>A started server: its name and what \<open>BuildAndStart\<close> returned, which is null when it could not listen.\<close>

record 'h RpcServer =
  rpc_name :: string
  rpc_server :: "'h option"

type_synonym ('h, 'n) build_rpc = "string \<Rightarrow> 'n \<Rightarrow> 'h option \<times> 'n"

definition new_SRaftServer :: "('h, 'n) build_rpc \<Rightarrow> string \<Rightarrow> 'n \<Rightarrow> 'h RpcServer \<times> 'n" where
  "new_SRaftServer build addr net =
     (let (server, net) = build addr net in (\<lparr>rpc_name = addr, rpc_server = server\<rparr>, net))"

definition delete_SRaftServer :: "('h \<Rightarrow> 'n \<Rightarrow> 'n) \<Rightarrow> ('h \<Rightarrow> 'n \<Rightarrow> 'n option) \<Rightarrow> 'h RpcServer \<Rightarrow> 'n \<Rightarrow> 'n result" where
  "delete_SRaftServer shutdown wait srv net =
     (case rpc_server srv of
        None \<Rightarrow> Inl NullDeref
      | Some server \<Rightarrow>
          let net = shutdown server net
          in case wait server net of None \<Rightarrow> Inl Blocks | Some net \<Rightarrow> Inr net)"

definition new_KvserverServer :: "('h, 'n) build_rpc \<Rightarrow> string \<Rightarrow> 'n \<Rightarrow> 'h RpcServer \<times> 'n" where
  "new_KvserverServer build addr net =
     (let name = addr; (server, net) = build addr net in (\<lparr>rpc_name = name, rpc_server = server\<rparr>, net))"

definition delete_KvserverServer :: "('h \<Rightarrow> 'n \<Rightarrow> 'n) \<Rightarrow> ('h \<Rightarrow> 'n \<Rightarrow> 'n option) \<Rightarrow> 'h RpcServer \<Rightarrow> 'n \<Rightarrow> 'n result" where
  "delete_KvserverServer shutdown wait srv net =
     (case rpc_server srv of
        None \<Rightarrow> Inl NullDeref
      | Some server \<Rightarrow>
          let net = shutdown server net
          in case wait server net of None \<Rightarrow> Inl Blocks | Some net \<Rightarrow> Inr net)"

text \<open>The servers that the constructors of \<open>Skvserver\<close> and its \<open>SRaft\<close> start, and their end in the destructors.\<close>

definition start_Skvserver_rpc :: "('h, 'n) build_rpc \<Rightarrow> string \<Rightarrow> string \<Rightarrow> 'n \<Rightarrow> ('h RpcServer \<times> 'h RpcServer) \<times> 'n" where
  "start_Skvserver_rpc build serverAddr raftAddr net =
     (let (raft, net) = new_SRaftServer build raftAddr net;
          (kv, net) = new_KvserverServer build serverAddr net
      in ((raft, kv), net))"

text \<open>
  \<open>~Skvserver\<close> sets its flag and joins the receiving thread, which runs on alone: three steps are enough for it to take the
  command it waits for, if there is one, and to see the flag. \<open>~SRaft\<close> does the same with its timer thread, which makes one more
  pass when it is past its test (\<open>late\<close>). Nothing is pushed into the channel meanwhile. The members are destroyed in reverse
  order: the key-value server goes before the node, and the node's body runs before its server goes.
\<close>

fun join_recieve :: "nat \<Rightarrow> Skvserver \<Rightarrow> Skvserver result" where
  "join_recieve k sv =
     (if delete_Skvserver_returns sv then Inr sv
      else case k of 0 \<Rightarrow> Inl Blocks
      | Suc k \<Rightarrow> (case recieve_step sv of None \<Rightarrow> Inl Blocks | Some sv \<Rightarrow> join_recieve k sv))"

declare join_recieve.simps [simp del]

definition join_timer :: "bool \<Rightarrow> SRaft \<Rightarrow> SRaft result" where
  "join_timer late s = (let s = delete_SRaft s in if late then OnTimer s else Inr s)"

definition end_Skvserver_rpc :: "('h \<Rightarrow> 'n \<Rightarrow> 'n) \<Rightarrow> ('h \<Rightarrow> 'n \<Rightarrow> 'n option) \<Rightarrow> 'h RpcServer \<times> 'h RpcServer \<Rightarrow> bool \<Rightarrow>
    Skvserver \<Rightarrow> 'n \<Rightarrow> 'n result" where
  "end_Skvserver_rpc shutdown wait srvs late sv net =
     rbind (join_recieve 3 (delete_Skvserver_begin sv)) (\<lambda>sv.
     rbind (delete_KvserverServer shutdown wait (snd srvs) net) (\<lambda>net.
     rbind (join_timer late (node sv)) (\<lambda>_.
     delete_SRaftServer shutdown wait (fst srvs) net)))"

fun start_rpc :: "('h, 'n) build_rpc \<Rightarrow> nat \<Rightarrow> 'n \<Rightarrow> ('h RpcServer \<times> 'h RpcServer) list \<times> 'n" where
  "start_rpc build 0 net = ([], net)"
| "start_rpc build (Suc i) net =
     (let (srvs, net) = start_rpc build i net;
          (s, net) = start_Skvserver_rpc build (local_addr basePort i) (local_addr baseRaftPort i) net
      in (srvs @ [s], net))"

text \<open>The servers are destroyed one after the other; each comes with its state at that time and \<open>late\<close>.\<close>

fun end_rpc :: "('h \<Rightarrow> 'n \<Rightarrow> 'n) \<Rightarrow> ('h \<Rightarrow> 'n \<Rightarrow> 'n option) \<Rightarrow> (('h RpcServer \<times> 'h RpcServer) \<times> bool \<times> Skvserver) list \<Rightarrow>
    'n \<Rightarrow> 'n result" where
  "end_rpc shutdown wait [] net = Inr net"
| "end_rpc shutdown wait ((s, late, sv) # ends) net =
     rbind (end_Skvserver_rpc shutdown wait s late sv net) (end_rpc shutdown wait ends)"

text \<open>The receiving thread is not waiting in \<open>popData\<close> on an empty channel.\<close>

definition can_join :: "Skvserver \<Rightarrow> bool" where
  "can_join sv \<longleftrightarrow> recieveMsgThread sv = InPop \<longrightarrow> (case channel (node sv) of Some que \<Rightarrow> que \<noteq> [] | None \<Rightarrow> False)"

lemma join_recieve_returns:
  assumes "can_join sv"
  shows "\<exists>sv'. join_recieve 3 (delete_Skvserver_begin sv) = Inr sv' \<and> peers (node sv') = peers (node sv)"
proof (cases "recieveMsgThread sv")
  case InPop
  then obtain cmd que where "channel (node sv) = Some (cmd # que)"
    using assms by (auto simp: can_join_def neq_Nil_conv split: option.splits)
  then show ?thesis using InPop
    by (simp add: join_recieve.simps delete_Skvserver_begin_def delete_Skvserver_returns_def recieve_step_def eval_nat_numeral)
qed (simp_all add: join_recieve.simps delete_Skvserver_begin_def delete_Skvserver_returns_def recieve_step_def eval_nat_numeral)

lemma join_recieve_blocks: "\<not> can_join sv \<Longrightarrow> join_recieve (Suc k) (delete_Skvserver_begin sv) = Inl Blocks"
  by (auto simp: can_join_def join_recieve.simps delete_Skvserver_begin_def delete_Skvserver_returns_def recieve_step_def
      split: option.splits)

lemma join_timer_returns: "all_live (peers s) \<Longrightarrow> \<exists>s'. join_timer late s = Inr s'"
  using OnTimer_total [of "delete_SRaft s"] by (auto simp: join_timer_def delete_SRaft_def Let_def is_ok_iff)

text \<open>
  What gRPC documents: a server for a local address with a valid port that nothing listens on is built and starts, \<open>Shutdown\<close> frees
  the port, and \<open>Wait\<close> returns once the server has been shut down. Whether a port in use is shared or refused (a null server)
  depends on \<open>SO_REUSEPORT\<close>, so nothing is promised of it, nor of any other address.
\<close>

definition local_port :: "string \<Rightarrow> bool" where
  "local_port addr \<longleftrightarrow> (\<exists>p. 0 < p \<and> p < 2 ^ 16 \<and> addr = ''127.0.0.1:'' @ decimal p)"

definition grpc_contract :: "('h, 'n) build_rpc \<Rightarrow> ('h \<Rightarrow> 'n \<Rightarrow> 'n) \<Rightarrow> ('h \<Rightarrow> 'n \<Rightarrow> 'n option) \<Rightarrow> ('n \<Rightarrow> string set) \<Rightarrow> ('h \<Rightarrow> string) \<Rightarrow> bool" where
  "grpc_contract build shutdown wait listening port \<longleftrightarrow>
     (\<forall>addr net. local_port addr \<longrightarrow> addr \<notin> listening net \<longrightarrow> (\<exists>h. fst (build addr net) = Some h \<and> port h = addr) \<and>
        listening (snd (build addr net)) = insert addr (listening net)) \<and>
     (\<forall>h net. listening (shutdown h net) = listening net - {port h}) \<and>
     (\<forall>h net. port h \<notin> listening net \<longrightarrow> wait h net = Some net)"

definition rpc_addrs :: "nat \<Rightarrow> string list" where
  "rpc_addrs n = concat (map (\<lambda>i. [local_addr baseRaftPort i, local_addr basePort i]) [0..<n])"

lemma rpc_addrs_Suc: "rpc_addrs (Suc n) = rpc_addrs n @ [local_addr baseRaftPort n, local_addr basePort n]"
  by (simp add: rpc_addrs_def)

definition serves :: "('h \<Rightarrow> string) \<Rightarrow> 'h RpcServer \<Rightarrow> string \<Rightarrow> bool" where
  "serves port srv addr \<longleftrightarrow> rpc_name srv = addr \<and> (\<exists>h. rpc_server srv = Some h \<and> port h = addr)"

lemma new_server:
  assumes "grpc_contract build shutdown wait listening port" "local_port addr" "addr \<notin> listening net"
  shows "\<exists>srv net'. new_SRaftServer build addr net = (srv, net') \<and> new_KvserverServer build addr net = (srv, net') \<and>
     serves port srv addr \<and> listening net' = insert addr (listening net)"
proof -
  obtain server net' where b: "build addr net = (server, net')" by (cases "build addr net")
  moreover have "(\<exists>h. fst (build addr net) = Some h \<and> port h = addr) \<and> listening (snd (build addr net)) = insert addr (listening net)"
    using assms unfolding grpc_contract_def by blast
  ultimately show ?thesis by (simp add: new_SRaftServer_def new_KvserverServer_def serves_def)
qed

lemma local_port_local: "unat port < 2 ^ 15 \<Longrightarrow> 0 < unat port \<Longrightarrow> i \<le> 2 ^ 14 \<Longrightarrow> local_port (local_addr port i)"
  unfolding local_port_def local_addr_def
  by (intro exI [of _ "unat (port + of_nat i)"]) (simp add: unat_word_ariths unat_of_nat)

lemma test_ports: "i \<le> 2 ^ 14 \<Longrightarrow> local_port (local_addr basePort i) \<and> local_port (local_addr baseRaftPort i)"
  by (simp add: local_port_local basePort_def baseRaftPort_def)

lemma delete_server:
  assumes "grpc_contract build shutdown wait listening port" "serves port srv addr"
  shows "\<exists>net'. delete_SRaftServer shutdown wait srv net = Inr net' \<and> delete_KvserverServer shutdown wait srv net = Inr net' \<and>
     listening net' = listening net - {addr}"
  using assms by (auto simp: grpc_contract_def delete_SRaftServer_def delete_KvserverServer_def serves_def)

lemma start_rpc_listens:
  assumes con: "grpc_contract build shutdown wait listening port"
    and free: "n \<le> 2 ^ 14" "distinct (rpc_addrs n)" "set (rpc_addrs n) \<inter> listening net = {}"
  shows "\<exists>srvs net'. start_rpc build n net = (srvs, net') \<and> listening net' = set (rpc_addrs n) \<union> listening net \<and>
     length srvs = n \<and> (\<forall>i < n. serves port (fst (srvs ! i)) (local_addr baseRaftPort i) \<and> serves port (snd (srvs ! i)) (local_addr basePort i))"
  using free
proof (induction n)
  case 0
  then show ?case by (simp add: rpc_addrs_def)
next
  case (Suc n)
  obtain srvs net' where 1: "start_rpc build n net = (srvs, net')" "listening net' = set (rpc_addrs n) \<union> listening net" "length srvs = n"
     "\<forall>i < n. serves port (fst (srvs ! i)) (local_addr baseRaftPort i) \<and> serves port (snd (srvs ! i)) (local_addr basePort i)"
    using Suc by (auto simp: rpc_addrs_Suc)
  obtain raft net1 where 2: "new_SRaftServer build (local_addr baseRaftPort n) net' = (raft, net1)"
     "serves port raft (local_addr baseRaftPort n)" "listening net1 = insert (local_addr baseRaftPort n) (listening net')"
    using new_server [OF con, of "local_addr baseRaftPort n" net'] test_ports [of n] 1(2) Suc.prems by (auto simp: rpc_addrs_Suc)
  obtain kv net2 where 3: "new_KvserverServer build (local_addr basePort n) net1 = (kv, net2)"
     "serves port kv (local_addr basePort n)" "listening net2 = insert (local_addr basePort n) (listening net1)"
    using new_server [OF con, of "local_addr basePort n" net1] test_ports [of n] 1(2) 2(3) Suc.prems by (auto simp: rpc_addrs_Suc)
  have "start_rpc build (Suc n) net = (srvs @ [(raft, kv)], net2)"
    using 1(1) 2(1) 3(1) by (simp add: start_Skvserver_rpc_def)
  moreover have "\<forall>i < Suc n. serves port (fst ((srvs @ [(raft, kv)]) ! i)) (local_addr baseRaftPort i) \<and>
      serves port (snd ((srvs @ [(raft, kv)]) ! i)) (local_addr basePort i)"
    using 1(3,4) 2(2) 3(2) by (auto simp: less_Suc_eq nth_append)
  ultimately show ?case using 1(2,3) 2(3) 3(3) by (auto simp: rpc_addrs_Suc)
qed

definition ready_to_end :: "bool \<times> Skvserver \<Rightarrow> bool" where
  "ready_to_end e \<longleftrightarrow> can_join (snd e) \<and> all_live (peers (node (snd e)))"

lemma end_Skvserver_frees:
  assumes con: "grpc_contract build shutdown wait listening port"
    and s: "serves port (fst s) a" "serves port (snd s) b" and e: "ready_to_end (late, sv)"
  shows "\<exists>net'. end_Skvserver_rpc shutdown wait s late sv net = Inr net' \<and> listening net' = listening net - {a, b}"
proof -
  obtain net1 where 1: "delete_KvserverServer shutdown wait (snd s) net = Inr net1" "listening net1 = listening net - {b}"
    using delete_server [OF con s(2)] by blast
  obtain net2 where 2: "delete_SRaftServer shutdown wait (fst s) net1 = Inr net2" "listening net2 = listening net1 - {a}"
    using delete_server [OF con s(1)] by blast
  obtain sv' where sv': "join_recieve 3 (delete_Skvserver_begin sv) = Inr sv'" "peers (node sv') = peers (node sv)"
    using join_recieve_returns [of sv] e by (auto simp: ready_to_end_def)
  then obtain s' where "join_timer late (node sv') = Inr s'"
    using join_timer_returns [of "node sv'" late] e by (auto simp: ready_to_end_def)
  then show ?thesis using 1 2 sv'(1) by (auto simp: end_Skvserver_rpc_def)
qed

lemma end_rpc_frees:
  assumes con: "grpc_contract build shutdown wait listening port"
    and "\<forall>e \<in> set ends. (\<exists>a. serves port (fst (fst e)) a) \<and> (\<exists>a. serves port (snd (fst e)) a) \<and> ready_to_end (snd e)"
  shows "\<exists>net'. end_rpc shutdown wait ends net = Inr net' \<and>
     listening net' = listening net - (rpc_name ` fst ` fst ` set ends \<union> rpc_name ` snd ` fst ` set ends)"
  using assms(2)
proof (induction ends arbitrary: net)
  case (Cons e ends)
  obtain s late sv where e: "e = (s, late, sv)" by (cases e)
  obtain a b where s: "serves port (fst s) a" "serves port (snd s) b" "ready_to_end (late, sv)" using Cons.prems e by auto
  then have n: "a = rpc_name (fst s)" "b = rpc_name (snd s)" by (simp_all add: serves_def)
  obtain net1 where 1: "end_Skvserver_rpc shutdown wait s late sv net = Inr net1" "listening net1 = listening net - {a, b}"
    using end_Skvserver_frees [OF con s] by blast
  obtain net' where 2: "end_rpc shutdown wait ends net1 = Inr net'"
     "listening net' = listening net1 - (rpc_name ` fst ` fst ` set ends \<union> rpc_name ` snd ` fst ` set ends)"
    using Cons.IH [of net1] Cons.prems by auto
  show ?case using 1 2 n e by auto
qed simp

lemma local_addr_eq:
  assumes "i < 2 ^ 63" "j < 2 ^ 63"
  shows "local_addr basePort i = local_addr baseRaftPort j \<longleftrightarrow> j = i + 1000"
proof -
  have p: "unat (basePort + of_nat i) = 9000 + i" "unat (baseRaftPort + of_nat j) = 8000 + j"
    using assms by (simp_all add: basePort_def baseRaftPort_def unat_word_ariths unat_of_nat)
  have "local_addr basePort i = local_addr baseRaftPort j \<longleftrightarrow> 9000 + i = 8000 + j"
    using decimal_inj [of "9000 + i" "8000 + j"] unfolding local_addr_def p by auto
  then show ?thesis by auto
qed

lemma rpc_addrs_distinct:
  assumes "n \<le> 1000"
  shows "distinct (rpc_addrs n)"
  using assms
proof (induction n)
  case (Suc n)
  have s: "set (rpc_addrs n) = local_addr baseRaftPort ` {..<n} \<union> local_addr basePort ` {..<n}"
    by (auto simp: rpc_addrs_def)
  have ne: "local_addr port i \<noteq> local_addr port n" "local_addr basePort i \<noteq> local_addr baseRaftPort n"
    "local_addr baseRaftPort i \<noteq> local_addr basePort n" if "i < n" for i port
    using that Suc.prems local_addr_inj [of port i n] local_addr_eq [of i n] local_addr_eq [of n i] by auto
  have "local_addr basePort n \<notin> set (rpc_addrs n)" "local_addr baseRaftPort n \<notin> set (rpc_addrs n)"
    unfolding s using ne by (metis (no_types, lifting) UnE imageE lessThan_iff)+
  moreover have "local_addr basePort n \<noteq> local_addr baseRaftPort n" using Suc.prems local_addr_eq [of n n] by simp
  ultimately show ?case using Suc by (simp add: rpc_addrs_Suc)
qed (simp add: rpc_addrs_def)

lemma start_rpc_prefix:
  "k \<le> n \<Longrightarrow> take k (fst (start_rpc build n net)) = fst (start_rpc build k net) \<and> length (fst (start_rpc build n net)) = n"
proof (induction n arbitrary: k)
  case (Suc n)
  have "length (fst (start_rpc build n net)) = n" using Suc.IH [of 0] by simp
  then show ?case using Suc by (cases "k = Suc n") (auto simp: start_Skvserver_rpc_def split: prod.splits)
qed simp

lemma start_rpc_taken:
  assumes con: "grpc_contract build shutdown wait listening port" and free: "listening net = {}" and n: "1000 < n"
  shows "local_addr baseRaftPort 1000 \<in> listening (snd (start_rpc build 1000 net))"
    and "fst (build (local_addr baseRaftPort 1000) (snd (start_rpc build 1000 net))) = None \<Longrightarrow>
      rpc_server (fst (fst (start_rpc build n net) ! 1000)) = None"
proof -
  define k :: nat where "k = 1000"
  obtain srvs net1 where s: "start_rpc build k net = (srvs, net1)" "listening net1 = set (rpc_addrs k)" "length srvs = k"
    using start_rpc_listens [OF con _ rpc_addrs_distinct [of k], of net] free by (auto simp: k_def)
  have "local_addr basePort 0 = local_addr baseRaftPort k" using local_addr_eq [of 0 k] by (simp add: k_def)
  moreover have "local_addr basePort 0 \<in> set (rpc_addrs k)" by (auto simp: rpc_addrs_def k_def)
  ultimately have "local_addr baseRaftPort k \<in> listening (snd (start_rpc build k net))" using s(1,2) by simp
  then show "local_addr baseRaftPort 1000 \<in> listening (snd (start_rpc build 1000 net))" unfolding k_def .
  have null: "rpc_server (fst (fst (start_rpc build n net) ! k)) = None"
    if "fst (build (local_addr baseRaftPort k) (snd (start_rpc build k net))) = None"
  proof -
    have "\<exists>raft kv. fst (start_rpc build (Suc k) net) = srvs @ [(raft, kv)] \<and> rpc_server raft = None"
      using s(1) that by (auto simp: start_Skvserver_rpc_def new_SRaftServer_def split: prod.splits)
    then have "rpc_server (fst (fst (start_rpc build (Suc k) net) ! k)) = None" using s(3) by (auto simp: nth_append)
    moreover have "take (Suc k) (fst (start_rpc build n net)) ! k = fst (start_rpc build (Suc k) net) ! k"
      using start_rpc_prefix [of "Suc k" n build net] n by (simp add: k_def)
    ultimately show ?thesis by simp
  qed
  show "rpc_server (fst (fst (start_rpc build n net) ! 1000)) = None"
    if "fst (build (local_addr baseRaftPort 1000) (snd (start_rpc build 1000 net))) = None"
    using null that unfolding k_def .
qed

lemma start_end_rpc:
  assumes con: "grpc_contract build shutdown wait listening port" and free: "listening net = {}" and n: "n \<le> 1000"
  shows "\<exists>srvs net1. start_rpc build n net = (srvs, net1) \<and> length srvs = n \<and>
      (\<forall>i < n. serves port (fst (srvs ! i)) (local_addr baseRaftPort i) \<and> serves port (snd (srvs ! i)) (local_addr basePort i)) \<and>
      (\<forall>es. length es = n \<longrightarrow> list_all ready_to_end es \<longrightarrow>
         (\<exists>net2. end_rpc shutdown wait (zip srvs es) net1 = Inr net2 \<and> listening net2 = {}))"
proof -
  obtain srvs net1 where s: "start_rpc build n net = (srvs, net1)" "listening net1 = set (rpc_addrs n)" "length srvs = n"
     "\<forall>i < n. serves port (fst (srvs ! i)) (local_addr baseRaftPort i) \<and> serves port (snd (srvs ! i)) (local_addr basePort i)"
    using start_rpc_listens [OF con _ rpc_addrs_distinct [OF n], of net] free n by auto
  have ends: "\<exists>net2. end_rpc shutdown wait (zip srvs es) net1 = Inr net2 \<and> listening net2 = {}"
    if es: "length es = n" "list_all ready_to_end es" for es
  proof -
    have f: "fst ` set (zip srvs es) = set srvs" using es(1) s(3) by (metis list.set_map map_fst_zip)
    have "\<forall>e \<in> set (zip srvs es). (\<exists>a. serves port (fst (fst e)) a) \<and> (\<exists>a. serves port (snd (fst e)) a) \<and> ready_to_end (snd e)"
    proof
      fix e assume "e \<in> set (zip srvs es)"
      then obtain i where "i < n" "e = (srvs ! i, es ! i)" using s(3) es(1) by (auto simp: set_zip)
      then show "(\<exists>a. serves port (fst (fst e)) a) \<and> (\<exists>a. serves port (snd (fst e)) a) \<and> ready_to_end (snd e)"
        using s(4) es by (auto simp: list_all_length)
    qed
    from end_rpc_frees [OF con this, of net1] obtain net2 where e: "end_rpc shutdown wait (zip srvs es) net1 = Inr net2"
       "listening net2 = listening net1 - (rpc_name ` fst ` set srvs \<union> rpc_name ` snd ` set srvs)" unfolding f by blast
    have "set (rpc_addrs n) \<subseteq> rpc_name ` fst ` set srvs \<union> rpc_name ` snd ` set srvs"
    proof
      fix a assume "a \<in> set (rpc_addrs n)"
      then obtain i where i: "i < n" "a = local_addr baseRaftPort i \<or> a = local_addr basePort i" by (auto simp: rpc_addrs_def)
      then have "a = rpc_name (fst (srvs ! i)) \<or> a = rpc_name (snd (srvs ! i))" using s(4) by (auto simp: serves_def)
      then show "a \<in> rpc_name ` fst ` set srvs \<union> rpc_name ` snd ` set srvs" using i(1) s(3) by (auto intro!: imageI)
    qed
    then have "listening net2 = {}" using e(2) s(2) by auto
    then show ?thesis using e(1) by blast
  qed
  then show ?thesis using s(1,3,4) by blast
qed

lemma end_rpc_blocks: "\<not> can_join sv \<Longrightarrow> end_rpc shutdown wait ((s, late, sv) # ends) net = Inl Blocks"
  by (simp add: end_Skvserver_rpc_def join_recieve_blocks numeral_3_eq_3)


text \<open>The witness runs against a network that is its set of ports in use, and refuses a port in use.\<close>

definition build_on :: "(string, string set) build_rpc" where
  "build_on addr ports = (if addr \<in> ports then (None, ports) else (Some addr, insert addr ports))"

definition shutdown_on :: "string \<Rightarrow> string set \<Rightarrow> string set" where
  "shutdown_on addr ports = ports - {addr}"

definition wait_on :: "string \<Rightarrow> string set \<Rightarrow> string set option" where
  "wait_on addr ports = (if addr \<in> ports then None else Some ports)"

lemma build_on_contract: "grpc_contract build_on shutdown_on wait_on id id"
  by (simp add: grpc_contract_def build_on_def shutdown_on_def wait_on_def)

text \<open>A fresh server ends when its thread has not reached \<open>popData\<close> yet, and never once it has.\<close>

definition ended_server :: "recieve_at \<Rightarrow> bool \<times> Skvserver" where
  "ended_server at = (True, (new_Skvserver ''a'' ''b'' (\<lambda>_. 0) (\<lambda>_ lo _. lo) None)\<lparr>recieveMsgThread := at\<rparr>)"


end
