(* ===== verification/SRaftLogging.thy ===== *)
theory SRaftLogging
  imports NetUtil
begin

text \<open>
  The logger of the Raft side (\<open>SRaft/Logger.h\<close>, \<open>Logger.cc\<close>): the class of the network library with a mutex in each
  of its two operations, used from many threads. A macro calls them one after the other without keeping the lock, so
  its two steps are steps of an interleaving. Here \<open>SRAFTDEBUG\<close> is defined and \<open>LOG_DEBUG\<close> is like the others.
\<close>

text \<open>Its time stamps are a copy of the class of the network library (\<open>SRaft/Timestamp.cc\<close>) and print the same.\<close>

record RaftTimestamp =
  raft_microSecondSinceEpoch :: i64

definition RaftTimestamp_default :: RaftTimestamp where
  "RaftTimestamp_default = \<lparr>raft_microSecondSinceEpoch = 0\<rparr>"

definition RaftTimestamp_of :: "i64 \<Rightarrow> RaftTimestamp" where
  "RaftTimestamp_of t = \<lparr>raft_microSecondSinceEpoch = t\<rparr>"

definition RaftTimestamp_now :: "i64 \<Rightarrow> RaftTimestamp" where
  "RaftTimestamp_now currentTime = RaftTimestamp_of currentTime"

definition RaftTimestamp_toString :: "(i64 \<Rightarrow> tm option) \<Rightarrow> RaftTimestamp \<Rightarrow> string result" where
  "RaftTimestamp_toString localtime ts =
     (case localtime (raft_microSecondSinceEpoch ts) of
        None \<Rightarrow> Inl NullDeref
      | Some timeinfo \<Rightarrow> Inr (snprintf 128
          (fmt_0d 4 (tm_year timeinfo + 1900) @ ''/'' @ fmt_0d 2 (tm_mon timeinfo + 1) @ ''/'' @ fmt_0d 2 (tm_mday timeinfo) @
           '' '' @ fmt_0d 2 (tm_hour timeinfo) @ '':'' @ fmt_0d 2 (tm_min timeinfo) @ '':'' @ fmt_0d 2 (tm_sec timeinfo))))"

lemma RaftTimestamp_same: "RaftTimestamp_toString localtime (RaftTimestamp_now t) = toString localtime (Timestamp_now t)"
  by (simp add: RaftTimestamp_toString_def RaftTimestamp_now_def RaftTimestamp_of_def toString_def Timestamp_now_def
      Timestamp_of_def time_text_def split: option.split)

type_synonym log_call = "logLvel \<times> i64 \<times> string"

text \<open>A thread: the macro calls it has still to make, and whether the first of them has set the level.\<close>

record LogThread =
  calls :: "log_call list"
  level_set :: bool

type_synonym log_system = "Logger \<times> LogThread list"

definition locked_setLogLevel :: "int \<Rightarrow> Logger \<Rightarrow> Logger" where
  "locked_setLogLevel Level l = l\<lparr>logLevel := Level\<rparr>"

definition locked_log :: "(i64 \<Rightarrow> tm option) \<Rightarrow> i64 \<Rightarrow> string \<Rightarrow> Logger \<Rightarrow> Logger result" where
  "locked_log localtime time msg l =
     (let prefix = (if logLevel l = level_number INFO then ''[INFO]''
                    else if logLevel l = level_number ERROR then ''[ERROR]''
                    else if logLevel l = level_number FATAL then ''[FATAL]''
                    else if logLevel l = level_number DEBUG then ''[DEBUG]''
                    else [])
      in rbind (RaftTimestamp_toString localtime (RaftTimestamp_now time))
           (\<lambda>t. Inr (l\<lparr>cout := cout l @ prefix @ t @ '' : '' @ msg @ [CHR 0x0A]\<rparr>)))"

text \<open>One step of thread \<open>i\<close> in \<open>LOG_INFO\<close>, \<open>LOG_ERROR\<close>, \<open>LOG_DEBUG\<close> or \<open>LOG_FATAL\<close>; the last ends the process.\<close>

definition LOG_step :: "(i64 \<Rightarrow> tm option) \<Rightarrow> nat \<Rightarrow> log_system \<Rightarrow> log_system result" where
  "LOG_step localtime i sys =
     (let (l, threads) = sys; th = threads ! i
      in if i < length threads then
           case calls th of
             [] \<Rightarrow> Inr sys
           | (level, time, text) # rest \<Rightarrow>
               if \<not> level_set th
               then Inr (locked_setLogLevel (level_number level) l, threads[i := th\<lparr>level_set := True\<rparr>])
               else rbind (locked_log localtime time (snprintf 1024 text) l)
                      (\<lambda>l. if level = FATAL then Inl Exits
                           else Inr (l, threads[i := \<lparr>calls = rest, level_set = False\<rparr>]))
         else Inr sys)"

fun LOG_run :: "(i64 \<Rightarrow> tm option) \<Rightarrow> nat list \<Rightarrow> log_system \<Rightarrow> log_system result" where
  "LOG_run localtime [] sys = Inr sys"
| "LOG_run localtime (i # schedule) sys = rbind (LOG_step localtime i sys) (LOG_run localtime schedule)"

text \<open>What is printed: the thread, the level on the line, and the call it is the line of.\<close>

type_synonym printed = "nat \<times> logLvel \<times> log_call"

definition log_line :: "(i64 \<Rightarrow> tm option) \<Rightarrow> printed \<Rightarrow> string" where
  "log_line localtime p = (case p of (i, shown, level, time, text) \<Rightarrow>
     level_prefix (level_number shown) @ snprintf 128 (time_text (the (localtime time))) @ '' : '' @ snprintf 1024 text @ [CHR 0x0A])"

text \<open>\<open>localtime\<close> can represent the times of the calls (it returns null for a year that does not fit).\<close>

definition dated :: "(i64 \<Rightarrow> tm option) \<Rightarrow> log_call list \<Rightarrow> bool" where
  "dated localtime cs \<longleftrightarrow> (\<forall>(level, time, text) \<in> set cs. localtime time \<noteq> None)"

definition thread_ok :: "(i64 \<Rightarrow> tm option) \<Rightarrow> logLvel set \<Rightarrow> Logger \<Rightarrow> LogThread \<Rightarrow> bool" where
  "thread_ok localtime levels l th \<longleftrightarrow> dated localtime (calls th) \<and> fst ` set (calls th) \<subseteq> levels \<and>
     (level_set th \<longrightarrow> logLevel l \<in> level_number ` levels)"

definition log_ok :: "(i64 \<Rightarrow> tm option) \<Rightarrow> logLvel set \<Rightarrow> log_system \<Rightarrow> bool" where
  "log_ok localtime levels sys \<longleftrightarrow> FATAL \<notin> levels \<and> (\<forall>th \<in> set (snd sys). thread_ok localtime levels (fst sys) th)"

lemma log_ok_update:
  assumes "log_ok localtime levels (l, ts)" "\<And>th. thread_ok localtime levels l th \<Longrightarrow> thread_ok localtime levels l' th"
    and "thread_ok localtime levels l' th"
  shows "log_ok localtime levels (l', ts[i := th])"
  using assms set_update_subset_insert [of ts i th] by (auto simp: log_ok_def)

lemma locked_log_line:
  assumes "localtime time \<noteq> None" "logLevel l = level_number shown"
  shows "locked_log localtime time (snprintf 1024 text) l = Inr (l\<lparr>cout := cout l @ log_line localtime (i, shown, level, time, text)\<rparr>)"
proof -
  obtain t where "localtime time = Some t" using assms(1) by blast
  then have "RaftTimestamp_toString localtime (RaftTimestamp_now time) = Inr (snprintf 128 (time_text (the (localtime time))))"
    by (simp add: RaftTimestamp_same toString_def Timestamp_now_def Timestamp_of_def)
  then show ?thesis using assms(2) by (simp add: locked_log_def log_line_def level_prefix_def)
qed

text \<open>A step prints nothing, or one whole line for the first call of its thread.\<close>

lemma LOG_step_ok:
  assumes ok: "log_ok localtime levels (l, ts)"
  shows "\<exists>l' ts'. LOG_step localtime i (l, ts) = Inr (l', ts') \<and> log_ok localtime levels (l', ts') \<and> length ts' = length ts \<and>
    (cout l' = cout l \<and> (\<forall>j < length ts. calls (ts' ! j) = calls (ts ! j)) \<or>
     (\<exists>shown call. shown \<in> levels \<and> cout l' = cout l @ log_line localtime (i, shown, call) \<and> i < length ts \<and>
        calls (ts ! i) = call # calls (ts' ! i) \<and> (\<forall>j < length ts. j \<noteq> i \<longrightarrow> ts' ! j = ts ! j)))"
proof (cases "i < length ts \<and> calls (ts ! i) \<noteq> []")
  case False
  then show ?thesis using ok by (auto simp: LOG_step_def Let_def split: list.splits)
next
  case True
  then obtain level time "text" rest where c: "calls (ts ! i) = (level, time, text) # rest" by (cases "calls (ts ! i)") auto
  have i: "i < length ts" using True by blast
  have th: "thread_ok localtime levels l (ts ! i)" using ok i by (simp add: log_ok_def)
  then have lv: "level \<in> levels" "level \<noteq> FATAL" "localtime time \<noteq> None" and rest: "dated localtime rest" "fst ` set rest \<subseteq> levels"
    using c ok by (auto simp: thread_ok_def log_ok_def dated_def)
  show ?thesis
  proof (cases "level_set (ts ! i)")
    case False
    have "log_ok localtime levels (locked_setLogLevel (level_number level) l, ts[i := (ts ! i)\<lparr>level_set := True\<rparr>])"
      by (rule log_ok_update [OF ok]) (use th lv(1) in \<open>simp_all add: thread_ok_def locked_setLogLevel_def\<close>)
    then show ?thesis using c i False by (simp add: LOG_step_def locked_setLogLevel_def nth_list_update)
  next
    case True
    then obtain shown where s: "shown \<in> levels" "logLevel l = level_number shown" using th by (auto simp: thread_ok_def)
    have "log_ok localtime levels (l\<lparr>cout := out\<rparr>, ts[i := \<lparr>calls = rest, level_set = False\<rparr>])" for out
      by (rule log_ok_update [OF ok]) (use rest in \<open>simp_all add: thread_ok_def\<close>)
    then show ?thesis using c i True s(1) lv(2) locked_log_line [where localtime = localtime and time = time, OF lv(3) s(2), of "text" i level]
      by (auto simp: LOG_step_def)
  qed
qed

lemma LOG_run_lines:
  shows "log_ok localtime levels (l, ts) \<Longrightarrow> \<exists>l' ts' printed. LOG_run localtime schedule (l, ts) = Inr (l', ts') \<and> length ts' = length ts \<and>
    cout l' = cout l @ concat (map (log_line localtime) printed) \<and>
    (\<forall>i < length ts. map (\<lambda>p. snd (snd p)) (filter (\<lambda>p. fst p = i) printed) @ calls (ts' ! i) = calls (ts ! i)) \<and>
    (\<forall>p \<in> set printed. fst p < length ts \<and> fst (snd p) \<in> levels)"
proof (induction schedule arbitrary: l ts)
  case Nil
  have "\<forall>i < length ts. map (\<lambda>p. snd (snd p)) (filter (\<lambda>p. fst p = i) ([] :: printed list)) @ calls (ts ! i) = calls (ts ! i)" by simp
  then show ?case by (intro exI [of _ l] exI [of _ ts] exI [of _ "[]"]) simp
next
  case (Cons i schedule)
  obtain l1 ts1 where s: "LOG_step localtime i (l, ts) = Inr (l1, ts1)" "log_ok localtime levels (l1, ts1)" "length ts1 = length ts"
    "cout l1 = cout l \<and> (\<forall>j < length ts. calls (ts1 ! j) = calls (ts ! j)) \<or>
     (\<exists>shown call. shown \<in> levels \<and> cout l1 = cout l @ log_line localtime (i, shown, call) \<and> i < length ts \<and>
        calls (ts ! i) = call # calls (ts1 ! i) \<and> (\<forall>j < length ts. j \<noteq> i \<longrightarrow> ts1 ! j = ts ! j))"
    using LOG_step_ok [OF Cons.prems] by blast
  obtain l' ts' printed where r: "LOG_run localtime schedule (l1, ts1) = Inr (l', ts')" "length ts' = length ts"
    "cout l' = cout l1 @ concat (map (log_line localtime) printed)"
    "\<forall>j < length ts. map (\<lambda>p. snd (snd p)) (filter (\<lambda>p. fst p = j) printed) @ calls (ts' ! j) = calls (ts1 ! j)"
    "\<forall>p \<in> set printed. fst p < length ts \<and> fst (snd p) \<in> levels"
    using Cons.IH [OF s(2)] s(3) by metis
  have run: "LOG_run localtime (i # schedule) (l, ts) = Inr (l', ts')" using s(1) r(1) by simp
  from s(4) show ?case
  proof
    assume "cout l1 = cout l \<and> (\<forall>j < length ts. calls (ts1 ! j) = calls (ts ! j))"
    then show ?thesis using run r(2-5) by (intro exI [of _ l'] exI [of _ ts'] exI [of _ printed]) simp
  next
    assume "\<exists>shown call. shown \<in> levels \<and> cout l1 = cout l @ log_line localtime (i, shown, call) \<and> i < length ts \<and>
        calls (ts ! i) = call # calls (ts1 ! i) \<and> (\<forall>j < length ts. j \<noteq> i \<longrightarrow> ts1 ! j = ts ! j)"
    then obtain shown call where n: "shown \<in> levels" "cout l1 = cout l @ log_line localtime (i, shown, call)" "i < length ts"
       "calls (ts ! i) = call # calls (ts1 ! i)" "\<forall>j < length ts. j \<noteq> i \<longrightarrow> ts1 ! j = ts ! j" by blast
    let ?printed = "(i, shown, call) # printed"
    have "map (\<lambda>p. snd (snd p)) (filter (\<lambda>p. fst p = j) ?printed) @ calls (ts' ! j) = calls (ts ! j)" if "j < length ts" for j
      using r(4) n(3-5) that by (cases "j = i") auto
    then show ?thesis using run r(2,3,5) n(1-3) by (intro exI [of _ l'] exI [of _ ts'] exI [of _ ?printed]) simp
  qed
qed

text \<open>
  Claim C27. Threads that log at once never mix their lines. However the calls of the macros \<open>LOG_INFO\<close>,
  \<open>LOG_ERROR\<close> and \<open>LOG_DEBUG\<close> (none of \<open>LOG_FATAL\<close>, which ends the process) in any number of threads are interleaved, as
  long as \<open>localtime\<close> returns a calendar time for the times of these calls, all succeed, the output is a sequence of
  whole lines, one for each finished call, and every thread's lines are in its order. The level in front of a line is
  that of a call of some thread, not always its own: another thread may set the level between the two steps.
\<close>
theorem log_lines_whole:
  assumes cal: "\<forall>th \<in> set threads. dated localtime (calls th)"
    and start: "\<forall>th \<in> set threads. \<not> level_set th" and no_fatal: "\<forall>th \<in> set threads. FATAL \<notin> fst ` set (calls th)"
  shows "\<exists>l' threads' printed. LOG_run localtime schedule (l, threads) = Inr (l', threads') \<and>
    cout l' = cout l @ concat (map (log_line localtime) printed) \<and>
    (\<forall>i < length threads. map (\<lambda>p. snd (snd p)) (filter (\<lambda>p. fst p = i) printed) @ calls (threads' ! i) = calls (threads ! i)) \<and>
    (\<forall>p \<in> set printed. fst p < length threads \<and> (\<exists>th \<in> set threads. fst (snd p) \<in> fst ` set (calls th)))"
proof -
  have "log_ok localtime (\<Union>th \<in> set threads. fst ` set (calls th)) (l, threads)" using cal start no_fatal by (auto simp: log_ok_def thread_ok_def)
  from LOG_run_lines [OF this, of schedule] show ?thesis unfolding UN_iff by blast
qed

text \<open>In the witness two threads take turns, and the line of the first is printed with the level of the second.\<close>

definition some_day :: tm where
  "some_day = \<lparr>tm_year = 124, tm_mon = 4, tm_mday = 17, tm_hour = 12, tm_min = 30, tm_sec = 0\<rparr>"

definition two_threads :: "LogThread list" where
  "two_threads = [\<lparr>calls = [(INFO, 0, ''a'')], level_set = False\<rparr>, \<lparr>calls = [(ERROR, 0, ''b'')], level_set = False\<rparr>]"

lemma turns_taken:
  "LOG_run (\<lambda>_. Some some_day) [0, 1, 0, 1] (\<lparr>logLevel = 0, cout = []\<rparr>, two_threads) =
     Inr (\<lparr>logLevel = 1, cout = log_line (\<lambda>_. Some some_day) (0, ERROR, INFO, 0, ''a'') @
            log_line (\<lambda>_. Some some_day) (1, ERROR, ERROR, 0, ''b'')\<rparr>,
          [\<lparr>calls = [], level_set = False\<rparr>, \<lparr>calls = [], level_set = False\<rparr>])"
  by (simp add: two_threads_def LOG_step_def locked_setLogLevel_def locked_log_def RaftTimestamp_same toString_def Timestamp_now_def
      Timestamp_of_def log_line_def level_prefix_def)

theorem log_lines_whole_witness:
  "\<exists>l' threads' printed. LOG_run (\<lambda>_. Some some_day) [0, 1, 0, 1] (\<lparr>logLevel = 0, cout = []\<rparr>, two_threads) = Inr (l', threads') \<and>
    cout l' = concat (map (log_line (\<lambda>_. Some some_day)) printed) \<and> calls (threads' ! 0) = [] \<and>
    map (\<lambda>p. snd (snd p)) (filter (\<lambda>p. fst p = 0) printed) = [(INFO, 0, ''a'')]"
proof -
  have cal: "\<forall>th \<in> set two_threads. dated (\<lambda>_. Some some_day) (calls th)" by (simp add: dated_def)
  have pre: "\<forall>th \<in> set two_threads. \<not> level_set th" "\<forall>th \<in> set two_threads. FATAL \<notin> fst ` set (calls th)"
    by (simp_all add: two_threads_def)
  obtain l' threads' printed where
    r: "LOG_run (\<lambda>_. Some some_day) [0, 1, 0, 1] (\<lparr>logLevel = 0, cout = []\<rparr>, two_threads) = Inr (l', threads')"
    "cout l' = cout \<lparr>logLevel = 0, cout = []\<rparr> @ concat (map (log_line (\<lambda>_. Some some_day)) printed)"
    "\<forall>i < length two_threads. map (\<lambda>p. snd (snd p)) (filter (\<lambda>p. fst p = i) printed) @ calls (threads' ! i) = calls (two_threads ! i)"
    using log_lines_whole [OF cal pre, of "[0, 1, 0, 1]" "\<lparr>logLevel = 0, cout = []\<rparr>"] by blast
  have "calls (threads' ! 0) = []" using r(1) unfolding turns_taken by auto
  moreover have "map (\<lambda>p. snd (snd p)) (filter (\<lambda>p. fst p = 0) printed) @ calls (threads' ! 0) = [(INFO, 0, ''a'')]"
    using r(3) by (simp add: two_threads_def)
  ultimately show ?thesis using r(1,2) by auto
qed

end
