(* ===== verification/EventPoller.thy ===== *)
theory EventPoller
  imports Prelude
begin

text \<open>
  Channels and the poller: \<open>Channel.h\<close>/\<open>Channel.cc\<close>, \<open>Poller.h\<close>/\<open>Poller.cc\<close>,
  \<open>EPollPooller.h\<close>/\<open>EPollPoller.cc\<close>, \<open>DefaultPoller.cc\<close>, and the pass-through methods of
  \<open>EventLoop\<close> that a channel calls.

  A \<open>Channel*\<close> is a number, and \<open>chans\<close> the heap of channel objects. Of the four callbacks a channel
  keeps whether they are set; \<open>HandleEvent\<close> gives the callbacks it calls, in order. The object a
  channel is tied to is \<open>alive\<close> or not when its events are handled.

  The kernel is a parameter: \<open>ctl op fd event k\<close> is \<open>epoll_ctl\<close> on the kernel's state \<open>k\<close> (\<open>None\<close>: it
  fails), \<open>interest k\<close> the registered descriptors with their events and user pointers. What the code
  relies on is \<open>epoll_contract\<close>, the documented behaviour for open descriptors.
\<close>

type_synonym events = "32 word"

definition EPOLLIN :: events where "EPOLLIN = 0x001"
definition EPOLLPRI :: events where "EPOLLPRI = 0x002"
definition EPOLLOUT :: events where "EPOLLOUT = 0x004"
definition EPOLLERR :: events where "EPOLLERR = 0x008"
definition EPOLLHUP :: events where "EPOLLHUP = 0x010"

definition kNoneEvent :: events where "kNoneEvent = 0"
definition kReadEvent :: events where "kReadEvent = EPOLLIN OR EPOLLPRI"
definition kWriteEvent :: events where "kWriteEvent = EPOLLOUT"

definition kNew :: int where "kNew = -1"
definition kAdded :: int where "kAdded = 1"
definition kDeleted :: int where "kDeleted = 2"

record Channel =
  ch_fd :: int
  ch_event :: events
  ch_revent :: events
  ch_index :: int
  ch_tied :: bool
  readEventCallback :: bool
  writeEventCallback :: bool
  closeEventCallback :: bool
  errorEventCallback :: bool

definition new_Channel :: "int \<Rightarrow> Channel" where
  "new_Channel fd = \<lparr>ch_fd = fd, ch_event = 0, ch_revent = 0, ch_index = -1, ch_tied = False,
     readEventCallback = False, writeEventCallback = False, closeEventCallback = False,
     errorEventCallback = False\<rparr>"

definition SetReadEventCallback :: "Channel \<Rightarrow> Channel" where
  "SetReadEventCallback c = c\<lparr>readEventCallback := True\<rparr>"

definition SetWriteEventCallback :: "Channel \<Rightarrow> Channel" where
  "SetWriteEventCallback c = c\<lparr>writeEventCallback := True\<rparr>"

definition SetCloseEventCallback :: "Channel \<Rightarrow> Channel" where
  "SetCloseEventCallback c = c\<lparr>closeEventCallback := True\<rparr>"

definition SetErrorEventCallback :: "Channel \<Rightarrow> Channel" where
  "SetErrorEventCallback c = c\<lparr>errorEventCallback := True\<rparr>"

declare SetReadEventCallback_def [simp] SetWriteEventCallback_def [simp]
  SetCloseEventCallback_def [simp] SetErrorEventCallback_def [simp]

definition tie :: "Channel \<Rightarrow> Channel" where
  "tie c = c\<lparr>ch_tied := True\<rparr>"

definition set_revents :: "events \<Rightarrow> Channel \<Rightarrow> Channel" where
  "set_revents e c = c\<lparr>ch_revent := e\<rparr>"

definition IsNoneEvent :: "Channel \<Rightarrow> bool" where
  "IsNoneEvent c \<longleftrightarrow> ch_event c = kNoneEvent"

definition IsReading :: "Channel \<Rightarrow> bool" where
  "IsReading c \<longleftrightarrow> ch_event c AND kReadEvent \<noteq> 0"

definition IsWriting :: "Channel \<Rightarrow> bool" where
  "IsWriting c \<longleftrightarrow> ch_event c AND kWriteEvent \<noteq> 0"

subsection \<open>Dispatch\<close>

datatype callback = CloseCallback | ErrorCallback | ReadCallback | WriteCallback

definition HandleEventWithGuard :: "Channel \<Rightarrow> callback list" where
  "HandleEventWithGuard c =
     (if ch_revent c AND EPOLLHUP \<noteq> 0 \<and> \<not> (ch_revent c AND EPOLLIN \<noteq> 0) \<and> closeEventCallback c
      then [CloseCallback] else []) @
     (if ch_revent c AND EPOLLERR \<noteq> 0 \<and> errorEventCallback c then [ErrorCallback] else []) @
     (if ch_revent c AND (EPOLLIN OR EPOLLPRI) \<noteq> 0 \<and> readEventCallback c then [ReadCallback] else []) @
     (if ch_revent c AND EPOLLOUT \<noteq> 0 \<and> writeEventCallback c then [WriteCallback] else [])"

definition HandleEvent :: "bool \<Rightarrow> Channel \<Rightarrow> callback list" where
  "HandleEvent alive c =
     (if ch_tied c then (if alive then HandleEventWithGuard c else []) else HandleEventWithGuard c)"

subsection \<open>The poller\<close>

datatype epoll_op = EPOLL_CTL_ADD | EPOLL_CTL_MOD | EPOLL_CTL_DEL

type_synonym 'k epoll_ctl = "epoll_op \<Rightarrow> int \<Rightarrow> events \<times> nat \<Rightarrow> 'k \<Rightarrow> 'k option"

record 'k EPollPoller =
  channels :: "int \<rightharpoonup> nat"
  chans :: "nat \<Rightarrow> Channel"
  kernelState :: 'k
  eventList :: "(events \<times> nat) list"

definition kInitEventListSize :: nat where "kInitEventListSize = 16"

definition new_EPollPoller :: "'k option \<Rightarrow> (nat \<Rightarrow> Channel) \<Rightarrow> 'k EPollPoller result" where
  "new_EPollPoller epoll_create1 heap =
     (case epoll_create1 of
        None \<Rightarrow> Inl Exits
      | Some k \<Rightarrow> Inr \<lparr>channels = Map.empty, chans = heap, kernelState = k,
                      eventList = replicate kInitEventListSize (0, 0)\<rparr>)"

definition HasChannel :: "nat \<Rightarrow> 'k EPollPoller \<Rightarrow> bool" where
  "HasChannel channel p \<longleftrightarrow> channels p (ch_fd (chans p channel)) = Some channel"

definition set_index :: "nat \<Rightarrow> int \<Rightarrow> 'k EPollPoller \<Rightarrow> 'k EPollPoller" where
  "set_index channel i p = p\<lparr>chans := (chans p)(channel := (chans p channel)\<lparr>ch_index := i\<rparr>)\<rparr>"

definition Update :: "'k epoll_ctl \<Rightarrow> epoll_op \<Rightarrow> nat \<Rightarrow> 'k EPollPoller \<Rightarrow> 'k EPollPoller result" where
  "Update ctl operation channel p =
     (let c = chans p channel
      in case ctl operation (ch_fd c) (ch_event c, channel) (kernelState p) of
           Some k \<Rightarrow> Inr (p\<lparr>kernelState := k\<rparr>)
         | None \<Rightarrow> if operation = EPOLL_CTL_DEL then Inr p else Inl Exits)"

definition UpdateChannel :: "'k epoll_ctl \<Rightarrow> nat \<Rightarrow> 'k EPollPoller \<Rightarrow> 'k EPollPoller result" where
  "UpdateChannel ctl channel p =
     (let index = ch_index (chans p channel); fd = ch_fd (chans p channel)
      in if index = kNew \<or> index = kDeleted then
           let p = (if index = kNew then p\<lparr>channels := (channels p)(fd \<mapsto> channel)\<rparr> else p);
               p = set_index channel kAdded p
           in Update ctl EPOLL_CTL_ADD channel p
         else if IsNoneEvent (chans p channel) then
           rbind (Update ctl EPOLL_CTL_DEL channel p) (\<lambda>p. Inr (set_index channel kDeleted p))
         else Update ctl EPOLL_CTL_MOD channel p)"

definition RemoveChannel :: "'k epoll_ctl \<Rightarrow> nat \<Rightarrow> 'k EPollPoller \<Rightarrow> 'k EPollPoller result" where
  "RemoveChannel ctl channel p =
     (let fd = ch_fd (chans p channel);
          p = p\<lparr>channels := (channels p)(fd := None)\<rparr>;
          index = ch_index (chans p channel)
      in rbind (if index = kAdded then Update ctl EPOLL_CTL_DEL channel p else Inr p)
           (\<lambda>p. Inr (set_index channel kNew p)))"

text \<open>
  A pass of \<open>Poll\<close>. \<open>epoll_wait maxevents\<close> is what the system call gives, the \<open>errno\<close> or the reported
  events; it fills the front of \<open>eventList_\<close>. The test \<open>num_events = eventList_.size()\<close> assigns, and
  \<open>reserve\<close> leaves the size of the vector as it is.
\<close>

definition fillActiveChannels :: "nat \<Rightarrow> 'k EPollPoller \<Rightarrow> nat list \<times> 'k EPollPoller" where
  "fillActiveChannels numEvents p =
     fold (\<lambda>(ev, channel) (active, p).
       (active @ [channel], p\<lparr>chans := (chans p)(channel := set_revents ev (chans p channel))\<rparr>))
     (take numEvents (eventList p)) ([], p)"

definition Poll :: "(nat \<Rightarrow> int + (events \<times> nat) list) \<Rightarrow> 'k EPollPoller \<Rightarrow> nat list \<times> 'k EPollPoller" where
  "Poll epoll_wait p =
     (case epoll_wait (length (eventList p)) of
        Inl save_errno \<Rightarrow> ([], p)
      | Inr evs \<Rightarrow>
          let p = p\<lparr>eventList := take (length (eventList p)) evs @ drop (length evs) (eventList p)\<rparr>
          in if 0 < length evs then fillActiveChannels (length evs) p else ([], p))"

text \<open>\<open>NewDefaultPoller\<close> gives no poller when the environment variable is set.\<close>

definition NewDefaultPoller :: "bool \<Rightarrow> 'k option \<Rightarrow> (nat \<Rightarrow> Channel) \<Rightarrow> 'k EPollPoller option result" where
  "NewDefaultPoller MUDUO_USE_POLL epoll_create1 heap =
     (if MUDUO_USE_POLL then Inr None
      else rbind (new_EPollPoller epoll_create1 heap) (\<lambda>p. Inr (Some p)))"

subsection \<open>What a channel asks for\<close>

datatype channel_change = EnableRead | DisableRead | EnableWrite | DisableWrite | DisableAll

fun change_event :: "channel_change \<Rightarrow> events \<Rightarrow> events" where
  "change_event EnableRead e = e OR kReadEvent"
| "change_event DisableRead e = e AND NOT kReadEvent"
| "change_event EnableWrite e = e OR kWriteEvent"
| "change_event DisableWrite e = e AND NOT kWriteEvent"
| "change_event DisableAll e = kNoneEvent"

definition change_channel :: "'k epoll_ctl \<Rightarrow> channel_change \<Rightarrow> nat \<Rightarrow> 'k EPollPoller \<Rightarrow> 'k EPollPoller result" where
  "change_channel ctl ch channel p =
     UpdateChannel ctl channel
       (p\<lparr>chans := (chans p)(channel := (chans p channel)\<lparr>ch_event := change_event ch (ch_event (chans p channel))\<rparr>)\<rparr>)"

subsection \<open>The poller and the kernel agree\<close>

definition epoll_contract :: "'k epoll_ctl \<Rightarrow> ('k \<Rightarrow> int \<Rightarrow> (events \<times> nat) option) \<Rightarrow> bool" where
  "epoll_contract ctl interest \<longleftrightarrow>
     (\<forall>k fd e. interest k fd = None \<longrightarrow>
        (\<exists>k'. ctl EPOLL_CTL_ADD fd e k = Some k' \<and> interest k' = (interest k)(fd \<mapsto> e))) \<and>
     (\<forall>k fd e. interest k fd \<noteq> None \<longrightarrow>
        (\<exists>k'. ctl EPOLL_CTL_MOD fd e k = Some k' \<and> interest k' = (interest k)(fd \<mapsto> e))) \<and>
     (\<forall>k fd e. interest k fd \<noteq> None \<longrightarrow>
        (\<exists>k'. ctl EPOLL_CTL_DEL fd e k = Some k' \<and> interest k' = (interest k)(fd := None)))"

lemma epoll_contractD:
  assumes "epoll_contract ctl interest"
  shows "interest k fd = None \<Longrightarrow> \<exists>k'. ctl EPOLL_CTL_ADD fd e k = Some k' \<and> interest k' = (interest k)(fd \<mapsto> e)"
    "interest k fd \<noteq> None \<Longrightarrow> \<exists>k'. ctl EPOLL_CTL_MOD fd e k = Some k' \<and> interest k' = (interest k)(fd \<mapsto> e)"
    "interest k fd \<noteq> None \<Longrightarrow> \<exists>k'. ctl EPOLL_CTL_DEL fd e k = Some k' \<and> interest k' = (interest k)(fd := None)"
  using assms unfolding epoll_contract_def by blast+

text \<open>
  The invariant: a channel is new, added or deleted; the ones that are not new own the map entry of
  their descriptor; the kernel watches exactly the descriptors of the added ones, with their events.
\<close>

definition watched :: "'k EPollPoller \<Rightarrow> int \<Rightarrow> (events \<times> nat) option" where
  "watched p fd =
     (case channels p fd of
        None \<Rightarrow> None
      | Some c \<Rightarrow> if ch_index (chans p c) = kAdded then Some (ch_event (chans p c), c) else None)"

definition poller_ok :: "('k \<Rightarrow> int \<Rightarrow> (events \<times> nat) option) \<Rightarrow> 'k EPollPoller \<Rightarrow> bool" where
  "poller_ok interest p \<longleftrightarrow>
     (\<forall>c. ch_index (chans p c) \<in> {kNew, kAdded, kDeleted}) \<and>
     (\<forall>c. ch_index (chans p c) \<noteq> kNew \<longleftrightarrow> channels p (ch_fd (chans p c)) = Some c) \<and>
     (\<forall>fd c. channels p fd = Some c \<longrightarrow> ch_fd (chans p c) = fd) \<and>
     interest (kernelState p) = watched p"

text \<open>
  What may happen to the poller: a channel object is created at an address not in use, changes its
  interest or is removed. A channel may be registered when no other channel has its descriptor.
\<close>

datatype poller_event = Create nat int | Change channel_change nat | Remove nat

fun poller_legal :: "poller_event \<Rightarrow> 'k EPollPoller \<Rightarrow> bool" where
  "poller_legal (Create c fd) p \<longleftrightarrow> ch_index (chans p c) = kNew"
| "poller_legal (Change ch c) p \<longleftrightarrow>
     ch_index (chans p c) = kNew \<longrightarrow> channels p (ch_fd (chans p c)) = None"
| "poller_legal (Remove c) p \<longleftrightarrow> HasChannel c p"

fun poller_step :: "'k epoll_ctl \<Rightarrow> poller_event \<Rightarrow> 'k EPollPoller \<Rightarrow> 'k EPollPoller result" where
  "poller_step ctl (Create c fd) p = Inr (p\<lparr>chans := (chans p)(c := new_Channel fd)\<rparr>)"
| "poller_step ctl (Change ch c) p = change_channel ctl ch c p"
| "poller_step ctl (Remove c) p = RemoveChannel ctl c p"

lemma index_distinct [simp]: "kNew \<noteq> kAdded" "kAdded \<noteq> kNew" "kNew \<noteq> kDeleted" "kDeleted \<noteq> kNew"
  "kAdded \<noteq> kDeleted" "kDeleted \<noteq> kAdded"
  by (simp_all add: kNew_def kAdded_def kDeleted_def)

lemma poller_okI:
  "(\<And>c. ch_index (chans p c) \<in> {kNew, kAdded, kDeleted}) \<Longrightarrow>
   (\<And>c. ch_index (chans p c) \<noteq> kNew \<Longrightarrow> channels p (ch_fd (chans p c)) = Some c) \<Longrightarrow>
   (\<And>fd c. channels p fd = Some c \<Longrightarrow> ch_fd (chans p c) = fd \<and> ch_index (chans p c) \<noteq> kNew) \<Longrightarrow>
   interest (kernelState p) = watched p \<Longrightarrow> poller_ok interest p"
  unfolding poller_ok_def by metis

lemma poller_okD:
  assumes "poller_ok interest p"
  shows "ch_index (chans p c) \<in> {kNew, kAdded, kDeleted}"
    "ch_index (chans p c) \<noteq> kNew \<Longrightarrow> channels p (ch_fd (chans p c)) = Some c"
    "channels p fd = Some c \<Longrightarrow> ch_fd (chans p c) = fd \<and> ch_index (chans p c) \<noteq> kNew"
    "interest (kernelState p) = watched p"
  using assms unfolding poller_ok_def by (blast, blast, metis, blast)

text \<open>A change of one channel and of the entries of its descriptor.\<close>

lemma poller_ok_upd:
  assumes ok: "poller_ok interest p" and fd: "ch_fd (chans p c) = fd" "ch_fd x = fd"
    and own: "channels p fd = None \<or> channels p fd = Some c"
    and ix: "ch_index x \<in> {kNew, kAdded, kDeleted}"
    and q: "chans q = (chans p)(c := x)" "channels q = (channels p)(fd := if ch_index x = kNew then None else Some c)"
    and k: "interest (kernelState q) = (interest (kernelState p))
       (fd := if ch_index x = kAdded then Some (ch_event x, c) else None)"
  shows "poller_ok interest q"
proof (rule poller_okI)
  have nc: "fd' = fd" if "channels p fd' = Some c" for fd' using poller_okD(3) [OF ok that] fd by simp
  have oc: "ch_fd (chans p d) \<noteq> fd" if "d \<noteq> c" "ch_index (chans p d) \<noteq> kNew" for d
    using poller_okD(2) [OF ok that(2)] own that(1) by auto
  show "ch_index (chans q d) \<in> {kNew, kAdded, kDeleted}" for d
    using ix poller_okD(1) [OF ok, of d] by (simp add: q)
  show "channels q (ch_fd (chans q d)) = Some d" if "ch_index (chans q d) \<noteq> kNew" for d
  proof (cases "d = c")
    case True
    then show ?thesis using that fd by (simp add: q)
  next
    case False
    then show ?thesis using that oc [OF False] poller_okD(2) [OF ok, of d] by (simp add: q)
  qed
  show "ch_fd (chans q d) = fd' \<and> ch_index (chans q d) \<noteq> kNew" if d: "channels q fd' = Some d" for fd' d
  proof (cases "fd' = fd")
    case True
    then show ?thesis using d fd by (simp add: q split: if_splits)
  next
    case False
    then have "channels p fd' = Some d" using d by (simp add: q)
    then show ?thesis using False nc poller_okD(3) [OF ok, of fd' d] by (auto simp: q)
  qed
  show "interest (kernelState q) = watched q"
  proof
    fix fd' show "interest (kernelState q) fd' = watched q fd'"
    proof (cases "fd' = fd")
      case True
      then show ?thesis by (simp add: k watched_def q)
    next
      case False
      then have "channels p fd' \<noteq> Some c" using nc by blast
      then show ?thesis using False
        by (simp add: k poller_okD(4) [OF ok] watched_def q split: option.split)
    qed
  qed
qed

lemma watched_own:
  "channels p fd = Some c \<Longrightarrow> watched p fd = (if ch_index (chans p c) = kAdded then Some (ch_event (chans p c), c) else None)"
  "channels p fd = None \<Longrightarrow> watched p fd = None"
  by (simp_all add: watched_def)

lemma new_Channel_index: "ch_index (new_Channel fd) = kNew" "ch_fd (new_Channel fd) = fd"
  by (simp_all add: new_Channel_def kNew_def)

lemma poller_ok_fresh:
  assumes ok: "poller_ok interest p" and new: "ch_index (chans p c) = kNew" and i: "ch_index x = kNew"
  shows "poller_ok interest (p\<lparr>chans := (chans p)(c := x)\<rparr>)"
proof -
  let ?q = "p\<lparr>chans := (chans p)(c := x)\<rparr>"
  have n: "channels p fd' \<noteq> Some c" for fd' using poller_okD(3) [OF ok, of fd' c] new by blast
  have same: "chans ?q d = chans p d" if "d \<noteq> c" for d using that by simp
  have nd: "d \<noteq> c" if "channels p fd' = Some d" for fd' d using that n by blast
  have w: "watched ?q = watched p"
  proof
    fix fd' show "watched ?q fd' = watched p fd'"
    proof (cases "channels p fd'")
      case (Some d)
      then show ?thesis using nd [OF Some] by (simp add: watched_def)
    qed (simp add: watched_def)
  qed
  show ?thesis
  proof (rule poller_okI)
    show "ch_index (chans ?q d) \<in> {kNew, kAdded, kDeleted}" for d
      using poller_okD(1) [OF ok, of d] i by simp
    show "channels ?q (ch_fd (chans ?q d)) = Some d" if d: "ch_index (chans ?q d) \<noteq> kNew" for d
    proof -
      have "d \<noteq> c" using d i by auto
      then show ?thesis using d poller_okD(2) [OF ok, of d] by simp
    qed
    show "ch_fd (chans ?q d) = fd' \<and> ch_index (chans ?q d) \<noteq> kNew" if d: "channels ?q fd' = Some d" for fd' d
    proof -
      have d': "channels p fd' = Some d" using d by simp
      then show ?thesis using nd [OF d'] poller_okD(3) [OF ok d'] by simp
    qed
    have "interest (kernelState ?q) = watched p" using poller_okD(4) [OF ok] by simp
    then show "interest (kernelState ?q) = watched ?q" by (simp only: w)
  qed
qed

lemma poller_ok_create:
  "poller_ok interest p \<Longrightarrow> ch_index (chans p c) = kNew \<Longrightarrow>
   poller_ok interest (p\<lparr>chans := (chans p)(c := new_Channel fd)\<rparr>)"
  by (rule poller_ok_fresh) (simp_all add: new_Channel_index)

text \<open>A change on a channel that the kernel does not know, or knows, is taken by it.\<close>

lemma change_unwatched:
  assumes con: "epoll_contract ctl interest" and ok: "poller_ok interest p"
    and own: "channels p (ch_fd (chans p c)) = None \<or> channels p (ch_fd (chans p c)) = Some c"
    and new: "ch_index (chans p c) \<noteq> kAdded"
  shows "\<exists>p'. change_channel ctl ch c p = Inr p' \<and> poller_ok interest p'"
proof -
  let ?e = "change_event ch (ch_event (chans p c))"
  let ?fd = "ch_fd (chans p c)"
  let ?c1 = "(chans p c)\<lparr>ch_event := ?e, ch_index := kAdded\<rparr>"
  have "interest (kernelState p) ?fd = None" using own new by (auto simp: poller_okD(4) [OF ok] watched_own)
  then obtain k' where k': "ctl EPOLL_CTL_ADD ?fd (?e, c) (kernelState p) = Some k'"
    "interest k' = (interest (kernelState p))(?fd \<mapsto> (?e, c))"
    using epoll_contractD(1) [OF con] by blast
  let ?q = "p\<lparr>channels := (channels p)(?fd \<mapsto> c), chans := (chans p)(c := ?c1), kernelState := k'\<rparr>"
  have "channels p ?fd = Some c" if "ch_index (chans p c) \<noteq> kNew" by (rule poller_okD(2) [OF ok that])
  then have "change_channel ctl ch c p = Inr ?q"
    using k'(1) new poller_okD(1) [OF ok, of c]
    by (auto simp: change_channel_def UpdateChannel_def Update_def set_index_def fun_upd_idem)
  moreover have "poller_ok interest ?q"
    by (rule poller_ok_upd [where x = ?c1, OF ok refl _ own]) (simp_all add: k')
  ultimately show ?thesis by blast
qed

lemma change_watched:
  assumes con: "epoll_contract ctl interest" and ok: "poller_ok interest p" and added: "ch_index (chans p c) = kAdded"
  shows "\<exists>p'. change_channel ctl ch c p = Inr p' \<and> poller_ok interest p'"
proof -
  let ?e = "change_event ch (ch_event (chans p c))"
  let ?fd = "ch_fd (chans p c)"
  let ?c1 = "(chans p c)\<lparr>ch_event := ?e\<rparr>"
  have mine: "channels p ?fd = Some c" using added poller_okD(2) [OF ok, of c] by simp
  then have own: "channels p ?fd = None \<or> channels p ?fd = Some c" by simp
  have reg: "interest (kernelState p) ?fd \<noteq> None" using mine added by (simp add: poller_okD(4) [OF ok] watched_own)
  show ?thesis
  proof (cases "?e = kNoneEvent")
    case True
    obtain k' where k': "ctl EPOLL_CTL_DEL ?fd (?e, c) (kernelState p) = Some k'"
      "interest k' = (interest (kernelState p))(?fd := None)"
      using epoll_contractD(3) [OF con reg] by blast
    let ?q = "p\<lparr>chans := (chans p)(c := ?c1\<lparr>ch_index := kDeleted\<rparr>), kernelState := k'\<rparr>"
    have "change_channel ctl ch c p = Inr ?q"
      using added k'(1) True by (simp add: change_channel_def UpdateChannel_def Update_def set_index_def IsNoneEvent_def)
    moreover have "poller_ok interest ?q"
      by (rule poller_ok_upd [where x = "?c1\<lparr>ch_index := kDeleted\<rparr>", OF ok refl _ own]) (simp_all add: k' mine fun_upd_idem)
    ultimately show ?thesis by blast
  next
    case False
    obtain k' where k': "ctl EPOLL_CTL_MOD ?fd (?e, c) (kernelState p) = Some k'"
      "interest k' = (interest (kernelState p))(?fd \<mapsto> (?e, c))"
      using epoll_contractD(2) [OF con reg] by blast
    let ?q = "p\<lparr>chans := (chans p)(c := ?c1), kernelState := k'\<rparr>"
    have "change_channel ctl ch c p = Inr ?q"
      using added k'(1) False by (simp add: change_channel_def UpdateChannel_def Update_def IsNoneEvent_def)
    moreover have "poller_ok interest ?q"
      by (rule poller_ok_upd [where x = ?c1, OF ok refl _ own]) (simp_all add: k' mine added fun_upd_idem)
    ultimately show ?thesis by blast
  qed
qed

lemma poller_ok_change:
  assumes con: "epoll_contract ctl interest" and ok: "poller_ok interest p" and leg: "poller_legal (Change ch c) p"
  shows "\<exists>p'. change_channel ctl ch c p = Inr p' \<and> poller_ok interest p'"
proof (cases "ch_index (chans p c) = kAdded")
  case True
  show ?thesis by (rule change_watched [OF con ok True])
next
  case False
  have "channels p (ch_fd (chans p c)) = None \<or> channels p (ch_fd (chans p c)) = Some c"
    using leg poller_okD(2) [OF ok, of c] by auto
  then show ?thesis by (rule change_unwatched [OF con ok _ False])
qed

lemma change_channel_index:
  "change_channel ctl ch n p = Inr p' \<Longrightarrow> ch_index (chans p n) \<in> {kNew, kAdded, kDeleted} \<Longrightarrow>
   ch_index (chans p' n) \<noteq> kNew"
  by (auto simp: change_channel_def UpdateChannel_def Update_def Let_def set_index_def rbind_Inr_iff
      split: if_splits option.splits)

lemma change_channel_fd:
  "change_channel ctl ch n p = Inr p' \<Longrightarrow> ch_fd (chans p' n) = ch_fd (chans p n)"
  by (auto simp: change_channel_def UpdateChannel_def Update_def Let_def set_index_def rbind_Inr_iff
      split: if_splits option.splits)

lemma RemoveChannel_channels:
  "RemoveChannel ctl n p = Inr p' \<Longrightarrow> channels p' = (channels p)(ch_fd (chans p n) := None)"
  by (auto simp: RemoveChannel_def Update_def Let_def set_index_def rbind_Inr_iff
      split: if_splits option.splits)

lemma change_channel_read:
  assumes "change_channel ctl EnableRead n p = Inr p'" "ch_index (chans p n) \<in> {kNew, kAdded, kDeleted}"
  shows "ch_index (chans p' n) = kAdded"
proof -
  have "bit (e OR kReadEvent) 0" for e :: events
    by (simp add: bit_simps kReadEvent_def EPOLLIN_def)
  then have "e OR kReadEvent \<noteq> kNoneEvent" for e :: events
    by (metis bit_0_eq bot_apply bot_bool_def kNoneEvent_def)
  then show ?thesis using assms
    by (auto simp: change_channel_def UpdateChannel_def Update_def Let_def set_index_def rbind_Inr_iff
        IsNoneEvent_def split: if_splits option.splits)
qed

lemma change_channel_frame:
  "change_channel ctl ch n p = Inr p' \<Longrightarrow>
   ch_event (chans p' n) = change_event ch (ch_event (chans p n)) \<and> ch_fd (chans p' n) = ch_fd (chans p n)"
  by (auto simp: change_channel_def UpdateChannel_def Update_def Let_def set_index_def rbind_Inr_iff
      split: if_splits option.splits)

lemma poller_ok_remove:
  assumes con: "epoll_contract ctl interest" and ok: "poller_ok interest p" and leg: "HasChannel c p"
  shows "\<exists>p'. RemoveChannel ctl c p = Inr p' \<and> poller_ok interest p' \<and> \<not> HasChannel c p'"
proof -
  let ?fd = "ch_fd (chans p c)"
  let ?p1 = "p\<lparr>channels := (channels p)(?fd := None)\<rparr>"
  have mine: "channels p ?fd = Some c" using leg by (simp add: HasChannel_def)
  have I: "interest (kernelState p) = watched p" by (rule poller_okD(4) [OF ok])
  obtain k' where k': "interest k' = (interest (kernelState p))(?fd := None)"
    "RemoveChannel ctl c p = Inr (?p1\<lparr>chans := (chans p)(c := (chans p c)\<lparr>ch_index := kNew\<rparr>), kernelState := k'\<rparr>)"
  proof (cases "ch_index (chans p c) = kAdded")
    case True
    then have "interest (kernelState p) ?fd \<noteq> None" using mine by (simp add: I watched_own)
    then obtain k' where "ctl EPOLL_CTL_DEL ?fd (ch_event (chans p c), c) (kernelState p) = Some k'"
        "interest k' = (interest (kernelState p))(?fd := None)"
      using epoll_contractD(3) [OF con] by blast
    then show ?thesis using True by (intro that [of k']) (simp_all add: RemoveChannel_def Update_def set_index_def)
  next
    case False
    then have "interest (kernelState p) ?fd = None" using mine by (simp add: I watched_own)
    then show ?thesis using False
      by (intro that [of "kernelState p"]) (simp_all add: RemoveChannel_def set_index_def fun_upd_idem)
  qed
  let ?q = "?p1\<lparr>chans := (chans p)(c := (chans p c)\<lparr>ch_index := kNew\<rparr>), kernelState := k'\<rparr>"
  have "poller_ok interest ?q"
    by (rule poller_ok_upd [where x = "(chans p c)\<lparr>ch_index := kNew\<rparr>", OF ok refl _ disjI2 [OF mine]]) (simp_all add: k')
  then show ?thesis using k'(2) by (auto simp: HasChannel_def)
qed

text \<open>
  Any sequence of legal events, as a transition system. The start is a new poller under the contract,
  with no channel registered.
\<close>

inductive poller_run :: "'k epoll_ctl \<Rightarrow> 'k EPollPoller \<Rightarrow> 'k EPollPoller \<Rightarrow> bool" for ctl :: "'k epoll_ctl" where
  poller_runI: "poller_legal ev p \<Longrightarrow> poller_step ctl ev p = Inr p' \<Longrightarrow> poller_run ctl p p'"

definition poller_start :: "'k epoll_ctl \<Rightarrow> ('k \<Rightarrow> int \<Rightarrow> (events \<times> nat) option) \<Rightarrow> 'k EPollPoller \<Rightarrow> bool" where
  "poller_start ctl interest p \<longleftrightarrow> epoll_contract ctl interest \<and>
     (\<exists>k heap. new_EPollPoller (Some k) heap = Inr p \<and> interest k = Map.empty \<and>
        (\<forall>c. ch_index (heap c) = kNew))"

definition poller_inv :: "'k epoll_ctl \<Rightarrow> ('k \<Rightarrow> int \<Rightarrow> (events \<times> nat) option) \<Rightarrow> 'k EPollPoller \<Rightarrow> bool" where
  "poller_inv ctl interest p \<longleftrightarrow> epoll_contract ctl interest \<and> poller_ok interest p"

lemma poller_step_ok:
  assumes "poller_inv ctl interest p" "poller_legal ev p"
  shows "\<exists>p'. poller_step ctl ev p = Inr p' \<and> poller_inv ctl interest p'"
proof -
  have con: "epoll_contract ctl interest" and ok: "poller_ok interest p"
    using assms(1) by (simp_all add: poller_inv_def)
  show ?thesis
  proof (cases ev)
    case (Create c fd)
    then show ?thesis using con poller_ok_create [OF ok] assms(2) by (auto simp: poller_inv_def)
  next
    case (Change ch c)
    then show ?thesis using con poller_ok_change [OF con ok, of ch c] assms(2) by (auto simp: poller_inv_def)
  next
    case (Remove c)
    then show ?thesis using con poller_ok_remove [OF con ok, of c] assms(2) by (auto simp: poller_inv_def)
  qed
qed

interpretation poller: inductive_invariant "poller_start ctl interest" "poller_run ctl" "poller_inv ctl interest"
  for ctl interest
proof
  fix p assume "poller_start ctl interest p"
  then obtain k heap where p: "epoll_contract ctl interest" "new_EPollPoller (Some k) heap = Inr p"
    "interest k = Map.empty" "\<And>c. ch_index (heap c) = kNew" by (auto simp: poller_start_def)
  then have "poller_ok interest p"
    by (intro poller_okI) (auto simp: new_EPollPoller_def watched_def fun_eq_iff)
  then show "poller_inv ctl interest p" using p(1) by (simp add: poller_inv_def)
next
  fix p p' assume "poller_inv ctl interest p" "poller_run ctl p p'"
  then show "poller_inv ctl interest p'" by (auto elim!: poller_run.cases dest: poller_step_ok)
qed

text \<open>
  Claim C30. The poller never asks the kernel for something it refuses, and the two agree: after any
  legal sequence of creations, changes of interest and removals of channels, the next legal one does
  not end the process, and the kernel watches a descriptor exactly when the channel registered for it
  is in the state added, with that channel's current events and pointer.
\<close>
theorem poller_and_kernel_agree:
  assumes "reachable (poller_start ctl interest) (poller_run ctl) p"
  shows "interest (kernelState p) = watched p \<and> (poller_legal ev p \<longrightarrow> is_ok (poller_step ctl ev p))"
proof -
  have "poller_inv ctl interest p" by (rule poller.reachable_inv [OF assms])
  then show ?thesis
    using poller_step_ok [of ctl interest p ev] by (auto simp: poller_inv_def poller_okD is_ok_iff)
qed

definition map_ctl :: "(int \<Rightarrow> (events \<times> nat) option) epoll_ctl" where
  "map_ctl op fd e k =
     (case op of
        EPOLL_CTL_ADD \<Rightarrow> if k fd = None then Some (k(fd \<mapsto> e)) else None
      | EPOLL_CTL_MOD \<Rightarrow> if k fd \<noteq> None then Some (k(fd \<mapsto> e)) else None
      | EPOLL_CTL_DEL \<Rightarrow> if k fd \<noteq> None then Some (k(fd := None)) else None)"

lemma map_ctl_contract: "epoll_contract map_ctl (\<lambda>k. k)"
  by (simp add: epoll_contract_def map_ctl_def)

theorem poller_and_kernel_agree_witness:
  "\<exists>p. reachable (poller_start map_ctl (\<lambda>k. k)) (poller_run map_ctl) p \<and>
     kernelState p 7 = Some (kReadEvent, 0) \<and> is_ok (poller_step map_ctl (Change DisableAll 0) p)"
proof -
  obtain p0 :: "(int \<Rightarrow> (events \<times> nat) option) EPollPoller"
    where p0: "new_EPollPoller (Some Map.empty) (\<lambda>c. new_Channel 7) = Inr p0"
    "chans p0 = (\<lambda>c. new_Channel 7)" "channels p0 = Map.empty" "kernelState p0 = Map.empty"
    by (simp add: new_EPollPoller_def)
  have "poller_start map_ctl (\<lambda>k. k) p0"
    unfolding poller_start_def using map_ctl_contract p0(1)
    by (intro conjI exI [of _ Map.empty] exI [of _ "\<lambda>c. new_Channel 7"]) (simp_all add: new_Channel_def kNew_def)
  then have r0: "reachable (poller_start map_ctl (\<lambda>k. k)) (poller_run map_ctl) p0" by (rule reachable_init)
  have leg: "poller_legal (Change EnableRead 0) p0" by (simp add: p0)
  obtain p1 where p1: "poller_step map_ctl (Change EnableRead 0) p0 = Inr p1"
    "ch_index (chans p1 0) = kAdded" "channels p1 7 = Some 0" "ch_event (chans p1 0) = kReadEvent"
    by (simp add: change_channel_def UpdateChannel_def Update_def p0 new_Channel_def kNew_def map_ctl_def
        set_index_def kAdded_def kDeleted_def)
  have r1: "reachable (poller_start map_ctl (\<lambda>k. k)) (poller_run map_ctl) p1"
    by (rule reachable_step [OF r0 poller_runI [OF leg p1(1)]])
  have leg1: "poller_legal (Change DisableAll 0) p1" by (simp add: p1)
  show ?thesis
    using poller_and_kernel_agree [OF r1, of "Change DisableAll 0"] leg1 r1 p1
    by (intro exI [of _ p1]) (simp add: watched_def)
qed

subsection \<open>A pass of the poller\<close>

lemma fill_loop:
  "fold (\<lambda>(ev, channel) (active, p).
       (active @ [channel], p\<lparr>chans := (chans p)(channel := set_revents ev (chans p channel))\<rparr>)) evs (active, p)
   = (active @ map snd evs, p\<lparr>chans := fold (\<lambda>(ev, c) h. h(c := set_revents ev (h c))) evs (chans p)\<rparr>)"
  by (induction evs arbitrary: active p) auto

lemma set_revents_fold:
  "distinct (map snd evs) \<Longrightarrow> (ev, c) \<in> set evs \<Longrightarrow>
   ch_revent (fold (\<lambda>(ev, c) h. h(c := set_revents ev (h c))) evs h c) = ev"
proof (induction evs arbitrary: h)
  case Nil
  then show ?case by simp
next
  case (Cons x xs)
  obtain e d where x: "x = (e, d)" by (cases x)
  have keep: "c \<notin> snd ` set ys \<Longrightarrow> fold (\<lambda>(ev, c) h. h(c := set_revents ev (h c))) ys h c = h c" for ys h
    by (induction ys arbitrary: h) auto
  show ?case
  proof (cases "x = (ev, c)")
    case True
    then have "c \<notin> snd ` set xs" using Cons.prems by auto
    then show ?thesis using True keep [of xs] by (simp add: set_revents_def del: fun_upd_apply) simp
  next
    case False
    then show ?thesis using Cons x by auto
  qed
qed

text \<open>
  A pass of \<open>Poll\<close> hands out exactly the reported channels in order, each with the reported
  events, when \<open>epoll_wait\<close> reports no more events than asked for and no channel twice. The event list
  keeps its size: the code meant to grow it assigns where it should compare, and reserves where it
  should resize, so a pass never reports more than the first 16.
\<close>
lemma poll_hands_out_the_reported:
  assumes "\<And>n evs. epoll_wait n = Inr evs \<Longrightarrow> length evs \<le> n \<and> distinct (map snd evs)"
    and "epoll_wait (length (eventList p)) = Inr evs" "Poll epoll_wait p = (active, p')"
  shows "active = map snd evs \<and> (\<forall>(ev, c) \<in> set evs. ch_revent (chans p' c) = ev) \<and>
    length (eventList p') = length (eventList p)"
proof -
  have c: "length evs \<le> length (eventList p)" "distinct (map snd evs)" using assms(1) [OF assms(2)] by auto
  let ?p = "p\<lparr>eventList := take (length (eventList p)) evs @ drop (length evs) (eventList p)\<rparr>"
  have front: "take (length evs) (eventList ?p) = evs" using c by simp
  have "(active, p') = (map snd evs, ?p\<lparr>chans := fold (\<lambda>(ev, c) h. h(c := set_revents ev (h c))) evs (chans p)\<rparr>)"
  proof (cases "evs = []")
    case True
    then show ?thesis using assms(2,3) by (simp add: Poll_def)
  next
    case False
    then have "Poll epoll_wait p = fillActiveChannels (length evs) ?p" using assms(2) by (simp add: Poll_def Let_def)
    then show ?thesis using assms(3) unfolding fillActiveChannels_def front fill_loop by simp
  qed
  then show ?thesis using c set_revents_fold by fastforce
qed

lemma poll_hands_out_the_reported_example:
  "\<exists>p p'. new_EPollPoller (Some ()) (\<lambda>c. new_Channel 7) = Inr p \<and>
     Poll (\<lambda>n. Inr (take (min n 1) [(EPOLLIN, 3)])) p = ([3], p') \<and> length (eventList p') = 16"
proof -
  obtain p where p: "new_EPollPoller (Some ()) (\<lambda>c. new_Channel 7) = Inr p" "length (eventList p) = 16"
    by (simp add: new_EPollPoller_def kInitEventListSize_def)
  let ?w = "\<lambda>n. Inr (take (min n 1) [(EPOLLIN, 3)]) :: int + (events \<times> nat) list"
  obtain active p' where q: "Poll ?w p = (active, p')" by fastforce
  have con: "length evs \<le> n \<and> distinct (map snd evs)" if "?w n = Inr evs" for n evs
    using that by (cases n) auto
  have r: "?w (length (eventList p)) = Inr [(EPOLLIN, 3)]" by (simp add: p)
  from poll_hands_out_the_reported [of ?w, OF con r q] q p show ?thesis by auto
qed

end
