(* ===== verification/EventLoop.thy ===== *)
theory EventLoop
  imports EventPoller
begin

text \<open>
  The event loop: class \<open>EventLoop\<close> of \<open>EventLoop.h\<close> and \<open>Eventloop.cc\<close>, the thread-id cache of
  \<open>CurrentThread.h\<close>/\<open>CurrentThread.cc\<close>.

  A functor is a value of type \<open>'f\<close>, and \<open>exec\<close> runs it on the loop. The \<open>eventfd\<close> is a parameter:
  \<open>ewrite\<close> and \<open>eread\<close> are the \<open>write\<close> of 1 and the \<open>read\<close> on its state \<open>'w\<close>, \<open>readable\<close> says that
  \<open>epoll_wait\<close> reports it. The code relies on \<open>eventfd_contract\<close>: it is readable after a write.

  The operations come first; \<open>loop_run\<close> then interleaves them between the loop's thread and any
  number of other threads. The two steps of \<open>QueueInLoop\<close>, adding the functor under the mutex and
  waking the loop, are separate steps of another thread; \<open>waking\<close> counts the threads between them
  (and between the two steps of \<open>quit\<close>). \<open>queued\<close> and \<open>executed\<close> record the functors added and run.
\<close>

subsection \<open>Thread ids\<close>

text \<open>\<open>t_cachedtid\<close> is thread-local and 0 until the first call; \<open>gettid\<close> is the system call's answer.\<close>

definition CacheTid :: "int \<Rightarrow> int \<Rightarrow> int" where
  "CacheTid gettid t_cachedtid = (if t_cachedtid = 0 then gettid else t_cachedtid)"

definition current_tid :: "int \<Rightarrow> int \<Rightarrow> int \<times> int" where
  "current_tid gettid t_cachedtid =
     (let t = (if t_cachedtid = 0 then CacheTid gettid t_cachedtid else t_cachedtid) in (t, t))"

subsection \<open>Operations\<close>

record ('f, 'w) EventLoop =
  looping :: bool
  quit_flag :: bool
  threadId :: int
  wakeupFd :: 'w
  callingPendingFunctors :: bool
  pendingFunctors :: "'f list"

definition new_EventLoop :: "int \<Rightarrow> 'w \<Rightarrow> ('f, 'w) EventLoop" where
  "new_EventLoop tid fd = \<lparr>looping = False, quit_flag = False, threadId = tid, wakeupFd = fd,
     callingPendingFunctors = False, pendingFunctors = []\<rparr>"

text \<open>
  The constructor enables reading on the wakeup channel, which registers it with the poller; with no
  poller (\<open>NewDefaultPoller\<close> returned null) that call dereferences null. The destructor disables and
  removes the channel.
\<close>

definition EventLoop_register :: "'k epoll_ctl \<Rightarrow> nat \<Rightarrow> 'k EPollPoller option \<Rightarrow> 'k EPollPoller result" where
  "EventLoop_register ctl wakeupChannel poller =
     (case poller of
        None \<Rightarrow> Inl NullDeref
      | Some p \<Rightarrow>
          let p = p\<lparr>chans := (chans p)(wakeupChannel := SetReadEventCallback (chans p wakeupChannel))\<rparr>
          in change_channel ctl EnableRead wakeupChannel p)"

definition delete_EventLoop :: "'k epoll_ctl \<Rightarrow> nat \<Rightarrow> 'k EPollPoller \<Rightarrow> 'k EPollPoller result" where
  "delete_EventLoop ctl wakeupChannel p =
     rbind (change_channel ctl DisableAll wakeupChannel p) (RemoveChannel ctl wakeupChannel)"

text \<open>
  The whole constructor: the poller, the eventfd (\<open>None\<close>: the call failed), and the wakeup channel at the
  address \<open>wakeupChannel\<close>, registered for reading.
\<close>

definition CreateEventFd :: "(int \<times> 'w) option \<Rightarrow> (int \<times> 'w) result" where
  "CreateEventFd eventfd = (case eventfd of None \<Rightarrow> Inl Exits | Some evtfd \<Rightarrow> Inr evtfd)"

definition create_EventLoop :: "'k epoll_ctl \<Rightarrow> bool \<Rightarrow> 'k option \<Rightarrow> (int \<times> 'w) option \<Rightarrow> int \<Rightarrow> nat \<Rightarrow> (nat \<Rightarrow> Channel) \<Rightarrow>
    (('f, 'w) EventLoop \<times> 'k EPollPoller) result" where
  "create_EventLoop ctl MUDUO_USE_POLL epoll_create1 eventfd tid wakeupChannel heap =
     rbind (NewDefaultPoller MUDUO_USE_POLL epoll_create1 heap) (\<lambda>poller.
     rbind (CreateEventFd eventfd) (\<lambda>(fd, w).
     let poller = map_option (\<lambda>p. p\<lparr>chans := (chans p)(wakeupChannel := new_Channel fd)\<rparr>) poller
     in rbind (EventLoop_register ctl wakeupChannel poller) (\<lambda>p. Inr (new_EventLoop tid w, p))))"

lemma create_EventLoop_no_poller: "create_EventLoop ctl True k (Some fd) tid ptr heap = Inl NullDeref"
  by (simp add: create_EventLoop_def NewDefaultPoller_def CreateEventFd_def EventLoop_register_def split: prod.splits)

lemma create_EventLoop_watches:
  assumes con: "epoll_contract ctl interest" and k: "interest k = Map.empty"
    and heap: "\<And>n. ch_index (heap n) = kNew"
  shows "\<exists>l p. create_EventLoop ctl False (Some k) (Some (fd, w)) tid ptr heap = Inr (l, p) \<and>
     poller_ok interest p \<and> interest (kernelState p) fd = Some (kReadEvent, ptr)"
proof -
  let ?ch = "(new_Channel fd)\<lparr>readEventCallback := True\<rparr>"
  let ?base = "\<lparr>channels = Map.empty, chans = heap, kernelState = k, eventList = replicate kInitEventListSize (0, 0)\<rparr>"
  let ?p = "?base\<lparr>chans := heap(ptr := ?ch)\<rparr>"
  have ok0: "poller_ok interest ?base"
    by (rule poller_okI) (simp_all add: heap k watched_def fun_eq_iff)
  have ok: "poller_ok interest ?p"
    using poller_ok_fresh [OF ok0, of ptr ?ch] by (simp add: heap new_Channel_index)
  have "poller_legal (Change EnableRead ptr) ?p" by simp
  from poller_ok_change [OF con ok this]
  obtain q where q: "change_channel ctl EnableRead ptr ?p = Inr q" "poller_ok interest q" by blast
  have i: "ch_index (chans q ptr) = kAdded"
    by (rule change_channel_read [OF q(1)]) (simp add: new_Channel_index)
  note F = change_channel_frame [OF q(1)]
  have has: "channels q fd = Some ptr"
    using poller_okD(2) [OF q(2), of ptr] i F by (simp add: new_Channel_index)
  have "ch_event (chans q ptr) = kReadEvent" using F by (simp add: new_Channel_def)
  then have "interest (kernelState q) fd = Some (kReadEvent, ptr)"
    using poller_okD(4) [OF q(2)] watched_own(1) [OF has] i by simp
  moreover have "create_EventLoop ctl False (Some k) (Some (fd, w)) tid ptr heap = Inr (new_EventLoop tid w, q)"
    using q(1) by (simp add: create_EventLoop_def NewDefaultPoller_def new_EPollPoller_def CreateEventFd_def
        EventLoop_register_def)
  ultimately show ?thesis using q(2) by blast
qed

definition IsInLoopThread :: "int \<Rightarrow> ('f, 'w) EventLoop \<Rightarrow> bool" where
  "IsInLoopThread tid l \<longleftrightarrow> threadId l = tid"

definition Wakeup :: "('w \<Rightarrow> 'w) \<Rightarrow> ('f, 'w) EventLoop \<Rightarrow> ('f, 'w) EventLoop" where
  "Wakeup ewrite l = l\<lparr>wakeupFd := ewrite (wakeupFd l)\<rparr>"

definition HandleRead :: "('w \<Rightarrow> 'w) \<Rightarrow> ('f, 'w) EventLoop \<Rightarrow> ('f, 'w) EventLoop" where
  "HandleRead eread l = l\<lparr>wakeupFd := eread (wakeupFd l)\<rparr>"

definition queue_push :: "'f \<Rightarrow> ('f, 'w) EventLoop \<Rightarrow> ('f, 'w) EventLoop" where
  "queue_push cb l = l\<lparr>pendingFunctors := pendingFunctors l @ [cb]\<rparr>"

definition queue_wake :: "('w \<Rightarrow> 'w) \<Rightarrow> bool \<Rightarrow> ('f, 'w) EventLoop \<Rightarrow> ('f, 'w) EventLoop" where
  "queue_wake ewrite inLoopThread l =
     (if \<not> inLoopThread \<or> callingPendingFunctors l then Wakeup ewrite l else l)"

definition QueueInLoop :: "('w \<Rightarrow> 'w) \<Rightarrow> bool \<Rightarrow> 'f \<Rightarrow> ('f, 'w) EventLoop \<Rightarrow> ('f, 'w) EventLoop" where
  "QueueInLoop ewrite inLoopThread cb l = queue_wake ewrite inLoopThread (queue_push cb l)"

definition RunInLoop :: "('w \<Rightarrow> 'w) \<Rightarrow> ('f \<Rightarrow> ('f, 'w) EventLoop \<Rightarrow> ('f, 'w) EventLoop) \<Rightarrow> bool \<Rightarrow> 'f \<Rightarrow>
    ('f, 'w) EventLoop \<Rightarrow> ('f, 'w) EventLoop" where
  "RunInLoop ewrite exec inLoopThread cb l =
     (if inLoopThread then exec cb l else QueueInLoop ewrite inLoopThread cb l)"

definition set_quit :: "('f, 'w) EventLoop \<Rightarrow> ('f, 'w) EventLoop" where
  "set_quit l = l\<lparr>quit_flag := True\<rparr>"

definition quit_loop :: "('w \<Rightarrow> 'w) \<Rightarrow> bool \<Rightarrow> ('f, 'w) EventLoop \<Rightarrow> ('f, 'w) EventLoop" where
  "quit_loop ewrite inLoopThread l =
     (let l = set_quit l in if \<not> inLoopThread then Wakeup ewrite l else l)"

text \<open>\<open>DoPendingFunctors\<close> swaps the vector out, raises the flag, runs the functors, lowers the flag.\<close>

definition swap_pending :: "('f, 'w) EventLoop \<Rightarrow> 'f list \<times> ('f, 'w) EventLoop" where
  "swap_pending l = (pendingFunctors l, l\<lparr>pendingFunctors := [], callingPendingFunctors := True\<rparr>)"

definition DoPendingFunctors :: "('f \<Rightarrow> ('f, 'w) EventLoop \<Rightarrow> ('f, 'w) EventLoop) \<Rightarrow>
    ('f, 'w) EventLoop \<Rightarrow> ('f, 'w) EventLoop" where
  "DoPendingFunctors exec l =
     (let (vec, l) = swap_pending l; l = fold exec vec l in l\<lparr>callingPendingFunctors := False\<rparr>)"

definition loop_begin :: "('f, 'w) EventLoop \<Rightarrow> ('f, 'w) EventLoop" where
  "loop_begin l = l\<lparr>looping := True, quit_flag := False\<rparr>"

definition loop_end :: "('f, 'w) EventLoop \<Rightarrow> ('f, 'w) EventLoop" where
  "loop_end l = l\<lparr>looping := False\<rparr>"

text \<open>The pending functors are a queue: \<open>queue_push\<close> adds, \<open>swap_pending\<close> empties it in order.\<close>

fun pop_pending :: "('f, 'w) EventLoop \<Rightarrow> ('f \<times> ('f, 'w) EventLoop) option" where
  "pop_pending l = (case pendingFunctors l of [] \<Rightarrow> None | f # fs \<Rightarrow> Some (f, l\<lparr>pendingFunctors := fs\<rparr>))"

interpretation pending: fifo queue_push pop_pending pendingFunctors
  by unfold_locales (auto simp: queue_push_def split: list.splits)

subsection \<open>The loop among other threads\<close>

datatype 'f loop_at = Outside | Testing | Polling | Handling | Running "'f list"

record ('f, 'w) loop_system =
  el :: "('f, 'w) EventLoop"
  at :: "'f loop_at"
  waking :: nat
  queued_functors :: "'f list"
  executed :: "'f list"

definition eventfd_contract :: "('w \<Rightarrow> 'w) \<Rightarrow> ('w \<Rightarrow> bool) \<Rightarrow> bool" where
  "eventfd_contract ewrite readable \<longleftrightarrow> (\<forall>w. readable (ewrite w))"

inductive loop_run :: "('w \<Rightarrow> 'w) \<Rightarrow> ('w \<Rightarrow> 'w) \<Rightarrow> ('f, 'w) loop_system \<Rightarrow> ('f, 'w) loop_system \<Rightarrow> bool"
  for ewrite eread :: "'w \<Rightarrow> 'w" where
  start: "at s = Outside \<Longrightarrow> loop_run ewrite eread s (s\<lparr>el := loop_begin (el s), at := Testing\<rparr>)"
| again: "at s = Testing \<Longrightarrow> \<not> quit_flag (el s) \<Longrightarrow> loop_run ewrite eread s (s\<lparr>at := Polling\<rparr>)"
| leave: "at s = Testing \<Longrightarrow> quit_flag (el s) \<Longrightarrow>
    loop_run ewrite eread s (s\<lparr>el := loop_end (el s), at := Outside\<rparr>)"
| poll: "at s = Polling \<Longrightarrow> loop_run ewrite eread s (s\<lparr>at := Handling\<rparr>)"
| handle_read: "at s = Handling \<Longrightarrow> loop_run ewrite eread s (s\<lparr>el := HandleRead eread (el s)\<rparr>)"
| swap: "at s = Handling \<Longrightarrow> swap_pending (el s) = (vec, l) \<Longrightarrow>
    loop_run ewrite eread s (s\<lparr>el := l, at := Running vec\<rparr>)"
| run: "at s = Running (f # fs) \<Longrightarrow>
    loop_run ewrite eread s (s\<lparr>at := Running fs, executed := executed s @ [f]\<rparr>)"
| done_running: "at s = Running [] \<Longrightarrow>
    loop_run ewrite eread s (s\<lparr>el := (el s)\<lparr>callingPendingFunctors := False\<rparr>, at := Testing\<rparr>)"
| own_queue: "at s = Handling \<or> at s = Running fs \<Longrightarrow>
    loop_run ewrite eread s (s\<lparr>el := QueueInLoop ewrite True f (el s), queued_functors := queued_functors s @ [f]\<rparr>)"
| own_quit: "at s = Handling \<or> at s = Running fs \<Longrightarrow>
    loop_run ewrite eread s (s\<lparr>el := quit_loop ewrite True (el s)\<rparr>)"
| other_push: "loop_run ewrite eread s (s\<lparr>el := queue_push f (el s), waking := Suc (waking s),
      queued_functors := queued_functors s @ [f]\<rparr>)"
| other_quit: "loop_run ewrite eread s (s\<lparr>el := set_quit (el s), waking := Suc (waking s)\<rparr>)"
| other_wake: "waking s = Suc n \<Longrightarrow>
    loop_run ewrite eread s (s\<lparr>el := queue_wake ewrite False (el s), waking := n\<rparr>)"

definition running_now :: "'f loop_at \<Rightarrow> 'f list" where
  "running_now a = (case a of Running fs \<Rightarrow> fs | _ \<Rightarrow> [])"

definition will_wake :: "('w \<Rightarrow> bool) \<Rightarrow> ('f, 'w) loop_system \<Rightarrow> bool" where
  "will_wake readable s \<longleftrightarrow> readable (wakeupFd (el s)) \<or> 0 < waking s"

definition loop_start :: "('w \<Rightarrow> 'w) \<Rightarrow> ('w \<Rightarrow> bool) \<Rightarrow> ('f, 'w) loop_system \<Rightarrow> bool" where
  "loop_start ewrite readable s \<longleftrightarrow> eventfd_contract ewrite readable \<and>
     (\<exists>tid fd. s = \<lparr>el = new_EventLoop tid fd, at = Outside, waking = 0, queued_functors = [], executed = []\<rparr>)"

definition loop_inv :: "('w \<Rightarrow> 'w) \<Rightarrow> ('w \<Rightarrow> bool) \<Rightarrow> ('f, 'w) loop_system \<Rightarrow> bool" where
  "loop_inv ewrite readable s \<longleftrightarrow> eventfd_contract ewrite readable \<and>
     executed s @ running_now (at s) @ pendingFunctors (el s) = queued_functors s \<and>
     (callingPendingFunctors (el s) \<longleftrightarrow> (\<exists>fs. at s = Running fs)) \<and>
     (at s \<noteq> Handling \<longrightarrow> pendingFunctors (el s) \<noteq> [] \<longrightarrow> will_wake readable s) \<and>
     (at s = Polling \<longrightarrow> quit_flag (el s) \<longrightarrow> will_wake readable s)"

lemmas loop_ops = loop_begin_def loop_end_def HandleRead_def swap_pending_def queue_push_def queue_wake_def
  QueueInLoop_def quit_loop_def set_quit_def Wakeup_def

lemma loop_inv_step:
  assumes inv: "loop_inv ewrite readable s" and step: "loop_run ewrite eread s t"
  shows "loop_inv ewrite readable t"
proof -
  have con: "readable (ewrite w)" for w using inv by (simp add: loop_inv_def eventfd_contract_def)
  show ?thesis using step inv con
    by (cases; auto simp: loop_inv_def running_now_def will_wake_def loop_ops)
qed

interpretation loop_system: inductive_invariant "loop_start ewrite readable" "loop_run ewrite eread"
    "loop_inv ewrite readable" for ewrite eread readable
proof
  show "loop_start ewrite readable s \<Longrightarrow> loop_inv ewrite readable s" for s
    by (auto simp: loop_start_def loop_inv_def new_EventLoop_def running_now_def)
  show "loop_inv ewrite readable s \<Longrightarrow> loop_run ewrite eread s t \<Longrightarrow> loop_inv ewrite readable t" for s t
    by (rule loop_inv_step)
qed

text \<open>
  Claim C31. Every functor given to the loop runs once and in the order it was queued, by whichever
  thread: at every moment the functors run so far, those swapped out and still to run, and those
  pending are together exactly the functors queued so far, in order.
\<close>
theorem functors_run_once_in_order:
  assumes "reachable (loop_start ewrite readable) (loop_run ewrite eread) s"
  shows "executed s @ running_now (at s) @ pendingFunctors (el s) = queued_functors s"
  using loop_system.reachable_inv [OF assms] by (simp add: loop_inv_def)

text \<open>
  Claim C32. No wake-up is lost: whenever the loop's thread is about to wait in \<open>epoll_wait\<close> while
  functors are pending or the loop has been told to quit, the wake-up descriptor is readable or some
  other thread is on its way to write to it.
\<close>
theorem no_lost_wakeup:
  assumes "reachable (loop_start ewrite readable) (loop_run ewrite eread) s"
    and "at s = Polling" "pendingFunctors (el s) \<noteq> [] \<or> quit_flag (el s)"
  shows "readable (wakeupFd (el s)) \<or> 0 < waking s"
  using loop_system.reachable_inv [OF assms(1)] assms(2,3) by (auto simp: loop_inv_def will_wake_def)

lemma example_loop:
  "\<exists>s :: (nat, nat) loop_system. reachable (loop_start Suc (\<lambda>w. 0 < w)) (loop_run Suc (\<lambda>_. 0)) s \<and>
     at s = Polling \<and> pendingFunctors (el s) = [1, 2] \<and> executed s = [] \<and> queued_functors s = [1, 2]"
proof -
  let ?R = "reachable (loop_start Suc (\<lambda>w. 0 < w)) (loop_run Suc (\<lambda>_. 0)) :: (nat, nat) loop_system \<Rightarrow> bool"
  let ?s0 = "\<lparr>el = new_EventLoop 1 0, at = Outside, waking = 0, queued_functors = [], executed = []\<rparr>"
  have r0: "?R ?s0" by (rule reachable_init) (auto simp: loop_start_def eventfd_contract_def)
  have r1: "?R (?s0\<lparr>el := loop_begin (el ?s0), at := Testing\<rparr>)"
    by (rule reachable_step [OF r0 loop_run.start]) simp
  from reachable_step [OF r1 loop_run.again]
  have r2: "?R (?s0\<lparr>el := loop_begin (el ?s0), at := Polling\<rparr>)" by (simp add: loop_begin_def)
  from reachable_step [OF reachable_step [OF r2 loop_run.other_push [of _ _ _ 1]] loop_run.other_push [of _ _ _ 2]]
  show ?thesis by (intro exI conjI) (assumption, simp_all add: loop_begin_def new_EventLoop_def queue_push_def)
qed

theorem functors_run_once_in_order_witness:
  "\<exists>s :: (nat, nat) loop_system. reachable (loop_start Suc (\<lambda>w. 0 < w)) (loop_run Suc (\<lambda>_. 0)) s \<and>
     executed s @ running_now (at s) @ pendingFunctors (el s) = [1, 2]"
  using example_loop functors_run_once_in_order [of Suc "\<lambda>w. 0 < w" "\<lambda>_. 0"] by metis

theorem no_lost_wakeup_witness:
  "\<exists>s :: (nat, nat) loop_system. at s = Polling \<and> pendingFunctors (el s) = [1, 2] \<and>
     (0 < wakeupFd (el s) \<or> 0 < waking s)"
proof -
  obtain s :: "(nat, nat) loop_system" where s: "reachable (loop_start Suc (\<lambda>w. 0 < w)) (loop_run Suc (\<lambda>_. 0)) s"
    "at s = Polling" "pendingFunctors (el s) = [1, 2]" using example_loop by blast
  have "pendingFunctors (el s) \<noteq> [] \<or> quit_flag (el s)" by (simp add: s)
  from no_lost_wakeup [OF s(1,2) this] s(2,3) show ?thesis by blast
qed

end
