(* ===== verification/LoopThread.thy ===== *)
theory LoopThread
  imports NetUtil
begin

text \<open>
  The threads of the loops: class \<open>Thread\<close> (\<open>Thread.h\<close>, \<open>Thread.cc\<close>) and class \<open>EventLoopThread\<close>
  (\<open>EventLoopThread.h\<close>, \<open>EventLoopThread.cc\<close>).

  \<open>loop_thread_run\<close> interleaves the owner of an \<open>EventLoopThread\<close>, which calls \<open>startloop\<close> and the
  destructor, with the new thread, which runs \<open>ThreadFunc\<close>; each step reads or writes \<open>loop_\<close>, the
  semaphore, the condition variable or the quit flag once. The mutex is not in the state: only
  \<open>startloop\<close> takes it, because the two locks of \<open>ThreadFunc\<close> are default-constructed and lock
  nothing. The parameter \<open>spurious\<close> says whether a wait may return without a notification.
  \<open>loop_thread_public\<close> adds calls of \<open>quit\<close> from elsewhere.
\<close>

subsection \<open>Threads\<close>

record Thread =
  th_started :: bool
  th_joined :: bool
  th_tid :: int
  th_name :: string

definition new_Thread :: "string \<Rightarrow> Thread" where
  "new_Thread name = \<lparr>th_started = False, th_joined = False, th_tid = 0, th_name = name\<rparr>"

text \<open>\<open>setDefaultName\<close> counts, and names a thread without a name. Nothing calls it.\<close>

definition setDefaultName :: "int \<Rightarrow> Thread \<Rightarrow> int \<times> Thread" where
  "setDefaultName numCreated t =
     (let n = numCreated
      in (numCreated + 1, if th_name t = [] then t\<lparr>th_name := snprintf 32 (''Thread '' @ fmt_d n)\<rparr> else t))"

text \<open>\<open>start\<close> returns after the new thread has stored its id and posted the semaphore.\<close>

definition Thread_start :: "Thread \<Rightarrow> Thread" where
  "Thread_start t = t\<lparr>th_started := True\<rparr>"

definition Thread_body_begin :: "int \<Rightarrow> nat \<Rightarrow> Thread \<Rightarrow> nat \<times> Thread" where
  "Thread_body_begin tid sem t = (sem + 1, t\<lparr>th_tid := tid\<rparr>)"

text \<open>\<open>join\<close> of a thread that was never started dereferences null; a second join throws.\<close>

definition Thread_join :: "Thread \<Rightarrow> Thread result" where
  "Thread_join t =
     (if \<not> th_started t then Inl NullDeref
      else if th_joined t then Inl Throws
      else Inr (t\<lparr>th_joined := True\<rparr>))"

definition delete_Thread :: "int \<Rightarrow> Thread \<Rightarrow> Thread result" where
  "delete_Thread tid t =
     (let sem = (0 :: nat);
          (sem, t) = (if th_started t \<and> \<not> th_joined t then (sem + 1, t\<lparr>th_tid := tid\<rparr>) else (sem, t))
      in if 0 < sem then Inr t else Inl Blocks)"

subsection \<open>A loop thread\<close>

datatype owner_at = BeforeStart | InSemWait | Testing_loop | EnteringWait | Waiting_loop | Returned
  | Joining | DeletingThread | Destroyed

datatype thread_at = NoThread | BeforePost | InCallback | StoringLoop | Notifying | EnteringLoop | Looping
  | ClearingLoop | ThreadEnded

record EventLoopThread =
  loop_set :: bool
  existing :: bool
  lt_thread :: Thread
  lt_sem :: nat
  lt_quit :: bool
  quit_called :: bool
  owner_pc :: owner_at
  thread_pc :: thread_at

definition new_EventLoopThread :: "string \<Rightarrow> EventLoopThread" where
  "new_EventLoopThread name = \<lparr>loop_set = False, existing = False, lt_thread = new_Thread name, lt_sem = 0,
     lt_quit = False, quit_called = False, owner_pc = BeforeStart, thread_pc = NoThread\<rparr>"

text \<open>
  The owner: \<open>startloop\<close>, then the destructor (which may also come without a start).
\<close>

inductive owner_step :: "bool \<Rightarrow> EventLoopThread \<Rightarrow> EventLoopThread \<Rightarrow> bool" for spurious where
  create: "owner_pc s = BeforeStart \<Longrightarrow>
     owner_step spurious s (s\<lparr>lt_thread := Thread_start (lt_thread s), thread_pc := BeforePost, owner_pc := InSemWait\<rparr>)"
| sem_taken: "owner_pc s = InSemWait \<Longrightarrow> 0 < lt_sem s \<Longrightarrow>
     owner_step spurious s (s\<lparr>lt_sem := lt_sem s - 1, owner_pc := Testing_loop\<rparr>)"
| test_null: "owner_pc s = Testing_loop \<Longrightarrow> \<not> loop_set s \<Longrightarrow>
     owner_step spurious s (s\<lparr>owner_pc := EnteringWait\<rparr>)"
| test_set: "owner_pc s = Testing_loop \<Longrightarrow> loop_set s \<Longrightarrow>
     owner_step spurious s (s\<lparr>owner_pc := Returned\<rparr>)"
| wait_begin: "owner_pc s = EnteringWait \<Longrightarrow> owner_step spurious s (s\<lparr>owner_pc := Waiting_loop\<rparr>)"
| wake_up: "owner_pc s = Waiting_loop \<Longrightarrow> spurious \<Longrightarrow>
     owner_step spurious s (s\<lparr>owner_pc := Testing_loop\<rparr>)"
| destroy_quit: "owner_pc s \<in> {BeforeStart, Returned} \<Longrightarrow> loop_set s \<Longrightarrow>
     owner_step spurious s (s\<lparr>existing := True, lt_quit := True, owner_pc := Joining\<rparr>)"
| destroy_null: "owner_pc s \<in> {BeforeStart, Returned} \<Longrightarrow> \<not> loop_set s \<Longrightarrow>
     owner_step spurious s (s\<lparr>existing := True, owner_pc := DeletingThread\<rparr>)"
| joined: "owner_pc s = Joining \<Longrightarrow> thread_pc s = ThreadEnded \<Longrightarrow> Thread_join (lt_thread s) = Inr t \<Longrightarrow>
     owner_step spurious s (s\<lparr>lt_thread := t, owner_pc := DeletingThread\<rparr>)"
| deleted: "owner_pc s = DeletingThread \<Longrightarrow> delete_Thread tid (lt_thread s) = Inr t \<Longrightarrow>
     owner_step spurious s (s\<lparr>lt_thread := t, owner_pc := Destroyed\<rparr>)"

text \<open>The thread: \<open>ThreadFunc\<close>. Entering \<open>loop()\<close> resets the quit flag.\<close>

inductive thread_step :: "EventLoopThread \<Rightarrow> EventLoopThread \<Rightarrow> bool" where
  post: "thread_pc s = BeforePost \<Longrightarrow> Thread_body_begin tid (lt_sem s) (lt_thread s) = (sem, t) \<Longrightarrow>
     thread_step s (s\<lparr>lt_sem := sem, lt_thread := t, thread_pc := InCallback\<rparr>)"
| called_back: "thread_pc s = InCallback \<Longrightarrow> thread_step s (s\<lparr>thread_pc := StoringLoop\<rparr>)"
| store: "thread_pc s = StoringLoop \<Longrightarrow> thread_step s (s\<lparr>loop_set := True, thread_pc := Notifying\<rparr>)"
| notify: "thread_pc s = Notifying \<Longrightarrow>
     thread_step s (s\<lparr>owner_pc := (if owner_pc s = Waiting_loop then Testing_loop else owner_pc s),
                      thread_pc := EnteringLoop\<rparr>)"
| enter_loop: "thread_pc s = EnteringLoop \<Longrightarrow> thread_step s (s\<lparr>lt_quit := False, thread_pc := Looping\<rparr>)"
| leave_loop: "thread_pc s = Looping \<Longrightarrow> lt_quit s \<Longrightarrow> thread_step s (s\<lparr>thread_pc := ClearingLoop\<rparr>)"
| clear_loop: "thread_pc s = ClearingLoop \<Longrightarrow>
     thread_step s (s\<lparr>loop_set := False, thread_pc := ThreadEnded\<rparr>)"

definition loop_thread_run :: "bool \<Rightarrow> EventLoopThread \<Rightarrow> EventLoopThread \<Rightarrow> bool" where
  "loop_thread_run spurious s t \<longleftrightarrow> owner_step spurious s t \<or> thread_step s t"

text \<open>
  The loop itself is public: whoever has it (the callback of the new thread, a functor, the caller of \<open>startloop\<close>) may call
  its \<open>quit\<close> at any moment between its construction and its end; \<open>quit_called\<close> records it.
\<close>

inductive quit_step :: "EventLoopThread \<Rightarrow> EventLoopThread \<Rightarrow> bool" where
  quit_loop: "thread_pc s \<notin> {NoThread, BeforePost, ThreadEnded} \<Longrightarrow> quit_step s (s\<lparr>lt_quit := True, quit_called := True\<rparr>)"

definition loop_thread_public :: "bool \<Rightarrow> EventLoopThread \<Rightarrow> EventLoopThread \<Rightarrow> bool" where
  "loop_thread_public spurious s t \<longleftrightarrow> loop_thread_run spurious s t \<or> quit_step s t"

definition loop_thread_start :: "EventLoopThread \<Rightarrow> bool" where
  "loop_thread_start s \<longleftrightarrow> (\<exists>name. s = new_EventLoopThread name)"

text \<open>What holds between the two: who may have set \<open>loop_\<close>, and how far the owner can be.\<close>

definition thread_up :: "EventLoopThread \<Rightarrow> bool" where
  "thread_up s \<longleftrightarrow> th_started (lt_thread s) \<and> \<not> th_joined (lt_thread s) \<and> \<not> lt_quit s \<and>
     thread_pc s \<noteq> NoThread \<and> thread_pc s \<noteq> ClearingLoop \<and> thread_pc s \<noteq> ThreadEnded"

primrec owner_ok :: "owner_at \<Rightarrow> EventLoopThread \<Rightarrow> bool" where
  "owner_ok BeforeStart s =
     (thread_pc s = NoThread \<and> \<not> th_started (lt_thread s) \<and> \<not> th_joined (lt_thread s) \<and> \<not> lt_quit s)"
| "owner_ok InSemWait s = thread_up s"
| "owner_ok Testing_loop s = thread_up s"
| "owner_ok EnteringWait s = thread_up s"
| "owner_ok Waiting_loop s = thread_up s"
| "owner_ok Returned s = (thread_up s \<and> loop_set s)"
| "owner_ok Joining s = th_started (lt_thread s)"
| "owner_ok DeletingThread s = (\<not> th_started (lt_thread s) \<or> th_joined (lt_thread s))"
| "owner_ok Destroyed s = False"

primrec loop_alive :: "thread_at \<Rightarrow> bool" where
  "loop_alive NoThread = False"
| "loop_alive BeforePost = False"
| "loop_alive InCallback = False"
| "loop_alive StoringLoop = False"
| "loop_alive Notifying = True"
| "loop_alive EnteringLoop = True"
| "loop_alive Looping = True"
| "loop_alive ClearingLoop = True"
| "loop_alive ThreadEnded = False"

definition loop_thread_inv :: "EventLoopThread \<Rightarrow> bool" where
  "loop_thread_inv s \<longleftrightarrow> loop_set s = loop_alive (thread_pc s) \<and> (if quit_called s then owner_pc s \<noteq> BeforeStart else owner_ok (owner_pc s) s)"

lemmas loop_thread_ops = Thread_start_def Thread_body_begin_def Thread_join_def delete_Thread_def Let_def

lemma owner_step_quit:
  assumes "owner_step spurious s t" "loop_set s = loop_alive (thread_pc s)" "owner_pc s \<noteq> BeforeStart"
  shows "quit_called t = quit_called s \<and> loop_set t = loop_alive (thread_pc t) \<and> owner_pc t \<noteq> BeforeStart"
  using assms(1) by cases (use assms(2,3) in simp_all)

lemma owner_step_inv:
  assumes inv: "loop_thread_inv s" and step: "owner_step spurious s t"
  shows "loop_thread_inv t"
proof (cases "quit_called s")
  case True
  then show ?thesis using inv owner_step_quit [OF step] by (simp add: loop_thread_inv_def)
next
  case False
  have l: "loop_set s = loop_alive (thread_pc s)" and o: "owner_ok (owner_pc s) s"
    using inv False by (simp_all add: loop_thread_inv_def)
  show ?thesis using step
  proof cases
    case create then show ?thesis using l o by (simp add: loop_thread_inv_def thread_up_def Thread_start_def)
  next
    case sem_taken then show ?thesis using l o by (simp add: loop_thread_inv_def thread_up_def)
  next
    case test_null then show ?thesis using l o by (simp add: loop_thread_inv_def thread_up_def)
  next
    case test_set then show ?thesis using l o by (simp add: loop_thread_inv_def thread_up_def)
  next
    case wait_begin then show ?thesis using l o by (simp add: loop_thread_inv_def thread_up_def)
  next
    case wake_up then show ?thesis using l o by (simp add: loop_thread_inv_def thread_up_def)
  next
    case destroy_quit then show ?thesis using l o by (auto simp add: loop_thread_inv_def thread_up_def)
  next
    case destroy_null then show ?thesis using l o by (auto simp add: loop_thread_inv_def thread_up_def)
  next
    case (joined u) then show ?thesis using l o by (auto simp add: loop_thread_inv_def Thread_join_def split: if_splits)
  next
    case (deleted tid u) then show ?thesis using l o by (auto simp add: loop_thread_inv_def delete_Thread_def Let_def split: if_splits)
  qed
qed

lemma owner_ok_after:
  "owner_ok w s \<Longrightarrow> thread_up s \<longrightarrow> thread_up t \<Longrightarrow> th_started (lt_thread t) = th_started (lt_thread s) \<Longrightarrow>
   th_joined (lt_thread t) = th_joined (lt_thread s) \<Longrightarrow> thread_pc s \<noteq> NoThread \<Longrightarrow>
   (thread_up s \<Longrightarrow> loop_set s \<Longrightarrow> loop_set t) \<Longrightarrow> owner_ok w t"
  by (cases w) auto

lemma thread_step_quit:
  assumes "thread_step s t" "loop_set s = loop_alive (thread_pc s)" "owner_pc s \<noteq> BeforeStart"
  shows "quit_called t = quit_called s \<and> loop_set t = loop_alive (thread_pc t) \<and> owner_pc t \<noteq> BeforeStart"
  using assms(1) by cases (use assms(2,3) in simp_all)

lemma thread_step_inv:
  assumes inv: "loop_thread_inv s" and step: "thread_step s t"
  shows "loop_thread_inv t"
proof (cases "quit_called s")
  case True
  then show ?thesis using inv thread_step_quit [OF step] by (simp add: loop_thread_inv_def)
next
  case False
  have l: "loop_set s = loop_alive (thread_pc s)" and o: "owner_ok (owner_pc s) s"
    using inv False by (simp_all add: loop_thread_inv_def)
  show ?thesis using step
  proof cases
    case (post tid sem u)
    have "owner_ok (owner_pc s) t" by (rule owner_ok_after [OF o]) (use post in \<open>auto simp: thread_up_def Thread_body_begin_def\<close>)
    then show ?thesis using post l False by (simp add: loop_thread_inv_def)
  next
    case called_back
    have "owner_ok (owner_pc s) t" by (rule owner_ok_after [OF o]) (use called_back in \<open>auto simp: thread_up_def\<close>)
    then show ?thesis using called_back l False by (simp add: loop_thread_inv_def)
  next
    case store
    have "owner_ok (owner_pc s) t" by (rule owner_ok_after [OF o]) (use store in \<open>auto simp: thread_up_def\<close>)
    then show ?thesis using store l False by (simp add: loop_thread_inv_def)
  next
    case notify
    have "owner_ok (owner_pc s) t" by (rule owner_ok_after [OF o]) (use notify in \<open>auto simp: thread_up_def\<close>)
    then show ?thesis using notify l False by (auto simp: loop_thread_inv_def)
  next
    case enter_loop
    have "owner_ok (owner_pc s) t" by (rule owner_ok_after [OF o]) (use enter_loop in \<open>auto simp: thread_up_def\<close>)
    then show ?thesis using enter_loop l False by (simp add: loop_thread_inv_def)
  next
    case leave_loop
    have "owner_ok (owner_pc s) t" by (rule owner_ok_after [OF o]) (use leave_loop in \<open>auto simp: thread_up_def\<close>)
    then show ?thesis using leave_loop l False by (simp add: loop_thread_inv_def)
  next
    case clear_loop
    have "owner_ok (owner_pc s) t" by (rule owner_ok_after [OF o]) (use clear_loop in \<open>auto simp: thread_up_def\<close>)
    then show ?thesis using clear_loop l False by (simp add: loop_thread_inv_def)
  qed
qed

interpretation loop_thread: inductive_invariant loop_thread_start "loop_thread_public spurious" loop_thread_inv for spurious
proof
  show "loop_thread_start s \<Longrightarrow> loop_thread_inv s" for s
    by (auto simp: loop_thread_start_def loop_thread_inv_def new_EventLoopThread_def new_Thread_def)
  have "loop_thread_inv s \<Longrightarrow> quit_step s t \<Longrightarrow> loop_thread_inv t" for s t
    by (erule quit_step.cases) (auto simp: loop_thread_inv_def split: if_splits)
  then show "loop_thread_inv s \<Longrightarrow> loop_thread_public spurious s t \<Longrightarrow> loop_thread_inv t" for s t
    unfolding loop_thread_public_def loop_thread_run_def using owner_step_inv thread_step_inv by blast
qed

subsection \<open>Four runs\<close>

text \<open>The owner and the new thread up to the semaphore; \<open>lt_at\<close> names the states that follow.\<close>

definition example_thread :: Thread where
  "example_thread = \<lparr>th_started = True, th_joined = False, th_tid = 7, th_name = ''io''\<rparr>"

definition lt_at :: "bool \<Rightarrow> bool \<Rightarrow> bool \<Rightarrow> owner_at \<Rightarrow> thread_at \<Rightarrow> EventLoopThread" where
  "lt_at l ex quit ow th = \<lparr>loop_set = l, existing = ex, lt_thread = example_thread, lt_sem = 0,
     lt_quit = quit, quit_called = False, owner_pc = ow, thread_pc = th\<rparr>"

lemma lt_at_simps [simp]:
  "loop_set (lt_at l e q w p) = l" "lt_quit (lt_at l e q w p) = q" "owner_pc (lt_at l e q w p) = w"
  "thread_pc (lt_at l e q w p) = p" "(lt_at l e q w p)\<lparr>loop_set := l'\<rparr> = lt_at l' e q w p"
  "(lt_at l e q w p)\<lparr>owner_pc := w'\<rparr> = lt_at l e q w' p"
  "(lt_at l e q w p)\<lparr>thread_pc := p'\<rparr> = lt_at l e q w p'"
  "(lt_at l e q w p)\<lparr>lt_quit := q'\<rparr> = lt_at l e q' w p" "(lt_at l e q w p)\<lparr>existing := e'\<rparr> = lt_at l e' q w p"
  by (simp_all add: lt_at_def)

lemma lt_begin: "reachable loop_thread_start (loop_thread_run sp) (lt_at False False False Testing_loop InCallback)"
proof -
  let ?s0 = "new_EventLoopThread ''io''"
  let ?s1 = "?s0\<lparr>lt_thread := Thread_start (lt_thread ?s0), thread_pc := BeforePost, owner_pc := InSemWait\<rparr>"
  let ?s2 = "?s1\<lparr>lt_sem := 1, lt_thread := example_thread, thread_pc := InCallback\<rparr>"
  have "reachable loop_thread_start (loop_thread_run sp) ?s0"
    by (rule reachable_init) (auto simp: loop_thread_start_def)
  moreover have "loop_thread_run sp ?s0 ?s1"
    by (simp only: loop_thread_run_def) (rule disjI1, rule owner_step.create, simp add: new_EventLoopThread_def)
  moreover have "loop_thread_run sp ?s1 ?s2"
    by (simp only: loop_thread_run_def) (rule disjI2, rule thread_step.post [where tid = 7],
      simp_all add: Thread_body_begin_def new_EventLoopThread_def Thread_start_def new_Thread_def example_thread_def)
  moreover have "loop_thread_run sp ?s2 (?s2\<lparr>lt_sem := lt_sem ?s2 - 1, owner_pc := Testing_loop\<rparr>)"
    by (simp only: loop_thread_run_def) (rule disjI1, rule owner_step.sem_taken, simp_all)
  ultimately have "reachable loop_thread_start (loop_thread_run sp) (?s2\<lparr>lt_sem := lt_sem ?s2 - 1, owner_pc := Testing_loop\<rparr>)"
    by (meson reachable_step)
  then show ?thesis by (simp add: lt_at_def new_EventLoopThread_def)
qed

lemma lt_owner: "reachable i (loop_thread_run sp) s \<Longrightarrow> owner_step sp s t \<Longrightarrow> reachable i (loop_thread_run sp) t"
  by (erule reachable_step) (simp only: loop_thread_run_def, blast)

lemma lt_thread: "reachable i (loop_thread_run sp) s \<Longrightarrow> thread_step s t \<Longrightarrow> reachable i (loop_thread_run sp) t"
  by (erule reachable_step) (simp only: loop_thread_run_def, blast)

lemma lt_stored: "reachable loop_thread_start (loop_thread_run sp) (lt_at True False False Testing_loop Notifying)"
  using lt_thread [OF lt_thread [OF lt_begin thread_step.called_back] thread_step.store, of sp] by simp

inductive_cases owner_stuck: "owner_step sp s t"
inductive_cases thread_stuck: "thread_step s t"

lemma lt_waits: "reachable loop_thread_start (loop_thread_run sp) (lt_at True False False Waiting_loop Looping)"
proof -
  have "reachable loop_thread_start (loop_thread_run sp) (lt_at False False False EnteringWait InCallback)"
    using lt_owner [OF lt_begin owner_step.test_null, of sp] by simp
  from lt_thread [OF lt_thread [OF lt_thread [OF this thread_step.called_back] thread_step.store] thread_step.notify]
  have "reachable loop_thread_start (loop_thread_run sp) (lt_at True False False EnteringWait EnteringLoop)" by simp
  from lt_owner [OF lt_thread [OF this thread_step.enter_loop] owner_step.wait_begin]
  show ?thesis by simp
qed

lemma lt_returned: "reachable loop_thread_start (loop_thread_run sp) (lt_at True False False Returned Notifying)"
  using lt_owner [OF lt_stored owner_step.test_set, of sp] by simp

lemma lt_quit_lost: "reachable loop_thread_start (loop_thread_run sp) (lt_at True True False Joining Looping)"
proof -
  have "reachable loop_thread_start (loop_thread_run sp) (lt_at True True True Joining Notifying)"
    using lt_owner [OF lt_returned owner_step.destroy_quit, of sp] by simp
  from lt_thread [OF lt_thread [OF this thread_step.notify] thread_step.enter_loop]
  show ?thesis by simp
qed

text \<open>The loop quits before the destructor: \<open>loop_\<close> is null again, the thread is not joined, and \<open>~Thread\<close> detaches it.\<close>

definition lt_quit_at :: "bool \<Rightarrow> bool \<Rightarrow> owner_at \<Rightarrow> thread_at \<Rightarrow> EventLoopThread" where
  "lt_quit_at l ex ow th = (lt_at l ex True ow th)\<lparr>quit_called := True\<rparr>"

lemma lt_quit_at_simps [simp]:
  "loop_set (lt_quit_at l e w p) = l" "lt_quit (lt_quit_at l e w p)" "quit_called (lt_quit_at l e w p)" "owner_pc (lt_quit_at l e w p) = w"
  "thread_pc (lt_quit_at l e w p) = p" "lt_thread (lt_quit_at l e w p) = example_thread" "(lt_quit_at l e w p)\<lparr>loop_set := l'\<rparr> = lt_quit_at l' e w p"
  "(lt_quit_at l e w p)\<lparr>owner_pc := w'\<rparr> = lt_quit_at l e w' p" "(lt_quit_at l e w p)\<lparr>thread_pc := p'\<rparr> = lt_quit_at l e w p'"
  "(lt_quit_at l e w p)\<lparr>existing := e'\<rparr> = lt_quit_at l e' w p"
  by (simp_all add: lt_quit_at_def lt_at_def)

lemma lt_public: "reachable loop_thread_start (loop_thread_run sp) s \<Longrightarrow> reachable loop_thread_start (loop_thread_public sp) s"
  by (induction rule: reachable.induct) (auto simp: loop_thread_public_def intro: reachable.intros)

lemma lt_public_step:
  "reachable i (loop_thread_public sp) s \<Longrightarrow> owner_step sp s t \<or> thread_step s t \<or> quit_step s t \<Longrightarrow> reachable i (loop_thread_public sp) t"
  by (erule reachable_step) (auto simp: loop_thread_public_def loop_thread_run_def)

lemma lt_destroyed:
  "\<exists>s. reachable loop_thread_start (loop_thread_public sp) s \<and> owner_pc s = Destroyed \<and> quit_called s"
proof -
  let ?R = "reachable loop_thread_start (loop_thread_public sp)"
  note thread = lt_public_step [OF _ disjI2, OF _ disjI1] and owner = lt_public_step [OF _ disjI1]
    and quit = lt_public_step [OF _ disjI2, OF _ disjI2]
  from lt_thread [OF lt_thread [OF lt_returned thread_step.notify] thread_step.enter_loop]
  have "reachable loop_thread_start (loop_thread_run sp) (lt_at True False False Returned Looping)" by simp
  from quit [OF lt_public [OF this] quit_step.quit_loop]
  have "?R (lt_quit_at True False Returned Looping)" by (simp add: lt_quit_at_def)
  from thread [OF thread [OF this thread_step.leave_loop] thread_step.clear_loop]
  have "?R (lt_quit_at False False Returned ThreadEnded)" by simp
  from owner [OF this owner_step.destroy_null]
  have r: "?R (lt_quit_at False True DeletingThread ThreadEnded)" by simp
  have "delete_Thread 1 example_thread = Inr (example_thread\<lparr>th_tid := 1\<rparr>)" by (simp add: delete_Thread_def example_thread_def)
  from owner [OF r owner_step.deleted [where tid = 1 and t = "example_thread\<lparr>th_tid := 1\<rparr>"]] this
  have "?R ((lt_quit_at False True DeletingThread ThreadEnded)\<lparr>lt_thread := example_thread\<lparr>th_tid := 1\<rparr>, owner_pc := Destroyed\<rparr>)" by simp
  then show ?thesis by (intro exI conjI) (assumption, simp_all add: lt_quit_at_def)
qed

text \<open>
  Claim C38. An \<open>EventLoopThread\<close> can be started but not destroyed, unless its loop is told to quit by somebody else. When
  \<open>startloop\<close> has returned and nobody called \<open>quit\<close> on the loop, the loop object exists (its thread may not have entered
  \<open>loop()\<close> yet). And the destructor only ever returns after such a \<open>quit\<close>: without one, in every interleaving, it is joining a
  thread that has a loop, or \<open>~Thread\<close> waits on its semaphore because the thread was joined or never started. With a
  \<open>quit\<close> there is a run in which it returns, with the thread detached.
\<close>
theorem loop_thread_never_destroyed:
  assumes "reachable loop_thread_start (loop_thread_public spurious) s"
  shows "(owner_pc s = Destroyed \<longrightarrow> quit_called s) \<and>
    (owner_pc s = Returned \<and> \<not> quit_called s \<longrightarrow> loop_set s \<and> loop_alive (thread_pc s)) \<and>
    (\<exists>t. reachable loop_thread_start (loop_thread_public spurious) t \<and> owner_pc t = Destroyed \<and> quit_called t)"
proof -
  have "loop_thread_inv s" by (rule loop_thread.reachable_inv [OF assms])
  then show ?thesis using lt_destroyed [of spurious] by (cases "quit_called s") (auto simp: loop_thread_inv_def)
qed

theorem loop_thread_never_destroyed_witness:
  "(\<exists>s. reachable loop_thread_start (loop_thread_public False) s \<and> owner_pc s = Returned \<and> \<not> quit_called s \<and> loop_set s \<and>
      loop_alive (thread_pc s)) \<and>
   (\<exists>t. reachable loop_thread_start (loop_thread_public False) t \<and> owner_pc t = Destroyed)"
proof -
  have "owner_pc (lt_at True False False Returned Notifying) = Returned" "\<not> quit_called (lt_at True False False Returned Notifying)"
    by (simp_all add: lt_at_def)
  then show ?thesis using loop_thread_never_destroyed [OF lt_public [OF lt_returned [of False]]] lt_public [OF lt_returned [of False]] by blast
qed

text \<open>
  Claim C39. Starting a loop thread can hang, and so can stopping one. \<open>startloop\<close> tests \<open>loop_\<close> and then
  waits; the new thread, which holds no mutex, may store the loop and notify in between, and without a spurious
  wakeup nothing ever moves again. A \<open>quit\<close> that comes before the thread has entered \<open>loop()\<close> is
  erased there, and the join waits for ever, spurious wakeups or not.
\<close>
theorem loop_thread_hangs:
  "(\<exists>s. reachable loop_thread_start (loop_thread_run False) s \<and> owner_pc s = Waiting_loop \<and> loop_set s \<and>
      thread_pc s = Looping \<and> (\<forall>t. \<not> loop_thread_run False s t)) \<and>
   (\<exists>s. reachable loop_thread_start (loop_thread_run True) s \<and> owner_pc s = Joining \<and> existing s \<and>
      thread_pc s = Looping \<and> (\<forall>t. \<not> loop_thread_run True s t))"
proof -
  have "\<not> loop_thread_run False (lt_at True False False Waiting_loop Looping) t" for t
    unfolding loop_thread_run_def by (auto elim: owner_stuck thread_stuck)
  moreover have "\<not> loop_thread_run True (lt_at True True False Joining Looping) t" for t
    unfolding loop_thread_run_def by (auto elim: owner_stuck thread_stuck)
  moreover have "existing (lt_at True True False Joining Looping)" by (simp add: lt_at_def)
  ultimately show ?thesis using lt_waits [of False] lt_quit_lost [of True]
    by (intro conjI exI [of _ "lt_at True False False Waiting_loop Looping"]
        exI [of _ "lt_at True True False Joining Looping"]) simp_all
qed
end
