(* ===== verification/ByteBuffer.thy ===== *)
theory ByteBuffer
  imports Prelude
begin

text \<open>
  The byte buffer of \<open>Buffer.h\<close> and \<open>Buffer.cc\<close>. The record holds the vector \<open>buffer_\<close> and the two
  indices; indices and lengths are \<open>size_t\<close>, so every sum and difference wraps as in the code.

  \<open>vector_resize\<close> throws \<open>std::length_error\<close> above the largest \<open>difference_type\<close>. \<open>read_bytes\<close> and
  \<open>copy_bytes\<close> are the reads and writes through \<open>peek()\<close> and \<open>beginWrite()\<close>; outside the vector
  they are \<open>OutOfBounds\<close>.

  The system calls are parameters: \<open>readv lens\<close> is what \<open>readv\<close> gives for buffers of these lengths,
  the negated \<open>errno\<close> or the bytes read, which it scatters over the buffers in order; \<open>write bytes\<close> the
  same for \<open>write\<close>, with the number of bytes written.
\<close>

record Buffer =
  buffer :: "char list"
  readerIndex :: size_t
  writerIndex :: size_t

definition kCheapPrepend :: size_t where "kCheapPrepend = 8"
definition kInitialSize :: size_t where "kInitialSize = 1024"

definition max_size :: nat where "max_size = 2 ^ 63 - 1"

definition vector_resize :: "size_t \<Rightarrow> char list \<Rightarrow> char list result" where
  "vector_resize n v =
     (if unat n \<le> max_size then Inr (take (unat n) v @ replicate (unat n - length v) (CHR 0x00))
      else Inl LengthError)"

definition read_bytes :: "char list \<Rightarrow> size_t \<Rightarrow> size_t \<Rightarrow> string result" where
  "read_bytes v i len =
     (if unat i + unat len \<le> length v then Inr (take (unat len) (drop (unat i) v)) else Inl OutOfBounds)"

definition copy_bytes :: "string \<Rightarrow> size_t \<Rightarrow> char list \<Rightarrow> char list result" where
  "copy_bytes bytes i v =
     (if unat i + length bytes \<le> length v
      then Inr (take (unat i) v @ bytes @ drop (unat i + length bytes) v) else Inl OutOfBounds)"

definition new_Buffer :: "size_t \<Rightarrow> Buffer result" where
  "new_Buffer initialSize =
     rbind (vector_resize (kCheapPrepend + initialSize) [])
       (\<lambda>v. Inr \<lparr>buffer = v, readerIndex = kCheapPrepend, writerIndex = kCheapPrepend\<rparr>)"

definition readableBytes :: "Buffer \<Rightarrow> size_t" where
  "readableBytes b = writerIndex b - readerIndex b"

definition writeableBytes :: "Buffer \<Rightarrow> size_t" where
  "writeableBytes b = of_nat (length (buffer b)) - writerIndex b"

definition prependableBytes :: "Buffer \<Rightarrow> size_t" where
  "prependableBytes b = readerIndex b"

definition retrieveAll :: "Buffer \<Rightarrow> Buffer" where
  "retrieveAll b = b\<lparr>readerIndex := kCheapPrepend, writerIndex := kCheapPrepend\<rparr>"

definition retrieve :: "size_t \<Rightarrow> Buffer \<Rightarrow> Buffer" where
  "retrieve len b =
     (if len < readableBytes b then b\<lparr>readerIndex := readerIndex b + len\<rparr> else retrieveAll b)"

definition retrieveAsString :: "size_t \<Rightarrow> Buffer \<Rightarrow> (string \<times> Buffer) result" where
  "retrieveAsString len b =
     rbind (read_bytes (buffer b) (readerIndex b) len) (\<lambda>result. Inr (result, retrieve len b))"

definition retrieveAllAsString :: "Buffer \<Rightarrow> (string \<times> Buffer) result" where
  "retrieveAllAsString b = retrieveAsString (readableBytes b) b"

definition makeSpace :: "size_t \<Rightarrow> Buffer \<Rightarrow> Buffer result" where
  "makeSpace len b =
     (if writeableBytes b + prependableBytes b < len + kCheapPrepend
      then rbind (vector_resize (writerIndex b + len) (buffer b)) (\<lambda>v. Inr (b\<lparr>buffer := v\<rparr>))
      else
        let readable = readableBytes b
        in rbind (read_bytes (buffer b) (readerIndex b) readable) (\<lambda>bytes.
           rbind (copy_bytes bytes kCheapPrepend (buffer b)) (\<lambda>v.
           Inr (b\<lparr>buffer := v, readerIndex := kCheapPrepend,
                  writerIndex := kCheapPrepend + readable\<rparr>))))"

definition ensureWriteableBytes :: "size_t \<Rightarrow> Buffer \<Rightarrow> Buffer result" where
  "ensureWriteableBytes len b = (if writeableBytes b < len then makeSpace len b else Inr b)"

definition Buffer_append :: "string \<Rightarrow> Buffer \<Rightarrow> Buffer result" where
  "Buffer_append data b =
     (let len = of_nat (length data)
      in rbind (ensureWriteableBytes len b) (\<lambda>b.
         rbind (copy_bytes data (writerIndex b) (buffer b)) (\<lambda>v.
         Inr (b\<lparr>buffer := v, writerIndex := writerIndex b + len\<rparr>))))"

definition extrabuf_size :: nat where "extrabuf_size = 65536"

definition iov_lens :: "Buffer \<Rightarrow> nat list" where
  "iov_lens b =
     (let writable = writeableBytes b
      in if writable < of_nat extrabuf_size then [unat writable, extrabuf_size] else [unat writable])"

definition readFd :: "(nat list \<Rightarrow> int + string) \<Rightarrow> Buffer \<Rightarrow> ((int + nat) \<times> Buffer) result" where
  "readFd readv b =
     (let writable = writeableBytes b
      in case readv (iov_lens b) of
           Inl saveErrno \<Rightarrow> Inr (Inl saveErrno, b)
         | Inr bytes \<Rightarrow>
             let n = length bytes
             in rbind (copy_bytes (take (unat writable) bytes) (writerIndex b) (buffer b)) (\<lambda>v.
                let b = b\<lparr>buffer := v\<rparr>
                in if n \<le> unat writable
                   then Inr (Inr n, b\<lparr>writerIndex := writerIndex b + of_nat n\<rparr>)
                   else
                     rbind (Buffer_append (drop (unat writable) bytes)
                              (b\<lparr>writerIndex := of_nat (length (buffer b))\<rparr>))
                       (\<lambda>b. Inr (Inr n, b))))"

definition writeFd :: "(string \<Rightarrow> int + nat) \<Rightarrow> Buffer \<Rightarrow> (int + nat) result" where
  "writeFd write b =
     rbind (read_bytes (buffer b) (readerIndex b) (readableBytes b)) (\<lambda>bytes. Inr (write bytes))"

subsection \<open>What a buffer holds\<close>

definition buffer_ok :: "Buffer \<Rightarrow> bool" where
  "buffer_ok b \<longleftrightarrow> 8 \<le> unat (readerIndex b) \<and> unat (readerIndex b) \<le> unat (writerIndex b) \<and>
     unat (writerIndex b) \<le> length (buffer b) \<and> length (buffer b) \<le> max_size"

definition contents :: "Buffer \<Rightarrow> string" where
  "contents b = take (unat (writerIndex b) - unat (readerIndex b)) (drop (unat (readerIndex b)) (buffer b))"

lemma unat_sub_le: "unat j \<le> unat i \<Longrightarrow> unat (i - j :: u64) = unat i - unat j"
  by (simp add: unat_sub word_le_nat_alt)

lemma unat_add_small: "unat i + unat j < 2 ^ 64 \<Longrightarrow> unat (i + j :: u64) = unat i + unat j"
  by (simp add: unat_word_ariths)

lemma kCheapPrepend_unat [simp]: "unat kCheapPrepend = 8"
  by (simp add: kCheapPrepend_def)

lemma buffer_okD:
  assumes "buffer_ok b"
  shows "unat (readableBytes b) = unat (writerIndex b) - unat (readerIndex b)"
    "unat (writeableBytes b) = length (buffer b) - unat (writerIndex b)"
    "length (contents b) = unat (readableBytes b)"
    "unat (of_nat (length (buffer b)) :: u64) = length (buffer b)"
proof -
  show len: "unat (of_nat (length (buffer b)) :: u64) = length (buffer b)"
    using assms by (intro unat_of_nat_u64) (simp add: buffer_ok_def max_size_def)
  show r: "unat (readableBytes b) = unat (writerIndex b) - unat (readerIndex b)"
    using assms by (simp add: readableBytes_def unat_sub_le buffer_ok_def)
  show "unat (writeableBytes b) = length (buffer b) - unat (writerIndex b)"
    using assms len by (simp add: writeableBytes_def unat_sub_le buffer_ok_def)
  show "length (contents b) = unat (readableBytes b)"
    using assms r by (auto simp: contents_def buffer_ok_def min_def)
qed

lemma contents_eqI:
  "buffer_ok b \<Longrightarrow> buffer b = xs @ ys @ zs \<Longrightarrow> length xs = unat (readerIndex b) \<Longrightarrow>
   length ys = unat (writerIndex b) - unat (readerIndex b) \<Longrightarrow> contents b = ys"
  by (simp add: contents_def)

lemma buffer_split:
  assumes "buffer_ok b"
  obtains xs zs where "buffer b = xs @ contents b @ zs" "length xs = unat (readerIndex b)"
    "length zs = length (buffer b) - unat (writerIndex b)"
proof
  let ?r = "unat (readerIndex b)" and ?w = "unat (writerIndex b)"
  have "drop ?r (buffer b) = contents b @ drop (?w - ?r) (drop ?r (buffer b))"
    by (simp only: contents_def append_take_drop_id)
  moreover have "drop (?w - ?r) (drop ?r (buffer b)) = drop ?w (buffer b)"
    using assms by (simp add: buffer_ok_def)
  ultimately show "buffer b = take ?r (buffer b) @ contents b @ drop ?w (buffer b)"
    by (metis append_take_drop_id)
  show "length (take ?r (buffer b)) = ?r" "length (drop ?w (buffer b)) = length (buffer b) - ?w"
    using assms by (auto simp: buffer_ok_def)
qed

definition max_append :: nat where "max_append = max_size - 8"

lemma makeSpace_ok:
  assumes ok: "buffer_ok b" and n: "length (buffer b) - unat (writerIndex b) < n"
    and room: "length (buffer b) + n \<le> max_append"
  shows "\<exists>b'. makeSpace (of_nat n) b = Inr b' \<and> buffer_ok b' \<and> contents b' = contents b \<and>
    unat (writerIndex b') + n \<le> length (buffer b') \<and> length (buffer b') \<le> length (buffer b) + n"
proof -
  let ?r = "unat (readerIndex b)" and ?w = "unat (writerIndex b)" and ?L = "length (buffer b)"
  have B: "8 \<le> ?r" "?r \<le> ?w" "?w \<le> ?L" "?L \<le> max_size" using ok by (auto simp: buffer_ok_def)
  have nn: "unat (of_nat n :: u64) = n" using room by (intro unat_of_nat_u64) (simp add: max_append_def max_size_def)
  have sum: "unat (writeableBytes b + prependableBytes b) = ?L - ?w + ?r"
    using B buffer_okD(2) [OF ok] by (subst unat_add_small) (auto simp: prependableBytes_def max_size_def)
  have need: "unat (of_nat n + kCheapPrepend) = n + 8"
    using room nn by (subst unat_add_small) (auto simp: max_append_def max_size_def)
  show ?thesis
  proof (cases "?L - ?w + ?r < n + 8")
    case True
    let ?m = "writerIndex b + of_nat n"
    have m: "unat ?m = ?w + n" using room nn B by (subst unat_add_small) (auto simp: max_append_def max_size_def)
    let ?b = "b\<lparr>buffer := buffer b @ replicate (?w + n - ?L) (CHR 0x00)\<rparr>"
    have "makeSpace (of_nat n) b = Inr ?b"
      using True sum need m room n B
      by (simp add: makeSpace_def word_less_nat_alt vector_resize_def max_append_def)
    moreover have "buffer_ok ?b" using B room n by (auto simp: buffer_ok_def max_append_def)
    moreover have "contents ?b = contents b" using B by (simp add: contents_def)
    ultimately show ?thesis using B n by auto
  next
    case False
    let ?c = "contents b"
    have lc: "length ?c = ?w - ?r" using buffer_okD(1,3) [OF ok] by simp
    have rd: "unat (readableBytes b) = ?w - ?r" by (rule buffer_okD(1) [OF ok])
    have w': "unat (kCheapPrepend + readableBytes b) = 8 + (?w - ?r)"
      using B rd by (subst unat_add_small) (auto simp: max_size_def)
    let ?v = "take 8 (buffer b) @ ?c @ drop (8 + length ?c) (buffer b)"
    let ?b = "b\<lparr>buffer := ?v, readerIndex := kCheapPrepend, writerIndex := kCheapPrepend + readableBytes b\<rparr>"
    have rb: "read_bytes (buffer b) (readerIndex b) (readableBytes b) = Inr ?c"
      using B rd by (simp add: read_bytes_def contents_def)
    have cb: "copy_bytes ?c kCheapPrepend (buffer b) = Inr ?v"
      using B lc by (simp add: copy_bytes_def)
    have "makeSpace (of_nat n) b = Inr ?b"
      using False sum need rb cb by (simp add: makeSpace_def word_less_nat_alt)
    moreover have len: "length ?v = ?L" using B lc by simp
    moreover have okb: "buffer_ok ?b" using B len w' by (simp add: buffer_ok_def) linarith
    moreover have "contents ?b = ?c"
      by (rule contents_eqI [OF okb, of "take 8 (buffer b)"]) (use B lc w' in auto)
    ultimately show ?thesis using B False w' n by auto
  qed
qed

lemma ensureWriteableBytes_ok:
  assumes ok: "buffer_ok b" and room: "length (buffer b) + n \<le> max_append"
  shows "\<exists>b'. ensureWriteableBytes (of_nat n) b = Inr b' \<and> buffer_ok b' \<and> contents b' = contents b \<and>
    unat (writerIndex b') + n \<le> length (buffer b') \<and> length (buffer b') \<le> length (buffer b) + n"
proof -
  have nn: "unat (of_nat n :: u64) = n" using room by (intro unat_of_nat_u64) (simp add: max_append_def max_size_def)
  have lt: "writeableBytes b < of_nat n \<longleftrightarrow> length (buffer b) - unat (writerIndex b) < n"
    using buffer_okD(2) [OF ok] nn by (simp add: word_less_nat_alt)
  show ?thesis
  proof (cases "length (buffer b) - unat (writerIndex b) < n")
    case True
    then show ?thesis using makeSpace_ok [OF ok True room] lt by (simp add: ensureWriteableBytes_def)
  next
    case False
    then show ?thesis using lt ok by (auto simp: ensureWriteableBytes_def buffer_ok_def)
  qed
qed

lemma copy_append:
  assumes ok: "buffer_ok b" and fit: "unat (writerIndex b) + length data \<le> length (buffer b)"
  shows "\<exists>v. copy_bytes data (writerIndex b) (buffer b) = Inr v \<and> length v = length (buffer b) \<and>
    (let b' = b\<lparr>buffer := v, writerIndex := writerIndex b + of_nat (length data)\<rparr>
     in buffer_ok b' \<and> contents b' = contents b @ data \<and>
        unat (writerIndex b') = unat (writerIndex b) + length data)"
proof -
  let ?v = "take (unat (writerIndex b)) (buffer b) @ data @ drop (unat (writerIndex b) + length data) (buffer b)"
  let ?b = "b\<lparr>buffer := ?v, writerIndex := writerIndex b + of_nat (length data)\<rparr>"
  have nn: "unat (of_nat (length data) :: u64) = length data"
    using fit ok by (intro unat_of_nat_u64) (simp add: max_size_def buffer_ok_def)
  have w: "unat (writerIndex b + of_nat (length data)) = unat (writerIndex b) + length data"
    using fit ok nn by (subst unat_add_small) (auto simp: max_size_def buffer_ok_def)
  have c: "copy_bytes data (writerIndex b) (buffer b) = Inr ?v" using fit by (simp add: copy_bytes_def)
  have len: "length ?v = length (buffer b)" using fit by simp
  have okb: "buffer_ok ?b" using ok fit len w by (auto simp: buffer_ok_def)
  obtain xs zs where s: "buffer b = xs @ contents b @ zs" "length xs = unat (readerIndex b)"
    by (rule buffer_split [OF ok])
  have lc: "length (contents b) = unat (writerIndex b) - unat (readerIndex b)"
    using buffer_okD(1,3) [OF ok] by simp
  then have lw: "length (xs @ contents b) = unat (writerIndex b)" using s ok by (simp add: buffer_ok_def)
  have "take (unat (writerIndex b)) (buffer b) = xs @ contents b"
    using lw by (subst s(1)) (metis append_assoc append_eq_conv_conj)
  then have "contents ?b = contents b @ data"
    using s lc w ok by (intro contents_eqI [OF okb, of xs]) (auto simp: buffer_ok_def)
  then show ?thesis using c len okb w by (auto simp: Let_def)
qed

lemma Buffer_append_ok:
  assumes ok: "buffer_ok b" and room: "length (buffer b) + length data \<le> max_append"
  shows "\<exists>b'. Buffer_append data b = Inr b' \<and> buffer_ok b' \<and> contents b' = contents b @ data \<and>
    length (buffer b') \<le> length (buffer b) + length data"
proof -
  obtain b1 where b1: "ensureWriteableBytes (of_nat (length data)) b = Inr b1" "buffer_ok b1"
    "contents b1 = contents b" "unat (writerIndex b1) + length data \<le> length (buffer b1)"
    "length (buffer b1) \<le> length (buffer b) + length data"
    using ensureWriteableBytes_ok [OF ok room] by blast
  show ?thesis using copy_append [OF b1(2,4)] b1 by (auto simp: Buffer_append_def Let_def)
qed

lemma retrieve_ok:
  assumes ok: "buffer_ok b"
  shows "buffer_ok (retrieve len b) \<and> contents (retrieve len b) = drop (unat len) (contents b) \<and>
    buffer (retrieve len b) = buffer b"
proof (cases "len < readableBytes b")
  case True
  have lt: "unat len < unat (writerIndex b) - unat (readerIndex b)"
    using True buffer_okD(1) [OF ok] by (simp add: word_less_nat_alt)
  have r: "unat (readerIndex b + len) = unat (readerIndex b) + unat len"
    using lt ok by (subst unat_add_small) (auto simp: buffer_ok_def max_size_def)
  have "drop (unat len) (contents b) = take (unat (writerIndex b) - (unat (readerIndex b) + unat len))
      (drop (unat (readerIndex b) + unat len) (buffer b))"
    by (simp add: contents_def drop_take add.commute)
  then show ?thesis using True lt r ok by (auto simp: retrieve_def buffer_ok_def contents_def)
next
  case False
  then have "length (contents b) \<le> unat len"
    using buffer_okD(3) [OF ok] by (simp add: word_less_nat_alt)
  then show ?thesis using False ok by (auto simp: retrieve_def retrieveAll_def buffer_ok_def contents_def)
qed

lemma retrieveAsString_ok:
  assumes ok: "buffer_ok b" and len: "unat len \<le> length (contents b)"
  shows "retrieveAsString len b = Inr (take (unat len) (contents b), retrieve len b)"
proof -
  have "length (contents b) = unat (writerIndex b) - unat (readerIndex b)"
    using buffer_okD(1,3) [OF ok] by simp
  then have "unat (readerIndex b) + unat len \<le> length (buffer b)"
    "min (unat len) (unat (writerIndex b) - unat (readerIndex b)) = unat len"
    using len ok by (auto simp: buffer_ok_def)
  then show ?thesis by (simp add: retrieveAsString_def read_bytes_def contents_def)
qed

lemma contents_bytes:
  "buffer_ok b \<Longrightarrow> read_bytes (buffer b) (readerIndex b) (readableBytes b) = Inr (contents b)"
  by (auto simp: read_bytes_def contents_def buffer_okD buffer_ok_def)

interpretation buffer_queue: byte_queue Buffer_append retrieve contents buffer_ok
  "\<lambda>b. length (buffer b)" max_append
  by unfold_locales (use Buffer_append_ok retrieve_ok in auto)

lemma readFd_ok:
  assumes ok: "buffer_ok b" and rd: "readv (iov_lens b) = Inr bytes"
    and contract: "length bytes \<le> sum_list (iov_lens b)"
    and room: "length (buffer b) + extrabuf_size \<le> max_append"
  shows "\<exists>b'. readFd readv b = Inr (Inr (length bytes), b') \<and> buffer_ok b' \<and>
    contents b' = contents b @ bytes \<and> length (buffer b') \<le> length (buffer b) + extrabuf_size"
proof -
  let ?W = "length (buffer b) - unat (writerIndex b)"
  have W: "unat (writeableBytes b) = ?W" by (rule buffer_okD(2) [OF ok])
  let ?head = "take ?W bytes"
  have fit: "unat (writerIndex b) + length ?head \<le> length (buffer b)" using ok by (auto simp: buffer_ok_def)
  obtain v where v: "copy_bytes ?head (writerIndex b) (buffer b) = Inr v" "length v = length (buffer b)"
    "buffer_ok (b\<lparr>buffer := v, writerIndex := writerIndex b + of_nat (length ?head)\<rparr>)"
    "contents (b\<lparr>buffer := v, writerIndex := writerIndex b + of_nat (length ?head)\<rparr>) = contents b @ ?head"
    "unat (writerIndex b + of_nat (length ?head)) = unat (writerIndex b) + length ?head"
    using copy_append [OF ok fit] by (auto simp: Let_def)
  show ?thesis
  proof (cases "length bytes \<le> ?W")
    case True
    then show ?thesis using rd v W by (simp add: readFd_def Let_def)
  next
    case False
    let ?b = "b\<lparr>buffer := v, writerIndex := of_nat (length v)\<rparr>"
    have full: "unat (writerIndex b + of_nat (length ?head)) = length v"
      using v(2,5) False ok by (simp add: buffer_ok_def)
    have "unat (of_nat (length v) :: u64) = length v"
      using v(2) buffer_okD(4) [OF ok] by simp
    with full have "writerIndex b + of_nat (length ?head) = of_nat (length v)"
      by (simp add: word_unat_eq_iff)
    then have okb: "buffer_ok ?b" "contents ?b = contents b @ ?head" using v(3,4) by simp_all
    have "length bytes \<le> ?W + extrabuf_size"
      using contract W by (auto simp: iov_lens_def Let_def split: if_splits)
    then have rest: "length (drop ?W bytes) \<le> extrabuf_size" by simp
    obtain b' where b': "Buffer_append (drop ?W bytes) ?b = Inr b'" "buffer_ok b'"
      "contents b' = contents ?b @ drop ?W bytes" "length (buffer b') \<le> length (buffer ?b) + length (drop ?W bytes)"
      using buffer_queue.put_ok [OF okb(1), of "drop ?W bytes"] v(2) room rest by auto
    have "contents b' = contents b @ bytes" unfolding b'(3) okb(2) append_assoc append_take_drop_id ..
    then show ?thesis using rd v W False b' rest by (simp add: readFd_def Let_def)
  qed
qed

lemma writeFd_ok: "buffer_ok b \<Longrightarrow> writeFd write b = Inr (write (contents b))"
  by (simp add: writeFd_def contents_bytes)

lemma new_Buffer_ok:
  "8 + unat n \<le> max_size \<Longrightarrow> \<exists>b. new_Buffer n = Inr b \<and> buffer_ok b \<and> contents b = [] \<and>
     length (buffer b) = 8 + unat n"
proof -
  assume n: "8 + unat n \<le> max_size"
  then have "unat (kCheapPrepend + n) = 8 + unat n" by (subst unat_add_small) (auto simp: max_size_def)
  then show ?thesis using n by (simp add: new_Buffer_def vector_resize_def buffer_ok_def contents_def)
qed

subsection \<open>A buffer is a byte string\<close>

datatype buffer_event =
    Append string
  | Retrieve size_t
  | RetrieveAll
  | RetrieveAllAsString

fun buffer_step :: "buffer_event \<Rightarrow> Buffer \<times> string list \<Rightarrow> (Buffer \<times> string list) result" where
  "buffer_step (Append data) (b, outs) = rbind (Buffer_append data b) (\<lambda>b. Inr (b, outs))"
| "buffer_step (Retrieve n) (b, outs) = Inr (retrieve n b, outs)"
| "buffer_step RetrieveAll (b, outs) = Inr (retrieveAll b, outs)"
| "buffer_step RetrieveAllAsString (b, outs) =
     rbind (retrieveAllAsString b) (\<lambda>(result, b). Inr (b, outs @ [result]))"

fun bytes_step :: "buffer_event \<Rightarrow> string \<times> string list \<Rightarrow> string \<times> string list" where
  "bytes_step (Append data) (s, outs) = (s @ data, outs)"
| "bytes_step (Retrieve n) (s, outs) = (drop (unat n) s, outs)"
| "bytes_step RetrieveAll (s, outs) = ([], outs)"
| "bytes_step RetrieveAllAsString (s, outs) = ([], outs @ [s])"

fun append_cost :: "buffer_event \<Rightarrow> nat" where
  "append_cost (Append data) = length data"
| "append_cost _ = 0"

lemma retrieveAll_ok: "buffer_ok b \<Longrightarrow> buffer_ok (retrieveAll b) \<and> contents (retrieveAll b) = []"
  by (auto simp: retrieveAll_def buffer_ok_def contents_def)

lemma retrieveAllAsString_ok:
  assumes ok: "buffer_ok b"
  shows "retrieveAllAsString b = Inr (contents b, retrieveAll b)"
proof -
  have "retrieve (readableBytes b) b = retrieveAll b" by (simp add: retrieve_def)
  then show ?thesis
    using retrieveAsString_ok [OF ok, of "readableBytes b"] buffer_okD(3) [OF ok]
    by (simp add: retrieveAllAsString_def)
qed

interpretation buffer: refinement buffer_step bytes_step "\<lambda>(b, outs). (contents b, outs)"
  "\<lambda>(b, outs). buffer_ok b" "\<lambda>e. True" "\<lambda>(b, outs). length (buffer b)" append_cost max_append
proof
  fix c e
  assume "(\<lambda>(b, outs :: string list). buffer_ok b) c"
    "(\<lambda>(b, outs :: string list). length (buffer b)) c + append_cost e \<le> max_append"
  moreover obtain b outs where "c = (b, outs)" by (cases c)
  ultimately show "\<exists>c'. buffer_step e c = Inr c' \<and> (\<lambda>(b, outs). buffer_ok b) c' \<and>
      (\<lambda>(b, outs). (contents b, outs)) c' = bytes_step e ((\<lambda>(b, outs). (contents b, outs)) c) \<and>
      (\<lambda>(b, outs). length (buffer b)) c' \<le> (\<lambda>(b, outs). length (buffer b)) c + append_cost e"
    using buffer_queue.put_ok [of b] retrieve_ok [of b] retrieveAll_ok [of b] retrieveAllAsString_ok [of b]
    by (cases e) (fastforce simp: retrieveAll_def)+
qed

text \<open>
  Claim C28. A buffer is a byte string. Start with a well-formed buffer and run any sequence of appends
  and retrievals whose appended bytes fit below the size limit of a vector. No operation throws or
  leaves the vector, and the readable bytes and every string handed out are those of a plain string
  with the same operations, however often the buffer has been shifted or has grown.
\<close>
theorem buffer_is_a_byte_string:
  assumes "buffer_ok b" "length (buffer b) + sum_list (map append_cost es) \<le> max_append"
  shows "\<exists>b' outs. run_steps buffer_step es (b, []) = Inr (b', outs) \<and> buffer_ok b' \<and>
    fold bytes_step es (contents b, []) = (contents b', outs)"
  using buffer.run_refines [of "(b, [])" es] assms by (auto simp: list_all_iff)

definition small_buffer :: Buffer where
  "small_buffer = \<lparr>buffer = replicate 16 CHR ''.'', readerIndex = 8, writerIndex = 8\<rparr>"

theorem buffer_is_a_byte_string_witness:
  "\<exists>b'. run_steps buffer_step [Append ''abcdefgh'', Retrieve 3, Append ''ijkl'', RetrieveAllAsString]
      (small_buffer, []) = Inr (b', [''defghijkl''])"
proof -
  have "buffer_ok small_buffer" by (simp add: buffer_ok_def small_buffer_def max_size_def)
  moreover have "length (buffer small_buffer) + sum_list (map append_cost
      [Append ''abcdefgh'', Retrieve 3, Append ''ijkl'', RetrieveAllAsString]) \<le> max_append"
    by (simp add: small_buffer_def max_append_def max_size_def)
  ultimately show ?thesis
    using buffer_is_a_byte_string [of small_buffer
        "[Append ''abcdefgh'', Retrieve 3, Append ''ijkl'', RetrieveAllAsString]"]
    by (auto simp: contents_def small_buffer_def)
qed

text \<open>
  Claim C29. \<open>readFd\<close> appends exactly the bytes the kernel delivers, in order, also when they spill over
  into the stack buffer, provided \<open>readv\<close> delivers no more than it was given room for.
\<close>
theorem readFd_appends:
  assumes "buffer_ok b" "length (buffer b) + extrabuf_size \<le> max_append"
    and "\<And>lens bs. readv lens = Inr bs \<Longrightarrow> length bs \<le> sum_list lens"
    and "readv (iov_lens b) = Inr bytes"
  shows "\<exists>b'. readFd readv b = Inr (Inr (length bytes), b') \<and> buffer_ok b' \<and> contents b' = contents b @ bytes"
  using readFd_ok [of b readv bytes] assms(1,2,4) assms(3) [OF assms(4)] by blast

theorem readFd_appends_witness:
  "\<exists>b'. readFd (\<lambda>lens. Inr (take (sum_list lens) ''twelve bytes'')) small_buffer = Inr (Inr 12, b') \<and>
     contents b' = ''twelve bytes''"
proof -
  have W: "iov_lens small_buffer = [8, extrabuf_size]"
    by (simp add: iov_lens_def small_buffer_def writeableBytes_def extrabuf_size_def)
  have ok: "buffer_ok small_buffer" "length (buffer small_buffer) + extrabuf_size \<le> max_append"
    by (simp_all add: buffer_ok_def small_buffer_def max_size_def max_append_def extrabuf_size_def)
  have c: "length bs \<le> sum_list lens" if "Inr (take (sum_list lens) ''twelve bytes'') = (Inr bs :: int + string)"
    for lens bs using that by auto
  have r: "(Inr (take (sum_list (iov_lens small_buffer)) ''twelve bytes'') :: int + string) = Inr ''twelve bytes''"
    by (simp add: W extrabuf_size_def)
  have "contents small_buffer = []" by (simp add: contents_def small_buffer_def)
  then show ?thesis
    using readFd_appends [OF ok, of "\<lambda>lens. Inr (take (sum_list lens) ''twelve bytes'')", OF c r] by (auto simp: numeral_eq_Suc)
qed

end
