(* ===== verification/TcpConnection.thy ===== *)
theory TcpConnection
  imports EventPoller ByteBuffer
begin

text \<open>
  One connection: class \<open>TcpConnection\<close> of \<open>TcpConnection.h\<close> and \<open>TcpConnection.cc\<close>, run on its loop's
  thread, with its channel in the poller of \<open>EventPoller\<close> and its buffers of \<open>ByteBuffer\<close>.

  \<open>callbacks\<close> lists the calls of user callbacks made at once, \<open>tasks\<close> the functors given to the loop, both
  in order. A user callback is the last thing its handler does, or finds the connection
  disconnected, so what it does to the connection is the next step rather than a part of this one.
  \<open>write\<close>, \<open>readv\<close> are the system calls as in \<open>ByteBuffer\<close>; an operation that writes returns the bytes
  that went to the socket. \<open>write_shut\<close> says that \<open>ShutdownWrite\<close> was called.

  \<open>send\<close> from another thread queues a task with the bytes; the code passes the raw pointer of the
  caller's string, so this is what it does as long as that string lives.
\<close>

definition EWOULDBLOCK :: int where "EWOULDBLOCK = 11"
definition EPIPE :: int where "EPIPE = 32"
definition ECONNRESET :: int where "ECONNRESET = 104"

datatype StateE = kDisconnected | kConnecting | kConnected | kDisconnecting

datatype conn_callback = ConnectionCb bool | MessageCb string | CloseCb

datatype conn_task = SendTask string | ShutdownTask | WriteCompleteTask | HighWaterMarkTask size_t

record 'k TcpConnection =
  tc_name :: string
  tc_state :: StateE
  tc_channel :: nat
  tc_poller :: "'k EPollPoller"
  has_writeComplete :: bool
  has_highWaterMark :: bool
  highWaterMark :: size_t
  inputBuffer :: Buffer
  outputBuffer :: Buffer
  write_shut :: bool
  callbacks :: "conn_callback list"
  tasks :: "conn_task list"

definition the_channel :: "'k TcpConnection \<Rightarrow> Channel" where
  "the_channel c = chans (tc_poller c) (tc_channel c)"

definition with_channel :: "(Channel \<Rightarrow> Channel) \<Rightarrow> 'k TcpConnection \<Rightarrow> 'k TcpConnection" where
  "with_channel f c = c\<lparr>tc_poller := (tc_poller c)\<lparr>chans :=
     (chans (tc_poller c))(tc_channel c := f (the_channel c))\<rparr>\<rparr>"

definition channel_do :: "'k epoll_ctl \<Rightarrow> channel_change \<Rightarrow> 'k TcpConnection \<Rightarrow> 'k TcpConnection result" where
  "channel_do ctl ch c = rbind (change_channel ctl ch (tc_channel c) (tc_poller c)) (\<lambda>p. Inr (c\<lparr>tc_poller := p\<rparr>))"

definition call_back :: "conn_callback \<Rightarrow> 'k TcpConnection \<Rightarrow> 'k TcpConnection" where
  "call_back x c = c\<lparr>callbacks := callbacks c @ [x]\<rparr>"

definition queue_task :: "conn_task \<Rightarrow> 'k TcpConnection \<Rightarrow> 'k TcpConnection" where
  "queue_task t c = c\<lparr>tasks := tasks c @ [t]\<rparr>"

text \<open>A null loop ends the process (\<open>CheckLoopNotNull\<close>); the buffers start with 1024 writable bytes.\<close>

definition new_TcpConnection :: "bool \<Rightarrow> string \<Rightarrow> int \<Rightarrow> nat \<Rightarrow> 'k EPollPoller \<Rightarrow> 'k TcpConnection result" where
  "new_TcpConnection loop_is_null name sockfd ptr poller =
     (if loop_is_null then Inl Exits
      else
        rbind (new_Buffer kInitialSize) (\<lambda>inb. rbind (new_Buffer kInitialSize) (\<lambda>outb.
        let ch = SetReadEventCallback (new_Channel sockfd);
            ch = SetWriteEventCallback ch;
            ch = SetCloseEventCallback ch;
            ch = SetErrorEventCallback ch
        in Inr \<lparr>tc_name = name, tc_state = kConnecting, tc_channel = ptr,
             tc_poller = poller\<lparr>chans := (chans poller)(ptr := ch)\<rparr>,
             has_writeComplete = False, has_highWaterMark = False, highWaterMark = 64 * 1024 * 1024,
             inputBuffer = inb, outputBuffer = outb, write_shut = False, callbacks = [], tasks = []\<rparr>)))"

definition connected :: "'k TcpConnection \<Rightarrow> bool" where
  "connected c \<longleftrightarrow> tc_state c = kConnected"

definition call_connectionCallback :: "'k TcpConnection \<Rightarrow> 'k TcpConnection" where
  "call_connectionCallback c = call_back (ConnectionCb (connected c)) c"

definition shutdownInLoop :: "'k TcpConnection \<Rightarrow> 'k TcpConnection" where
  "shutdownInLoop c = (if \<not> IsWriting (the_channel c) then c\<lparr>write_shut := True\<rparr> else c)"

definition tc_shutdown :: "bool \<Rightarrow> 'k TcpConnection \<Rightarrow> 'k TcpConnection" where
  "tc_shutdown inLoopThread c =
     (if tc_state c = kConnected
      then let c = c\<lparr>tc_state := kDisconnecting\<rparr>
           in if inLoopThread then shutdownInLoop c else queue_task ShutdownTask c
      else c)"

definition writeComplete :: "'k TcpConnection \<Rightarrow> 'k TcpConnection" where
  "writeComplete c = (if has_writeComplete c then queue_task WriteCompleteTask c else c)"

text \<open>The first write of \<open>sendInLoop\<close>: what was written, what remains, and whether the peer is gone.\<close>

definition send_first :: "(string \<Rightarrow> int + nat) \<Rightarrow> string \<Rightarrow> 'k TcpConnection \<Rightarrow>
    nat \<times> size_t \<times> bool \<times> 'k TcpConnection" where
  "send_first write data c =
     (let len = of_nat (length data)
      in if \<not> IsWriting (the_channel c) \<and> readableBytes (outputBuffer c) = 0
         then case write data of
             Inr nwrote \<Rightarrow>
               let remaining = len - of_nat nwrote
               in (nwrote, remaining, False, if remaining = 0 then writeComplete c else c)
           | Inl err \<Rightarrow> (0, len, err \<noteq> EWOULDBLOCK \<and> (err = EPIPE \<or> err = ECONNRESET), c)
         else (0, len, False, c))"

text \<open>Keeping the rest: the high-water mark, the append, and the interest in writing.\<close>

definition keep_rest :: "'k epoll_ctl \<Rightarrow> string \<Rightarrow> 'k TcpConnection \<Rightarrow> 'k TcpConnection result" where
  "keep_rest ctl rest c =
     (let oldLen = readableBytes (outputBuffer c);
          remaining = of_nat (length rest);
          c = (if highWaterMark c \<le> oldLen + remaining \<and> oldLen < highWaterMark c \<and> has_highWaterMark c
               then queue_task (HighWaterMarkTask (oldLen + remaining)) c else c)
      in rbind (Buffer_append rest (outputBuffer c)) (\<lambda>b.
         let c = c\<lparr>outputBuffer := b\<rparr>
         in if \<not> IsWriting (the_channel c) then channel_do ctl EnableWrite c else Inr c))"

definition sendInLoop :: "'k epoll_ctl \<Rightarrow> (string \<Rightarrow> int + nat) \<Rightarrow> string \<Rightarrow> 'k TcpConnection \<Rightarrow>
    (string \<times> 'k TcpConnection) result" where
  "sendInLoop ctl write data c =
     (if tc_state c = kDisconnected then Inr ([], c)
      else
        let (nwrote, remaining, faultError, c) = send_first write data c
        in if \<not> faultError \<and> 0 < remaining
           then rbind (keep_rest ctl (take (unat remaining) (drop nwrote data)) c)
                  (\<lambda>c. Inr (take nwrote data, c))
           else Inr (take nwrote data, c))"

text \<open>
  In another thread \<open>send\<close> queues a functor with the pointer \<open>buf.c_str()\<close>, not the bytes: \<open>SendTask\<close> records what was
  asked for, and what \<open>sendInLoop\<close> then gets is whatever the pointer shows.
\<close>

definition send :: "'k epoll_ctl \<Rightarrow> (string \<Rightarrow> int + nat) \<Rightarrow> bool \<Rightarrow> string \<Rightarrow> 'k TcpConnection \<Rightarrow>
    (string \<times> 'k TcpConnection) result" where
  "send ctl write inLoopThread buf c =
     (if tc_state c = kConnected
      then if inLoopThread then sendInLoop ctl write buf c else Inr ([], queue_task (SendTask buf) c)
      else Inr ([], c))"

definition connectEstablished :: "'k epoll_ctl \<Rightarrow> 'k TcpConnection \<Rightarrow> 'k TcpConnection result" where
  "connectEstablished ctl c =
     (let c = c\<lparr>tc_state := kConnected\<rparr>;
          c = with_channel tie c
      in rbind (channel_do ctl EnableRead c) (\<lambda>c. Inr (call_connectionCallback c)))"

text \<open>\<open>if (state_ = kConnected)\<close> assigns and is always true.\<close>

definition connectDestroyed :: "'k epoll_ctl \<Rightarrow> 'k TcpConnection \<Rightarrow> 'k TcpConnection result" where
  "connectDestroyed ctl c =
     (let c = c\<lparr>tc_state := kConnected\<rparr>;
          c = c\<lparr>tc_state := kDisconnected\<rparr>
      in rbind (channel_do ctl DisableAll c) (\<lambda>c.
         let c = call_connectionCallback c
         in rbind (RemoveChannel ctl (tc_channel c) (tc_poller c)) (\<lambda>p. Inr (c\<lparr>tc_poller := p\<rparr>))))"

definition handleClose :: "'k epoll_ctl \<Rightarrow> 'k TcpConnection \<Rightarrow> 'k TcpConnection result" where
  "handleClose ctl c =
     (let c = c\<lparr>tc_state := kDisconnected\<rparr>
      in rbind (channel_do ctl DisableAll c) (\<lambda>c.
         Inr (call_back CloseCb (call_connectionCallback c))))"

definition handleError :: "'k TcpConnection \<Rightarrow> 'k TcpConnection" where
  "handleError c = c"

definition handleRead :: "'k epoll_ctl \<Rightarrow> (nat list \<Rightarrow> int + string) \<Rightarrow> 'k TcpConnection \<Rightarrow> 'k TcpConnection result" where
  "handleRead ctl readv c =
     rbind (readFd readv (inputBuffer c)) (\<lambda>(n, b).
     let c = c\<lparr>inputBuffer := b\<rparr>
     in case n of
          Inr n \<Rightarrow> if 0 < n then Inr (call_back (MessageCb (contents b)) c) else handleClose ctl c
        | Inl savedErrno \<Rightarrow> Inr (handleError c))"

definition handleWrite :: "'k epoll_ctl \<Rightarrow> (string \<Rightarrow> int + nat) \<Rightarrow> 'k TcpConnection \<Rightarrow>
    (string \<times> 'k TcpConnection) result" where
  "handleWrite ctl write c =
     (if IsWriting (the_channel c)
      then rbind (writeFd write (outputBuffer c)) (\<lambda>n.
        case n of
          Inr n \<Rightarrow>
            if 0 < n then
              let bytes = take n (contents (outputBuffer c));
                  c = c\<lparr>outputBuffer := retrieve (of_nat n) (outputBuffer c)\<rparr>
              in if readableBytes (outputBuffer c) = 0
                 then rbind (channel_do ctl DisableWrite c) (\<lambda>c.
                   let c = writeComplete c
                   in Inr (bytes, if tc_state c = kDisconnecting then shutdownInLoop c else c))
                 else Inr (bytes, c)
            else Inr ([], c)
        | Inl savedErrno \<Rightarrow> Inr ([], c))
      else Inr ([], c))"

subsection \<open>The channel of a connection\<close>

lemma change_channel_event:
  "change_channel ctl ch n p = Inr p' \<Longrightarrow> ch_event (chans p' n) = change_event ch (ch_event (chans p n))"
  by (auto simp: change_channel_def UpdateChannel_def Update_def Let_def set_index_def rbind_Inr_iff
      split: if_splits option.splits)

lemma channel_do_fields:
  assumes "channel_do ctl ch c = Inr c'"
  shows "ch_event (the_channel c') = change_event ch (ch_event (the_channel c))"
    "outputBuffer c' = outputBuffer c" "inputBuffer c' = inputBuffer c" "tc_state c' = tc_state c"
    "write_shut c' = write_shut c" "callbacks c' = callbacks c" "tasks c' = tasks c"
    "has_writeComplete c' = has_writeComplete c"
  using assms by (auto simp: channel_do_def rbind_Inr_iff the_channel_def change_channel_event)

lemma event_bits [simp]:
  "(e OR kWriteEvent) AND kWriteEvent \<noteq> (0 :: events)"
  "(e AND NOT kWriteEvent) AND kWriteEvent = (0 :: events)"
  "(e OR kReadEvent) AND kWriteEvent = e AND kWriteEvent"
  "kNoneEvent AND kWriteEvent = 0"
proof -
  have "bit ((e OR kWriteEvent) AND kWriteEvent) 2"
    by (simp add: bit_simps kWriteEvent_def EPOLLOUT_def)
  then show "(e OR kWriteEvent) AND kWriteEvent \<noteq> (0 :: events)" by auto
  show "(e AND NOT kWriteEvent) AND kWriteEvent = (0 :: events)"
    by (simp add: and.assoc)
  have "kReadEvent AND kWriteEvent = 0"
    by (simp add: kReadEvent_def kWriteEvent_def EPOLLIN_def EPOLLPRI_def EPOLLOUT_def)
  then show "(e OR kReadEvent) AND kWriteEvent = e AND kWriteEvent"
    by (simp add: bit.conj_disj_distrib2)
  show "kNoneEvent AND kWriteEvent = 0" by (simp add: kNoneEvent_def)
qed

lemma kWriteEvent_nonzero: "kWriteEvent \<noteq> 0"
  by (simp add: kWriteEvent_def EPOLLOUT_def)

lemma IsWriting_after:
  assumes "channel_do ctl ch c = Inr c'"
  shows "ch = EnableWrite \<Longrightarrow> IsWriting (the_channel c')" "ch = DisableWrite \<Longrightarrow> \<not> IsWriting (the_channel c')"
    "ch = EnableRead \<Longrightarrow> IsWriting (the_channel c') = IsWriting (the_channel c)"
  by (simp_all add: IsWriting_def channel_do_fields [OF assms] kWriteEvent_nonzero)

subsection \<open>What a step keeps\<close>

definition conn_ok :: "'k TcpConnection \<Rightarrow> bool" where
  "conn_ok c \<longleftrightarrow> buffer_ok (outputBuffer c) \<and>
     (tc_state c \<noteq> kDisconnected \<longrightarrow> (IsWriting (the_channel c) \<longleftrightarrow> contents (outputBuffer c) \<noteq> []))"

lemma conn_okD:
  "conn_ok c \<Longrightarrow> buffer_ok (outputBuffer c)"
  "conn_ok c \<Longrightarrow> tc_state c \<noteq> kDisconnected \<Longrightarrow> IsWriting (the_channel c) \<longleftrightarrow> contents (outputBuffer c) \<noteq> []"
  by (simp_all add: conn_ok_def)

lemma readable_zero: "buffer_ok b \<Longrightarrow> readableBytes b = 0 \<longleftrightarrow> contents b = []"
  using buffer_okD(3) [of b] by (metis length_0_conv unat_0 unat_eq_zero)

lemma conn_ok_cong:
  "conn_ok c \<Longrightarrow> outputBuffer c' = outputBuffer c \<Longrightarrow> tc_state c' = tc_state c \<Longrightarrow>
   the_channel c' = the_channel c \<Longrightarrow> conn_ok c'"
  by (simp add: conn_ok_def)

lemma queue_task_simps [simp]:
  "outputBuffer (queue_task t c) = outputBuffer c" "tc_state (queue_task t c) = tc_state c"
  "the_channel (queue_task t c) = the_channel c" "write_shut (queue_task t c) = write_shut c"
  "callbacks (queue_task t c) = callbacks c"
  by (simp_all add: queue_task_def the_channel_def)

lemma writeComplete_simps [simp]:
  "outputBuffer (writeComplete c) = outputBuffer c" "tc_state (writeComplete c) = tc_state c"
  "the_channel (writeComplete c) = the_channel c" "write_shut (writeComplete c) = write_shut c"
  "callbacks (writeComplete c) = callbacks c"
  by (simp_all add: writeComplete_def)

definition write_contract :: "(string \<Rightarrow> int + nat) \<Rightarrow> bool" where
  "write_contract write \<longleftrightarrow> (\<forall>data n. write data = Inr n \<longrightarrow> n \<le> length data)"

text \<open>The peer is gone: the first write of \<open>sendInLoop\<close> fails for good, and the data is dropped.\<close>

definition send_lost :: "(string \<Rightarrow> int + nat) \<Rightarrow> string \<Rightarrow> 'k TcpConnection \<Rightarrow> bool" where
  "send_lost write data c \<longleftrightarrow> tc_state c \<noteq> kDisconnected \<and> \<not> IsWriting (the_channel c) \<and>
     readableBytes (outputBuffer c) = 0 \<and> (write data = Inl EPIPE \<or> write data = Inl ECONNRESET)"

lemma errno_distinct [simp]: "EPIPE \<noteq> EWOULDBLOCK" "ECONNRESET \<noteq> EWOULDBLOCK"
  "EWOULDBLOCK \<noteq> EPIPE" "EWOULDBLOCK \<noteq> ECONNRESET"
  by (simp_all add: EPIPE_def EWOULDBLOCK_def ECONNRESET_def)

lemma send_first_cases:
  assumes ok: "conn_ok c" and st: "tc_state c \<noteq> kDisconnected" and wc: "write_contract write"
    and small: "length data < 2 ^ 64" and f: "send_first write data c = (nwrote, remaining, fault, c')"
  shows "outputBuffer c' = outputBuffer c" "tc_state c' = tc_state c" "the_channel c' = the_channel c"
    "write_shut c' = write_shut c" "callbacks c' = callbacks c"
    "fault \<longleftrightarrow> send_lost write data c" "nwrote \<le> length data"
    "unat remaining = length data - nwrote" "contents (outputBuffer c) = [] \<or> nwrote = 0"
proof -
  have len: "unat (of_nat k :: u64) = k" if "k \<le> length data" for k
    using that small by (intro unat_of_nat_u64) simp
  have sub: "unat (of_nat (length data) - of_nat n :: u64) = length data - n" if "n \<le> length data" for n
    using len [OF that] len [OF le_refl] that by (simp add: unat_sub_le)
  have inj: "length data = n" if "of_nat (length data) = (of_nat n :: u64)" "n \<le> length data" for n
    using len [OF that(2)] len [OF le_refl] that(1) by simp
  have w: "\<And>n. write data = Inr n \<Longrightarrow> n \<le> length data" using wc by (simp add: write_contract_def)
  show "outputBuffer c' = outputBuffer c" "tc_state c' = tc_state c" "the_channel c' = the_channel c"
    "write_shut c' = write_shut c" "callbacks c' = callbacks c"
    "fault \<longleftrightarrow> send_lost write data c" "nwrote \<le> length data"
    "unat remaining = length data - nwrote" "contents (outputBuffer c) = [] \<or> nwrote = 0"
    using f st sub w len inj readable_zero [OF conn_okD(1) [OF ok]]
    by (auto simp: send_first_def Let_def send_lost_def split: if_splits sum.splits)
qed

lemma keep_rest_ok:
  assumes ok: "conn_ok c" and st: "tc_state c \<noteq> kDisconnected" and ne: "rest \<noteq> []"
    and room: "length (buffer (outputBuffer c)) + length rest \<le> max_append"
    and k: "keep_rest ctl rest c = Inr c'"
  shows "conn_ok c'" "contents (outputBuffer c') = contents (outputBuffer c) @ rest" "tc_state c' = tc_state c"
    "write_shut c' = write_shut c" "callbacks c' = callbacks c"
    "length (buffer (outputBuffer c')) \<le> length (buffer (outputBuffer c)) + length rest"
proof -
  have b: "buffer_ok (outputBuffer c)" by (rule conn_okD(1) [OF ok])
  define d where "d = (if highWaterMark c \<le> readableBytes (outputBuffer c) + of_nat (length rest) \<and>
     readableBytes (outputBuffer c) < highWaterMark c \<and> has_highWaterMark c
     then queue_task (HighWaterMarkTask (readableBytes (outputBuffer c) + of_nat (length rest))) c else c)"
  have d: "outputBuffer d = outputBuffer c" "tc_state d = tc_state c" "the_channel d = the_channel c"
    "write_shut d = write_shut c" "callbacks d = callbacks c" by (simp_all add: d_def)
  obtain b' where b': "Buffer_append rest (outputBuffer c) = Inr b'"
    and c': "(if \<not> IsWriting (the_channel d) then channel_do ctl EnableWrite (d\<lparr>outputBuffer := b'\<rparr>)
              else Inr (d\<lparr>outputBuffer := b'\<rparr>)) = Inr c'"
    using k unfolding keep_rest_def Let_def d_def [symmetric]
    by (auto simp: rbind_Inr_iff d the_channel_def)
  note put = buffer_queue.put_Inr [OF b room b']
  have e: "outputBuffer c' = b'" "tc_state c' = tc_state c" "write_shut c' = write_shut c"
    "callbacks c' = callbacks c" "IsWriting (the_channel c')"
    using c' d IsWriting_after(1) [of ctl EnableWrite "d\<lparr>outputBuffer := b'\<rparr>" c']
      channel_do_fields [of ctl EnableWrite "d\<lparr>outputBuffer := b'\<rparr>" c']
    by (auto simp: the_channel_def split: if_splits)
  then show "conn_ok c'" "contents (outputBuffer c') = contents (outputBuffer c) @ rest" "tc_state c' = tc_state c"
    "write_shut c' = write_shut c" "callbacks c' = callbacks c"
    "length (buffer (outputBuffer c')) \<le> length (buffer (outputBuffer c)) + length rest"
    using put ne by (simp_all add: conn_ok_def)
qed

lemma sendInLoop_ok:
  assumes ok: "conn_ok c" and wc: "write_contract write"
    and room: "length (buffer (outputBuffer c)) + length data \<le> max_append"
    and s: "sendInLoop ctl write data c = Inr (bytes, c')"
  shows "conn_ok c'" "tc_state c' = tc_state c" "write_shut c' = write_shut c" "callbacks c' = callbacks c"
    "tc_state c \<noteq> kDisconnected \<Longrightarrow> \<not> send_lost write data c \<Longrightarrow>
       bytes @ contents (outputBuffer c') = contents (outputBuffer c) @ data"
    "tc_state c = kDisconnected \<Longrightarrow> c' = c \<and> bytes = []"
proof -
  have small: "length data < 2 ^ 64" using room by (simp add: max_append_def max_size_def)
  show "tc_state c = kDisconnected \<Longrightarrow> c' = c \<and> bytes = []" using s by (simp add: sendInLoop_def)
  have "conn_ok c' \<and> tc_state c' = tc_state c \<and> write_shut c' = write_shut c \<and> callbacks c' = callbacks c \<and>
    (tc_state c \<noteq> kDisconnected \<longrightarrow> \<not> send_lost write data c \<longrightarrow>
       bytes @ contents (outputBuffer c') = contents (outputBuffer c) @ data)"
  proof (cases "tc_state c = kDisconnected")
    case True
    then show ?thesis using s ok by (auto simp: sendInLoop_def)
  next
    case False
    obtain nwrote remaining fault d where f: "send_first write data c = (nwrote, remaining, fault, d)"
      by (cases "send_first write data c" rule: prod_cases4)
    note F = send_first_cases [OF ok False wc small f]
    have okd: "conn_ok d" by (rule conn_ok_cong [OF ok F(1-3)])
    have rest: "take (unat remaining) (drop nwrote data) = drop nwrote data" by (simp add: F)
    show ?thesis
    proof (cases "\<not> fault \<and> 0 < remaining")
      case True
      have k: "keep_rest ctl (drop nwrote data) d = Inr c'" "bytes = take nwrote data"
        using s True False f rest by (auto simp: sendInLoop_def rbind_Inr_iff)
      have "0 < unat remaining" using True by (simp add: word_less_nat_alt)
      then have ne: "drop nwrote data \<noteq> []" by (simp add: F)
      have "length (buffer (outputBuffer d)) + length (drop nwrote data) \<le> max_append"
        using room F(1) by simp
      note K = keep_rest_ok [OF okd _ ne this k(1)]
      then show ?thesis using k F False by auto
    next
      case stop: False
      have b: "bytes = take nwrote data" "c' = d"
        using s stop False f by (auto simp: sendInLoop_def)
      have "nwrote = length data" if "\<not> fault"
      proof -
        have "remaining = 0" using stop that by (simp add: word_gt_0)
        then show ?thesis using F(7,8) by simp
      qed
      then show ?thesis using b okd F by auto
    qed
  qed
  then show "conn_ok c'" "tc_state c' = tc_state c" "write_shut c' = write_shut c" "callbacks c' = callbacks c"
    "tc_state c \<noteq> kDisconnected \<Longrightarrow> \<not> send_lost write data c \<Longrightarrow>
       bytes @ contents (outputBuffer c') = contents (outputBuffer c) @ data" by blast+
qed

lemma shutdownInLoop_fields [simp]:
  "outputBuffer (shutdownInLoop c) = outputBuffer c" "tc_state (shutdownInLoop c) = tc_state c"
  "the_channel (shutdownInLoop c) = the_channel c" "callbacks (shutdownInLoop c) = callbacks c"
  by (simp_all add: shutdownInLoop_def the_channel_def)

lemma shutdownInLoop_drained:
  assumes "conn_ok c" "tc_state c \<noteq> kDisconnected" "write_shut (shutdownInLoop c)" "\<not> write_shut c"
  shows "contents (outputBuffer c) = []"
  using assms by (auto simp: shutdownInLoop_def conn_ok_def split: if_splits)

lemma shutdownInLoop_ok: "conn_ok c \<Longrightarrow> conn_ok (shutdownInLoop c)"
  by (rule conn_ok_cong) simp_all

lemma handleWrite_ok:
  assumes ok: "conn_ok c" and wc: "write_contract write" and h: "handleWrite ctl write c = Inr (bytes, c')"
  shows "conn_ok c'" "bytes @ contents (outputBuffer c') = contents (outputBuffer c)"
    "tc_state c' = tc_state c" "callbacks c' = callbacks c"
    "tc_state c \<noteq> kDisconnected \<Longrightarrow> write_shut c' \<Longrightarrow> \<not> write_shut c \<Longrightarrow> contents (outputBuffer c') = []"
proof -
  let ?b = "outputBuffer c"
  have b: "buffer_ok ?b" by (rule conn_okD(1) [OF ok])
  have len: "length (contents ?b) < 2 ^ 64" using buffer_okD(3) [OF b] unat_u64_bound by simp
  have "conn_ok c' \<and> bytes @ contents (outputBuffer c') = contents ?b \<and> tc_state c' = tc_state c \<and>
    callbacks c' = callbacks c \<and>
    (tc_state c \<noteq> kDisconnected \<longrightarrow> write_shut c' \<longrightarrow> \<not> write_shut c \<longrightarrow> contents (outputBuffer c') = [])"
  proof (cases "IsWriting (the_channel c) \<and> (\<exists>n. write (contents ?b) = Inr n \<and> 0 < n)")
    case False
    then have "bytes = [] \<and> c' = c"
      using h by (auto simp: handleWrite_def writeFd_ok [OF b] split: if_splits sum.splits)
    then show ?thesis using ok by simp
  next
    case True
    then obtain n where w: "IsWriting (the_channel c)" "write (contents ?b) = Inr n" "0 < n" by blast
    have n: "n \<le> length (contents ?b)" using wc w(2) by (simp add: write_contract_def)
    then have un: "unat (of_nat n :: u64) = n" using len by (intro unat_of_nat_u64) simp
    let ?r = "retrieve (of_nat n) ?b"
    let ?d = "c\<lparr>outputBuffer := ?r\<rparr>"
    have r: "buffer_ok ?r" "contents ?r = drop n (contents ?b)"
      using buffer_queue.drop_ok [OF b, of "of_nat n"] un by simp_all
    show ?thesis
    proof (cases "readableBytes ?r = 0")
      case False
      then have "bytes = take n (contents ?b) \<and> c' = ?d"
        using h w by (simp add: handleWrite_def writeFd_ok [OF b] Let_def)
      moreover have "contents ?r \<noteq> []" using False readable_zero [OF r(1)] by simp
      ultimately show ?thesis using r w(1) by (auto simp: conn_ok_def the_channel_def)
    next
      case True
      obtain e where e: "channel_do ctl DisableWrite ?d = Inr e" and c': "bytes = take n (contents ?b)"
        "c' = (if tc_state (writeComplete e) = kDisconnecting then shutdownInLoop (writeComplete e) else writeComplete e)"
        using h w True by (auto simp: handleWrite_def writeFd_ok [OF b] Let_def rbind_Inr_iff)
      note E = channel_do_fields [OF e] IsWriting_after(2) [OF e refl]
      have empty: "contents ?r = []" using True readable_zero [OF r(1)] by simp
      have f: "outputBuffer c' = ?r" "tc_state c' = tc_state c" "callbacks c' = callbacks c"
        "the_channel c' = the_channel e"
        using c'(2) E by auto
      have "conn_ok c'" using f r empty E by (simp add: conn_ok_def)
      then show ?thesis using f c'(1) r empty by (metis append_take_drop_id)
    qed
  qed
  then show "conn_ok c'" "bytes @ contents (outputBuffer c') = contents ?b" "tc_state c' = tc_state c"
    "callbacks c' = callbacks c"
    "tc_state c \<noteq> kDisconnected \<Longrightarrow> write_shut c' \<Longrightarrow> \<not> write_shut c \<Longrightarrow> contents (outputBuffer c') = []"
    by blast+
qed

lemma call_back_simps [simp]:
  "outputBuffer (call_back x c) = outputBuffer c" "tc_state (call_back x c) = tc_state c"
  "the_channel (call_back x c) = the_channel c" "write_shut (call_back x c) = write_shut c"
  "callbacks (call_back x c) = callbacks c @ [x]" "tasks (call_back x c) = tasks c"
  by (simp_all add: call_back_def the_channel_def)

lemma connectEstablished_ok:
  assumes ok: "conn_ok c" and st: "tc_state c \<noteq> kDisconnected" and e: "connectEstablished ctl c = Inr c'"
  shows "conn_ok c'" "tc_state c' = kConnected" "outputBuffer c' = outputBuffer c" "write_shut c' = write_shut c"
    "callbacks c' = callbacks c @ [ConnectionCb True]"
proof -
  let ?d = "with_channel tie (c\<lparr>tc_state := kConnected\<rparr>)"
  obtain d where d: "channel_do ctl EnableRead ?d = Inr d" "c' = call_connectionCallback d"
    using e by (auto simp: connectEstablished_def rbind_Inr_iff)
  note D = channel_do_fields [OF d(1)] IsWriting_after(3) [OF d(1) refl]
  have "IsWriting (the_channel ?d) = IsWriting (the_channel c)"
    by (simp add: with_channel_def the_channel_def tie_def IsWriting_def)
  then show "conn_ok c'" "tc_state c' = kConnected" "outputBuffer c' = outputBuffer c" "write_shut c' = write_shut c"
    "callbacks c' = callbacks c @ [ConnectionCb True]"
    using d(2) D ok st by (auto simp: conn_ok_def call_connectionCallback_def connected_def with_channel_def)
qed

lemma handleClose_ok:
  assumes ok: "conn_ok c" and h: "handleClose ctl c = Inr c'"
  shows "conn_ok c'" "tc_state c' = kDisconnected" "outputBuffer c' = outputBuffer c" "write_shut c' = write_shut c"
    "callbacks c' = callbacks c @ [ConnectionCb False, CloseCb]"
proof -
  obtain d where d: "channel_do ctl DisableAll (c\<lparr>tc_state := kDisconnected\<rparr>) = Inr d"
    "c' = call_back CloseCb (call_connectionCallback d)"
    using h by (auto simp: handleClose_def rbind_Inr_iff)
  then show "conn_ok c'" "tc_state c' = kDisconnected" "outputBuffer c' = outputBuffer c" "write_shut c' = write_shut c"
    "callbacks c' = callbacks c @ [ConnectionCb False, CloseCb]"
    using channel_do_fields [OF d(1)] ok by (auto simp: conn_ok_def call_connectionCallback_def connected_def)
qed

lemma connectDestroyed_ok:
  assumes ok: "conn_ok c" and h: "connectDestroyed ctl c = Inr c'"
  shows "conn_ok c'" "tc_state c' = kDisconnected" "outputBuffer c' = outputBuffer c" "write_shut c' = write_shut c"
    "callbacks c' = callbacks c @ [ConnectionCb False]"
proof -
  obtain d p where d: "channel_do ctl DisableAll (c\<lparr>tc_state := kDisconnected\<rparr>) = Inr d"
    "c' = (call_connectionCallback d)\<lparr>tc_poller := p\<rparr>"
    using h by (auto simp: connectDestroyed_def rbind_Inr_iff Let_def)
  then show "conn_ok c'" "tc_state c' = kDisconnected" "outputBuffer c' = outputBuffer c" "write_shut c' = write_shut c"
    "callbacks c' = callbacks c @ [ConnectionCb False]"
    using channel_do_fields [OF d(1)] ok by (auto simp: conn_ok_def call_connectionCallback_def connected_def)
qed

lemma handleRead_ok:
  assumes ok: "conn_ok c" and h: "handleRead ctl readv c = Inr c'"
  shows "conn_ok c'" "outputBuffer c' = outputBuffer c" "write_shut c' = write_shut c"
    "tc_state c' = tc_state c \<or> tc_state c' = kDisconnected"
proof -
  obtain n b where nb: "readFd readv (inputBuffer c) = Inr (n, b)" using h by (auto simp: handleRead_def rbind_Inr_iff)
  let ?d = "c\<lparr>inputBuffer := b\<rparr>"
  have okd: "conn_ok ?d" using ok by (simp add: conn_ok_def the_channel_def)
  then have K: "conn_ok (call_back x ?d)" for x by (simp add: conn_ok_def)
  have r: "(case n of Inr n \<Rightarrow> if 0 < n then Inr (call_back (MessageCb (contents b)) ?d) else handleClose ctl ?d
      | Inl savedErrno \<Rightarrow> Inr (handleError ?d)) = Inr c'"
    using h nb by (simp add: handleRead_def Let_def)
  consider "c' = call_back (MessageCb (contents b)) ?d" | "handleClose ctl ?d = Inr c'" | "c' = ?d"
  proof (cases n)
    case (Inl e)
    then have "c' = ?d" using r by (simp add: handleError_def)
    then show ?thesis by (rule that(3))
  next
    case (Inr k)
    then show ?thesis using r that(1,2) by (cases "0 < k") auto
  qed
  then have "conn_ok c' \<and> outputBuffer c' = outputBuffer c \<and> write_shut c' = write_shut c \<and>
    (tc_state c' = tc_state c \<or> tc_state c' = kDisconnected)"
    using handleClose_ok [OF okd] okd K by cases auto
  then show "conn_ok c'" "outputBuffer c' = outputBuffer c" "write_shut c' = write_shut c"
    "tc_state c' = tc_state c \<or> tc_state c' = kDisconnected" by blast+
qed

subsection \<open>The poller serves the connection\<close>

definition pollable :: "('k \<Rightarrow> int \<Rightarrow> (events \<times> nat) option) \<Rightarrow> 'k TcpConnection \<Rightarrow> bool" where
  "pollable interest c \<longleftrightarrow> poller_ok interest (tc_poller c) \<and>
     (ch_index (the_channel c) = kNew \<longrightarrow> channels (tc_poller c) (ch_fd (the_channel c)) = None)"

lemma channel_do_ok:
  assumes con: "epoll_contract ctl interest" and ok: "pollable interest c"
  shows "\<exists>c'. channel_do ctl ch c = Inr c' \<and> pollable interest c'"
proof -
  have p: "poller_ok interest (tc_poller c)" using ok by (simp add: pollable_def)
  have leg: "poller_legal (Change ch (tc_channel c)) (tc_poller c)"
    using ok by (simp add: pollable_def the_channel_def)
  obtain p' where p': "change_channel ctl ch (tc_channel c) (tc_poller c) = Inr p'" "poller_ok interest p'"
    using poller_ok_change [OF con p leg] by blast
  have "ch_index (chans p' (tc_channel c)) \<noteq> kNew"
    by (rule change_channel_index [OF p'(1)]) (rule poller_okD(1) [OF p])
  then show ?thesis using p' by (simp add: channel_do_def pollable_def the_channel_def)
qed

lemma new_TcpConnection_pollable:
  assumes "poller_ok interest p" "ch_index (chans p ptr) = kNew" "channels p fd = None"
  shows "\<exists>c. new_TcpConnection False name fd ptr p = Inr c \<and> pollable interest c"
proof -
  have k: "8 + unat kInitialSize \<le> max_size" by (simp add: kInitialSize_def max_size_def)
  obtain b where b: "new_Buffer kInitialSize = Inr b" using new_Buffer_ok [OF k] by blast
  have "poller_ok interest (p\<lparr>chans := (chans p)(ptr := (new_Channel fd)\<lparr>readEventCallback := True,
      writeEventCallback := True, closeEventCallback := True, errorEventCallback := True\<rparr>)\<rparr>)"
    by (rule poller_ok_fresh [OF assms(1,2)]) (simp add: new_Channel_index)
  then show ?thesis using b assms(3) by (simp add: new_TcpConnection_def Let_def pollable_def the_channel_def new_Channel_index)
qed

text \<open>With a poller in order, an event handler of a connection never ends the process.\<close>

lemma handler_not_stuck:
  assumes con: "epoll_contract ctl interest" and ok: "pollable interest c" and cok: "conn_ok c"
  shows "is_ok (handleClose ctl c)" "is_ok (handleWrite ctl write c)"
proof -
  have P: "is_ok (rbind (channel_do ctl ch d) (\<lambda>c. Inr (f c)))" if d: "pollable interest d" for d ch f
    using channel_do_ok [OF con d, of ch] by (auto simp: is_ok_iff)
  have q: "pollable interest (c\<lparr>tc_state := st\<rparr>)" "pollable interest (c\<lparr>outputBuffer := b\<rparr>)"
    for st b
    using ok by (simp_all add: pollable_def the_channel_def)
  show "is_ok (handleClose ctl c)" by (simp add: handleClose_def P q)
  show "is_ok (handleWrite ctl write c)"
    by (auto simp: handleWrite_def writeFd_ok [OF conn_okD(1) [OF cok]] Let_def P q split: sum.splits)
qed

text \<open>A change of the channel that keeps its index, descriptor and interest does not concern the poller.\<close>

lemma pollable_with_channel:
  assumes t: "\<And>x. ch_index (f x) = ch_index x \<and> ch_fd (f x) = ch_fd x \<and> ch_event (f x) = ch_event x"
    and ok: "pollable interest c"
  shows "pollable interest (with_channel f c)"
proof -
  let ?d = "with_channel f c"
  note D = poller_okD [of interest "tc_poller c"]
  have p: "poller_ok interest (tc_poller c)" using ok by (simp add: pollable_def)
  have e: "tc_poller ?d = (tc_poller c)\<lparr>chans := (chans (tc_poller c))(tc_channel c := f (the_channel c))\<rparr>"
    by (simp add: with_channel_def the_channel_def)
  have "poller_ok interest (tc_poller ?d)"
  proof (rule poller_okI)
    show "ch_index (chans (tc_poller ?d) n) \<in> {kNew, kAdded, kDeleted}" for n
      using D(1) [OF p, of n] by (auto simp: e t the_channel_def)
    show "ch_index (chans (tc_poller ?d) n) \<noteq> kNew \<Longrightarrow>
        channels (tc_poller ?d) (ch_fd (chans (tc_poller ?d) n)) = Some n" for n
      using D(2) [OF p, of n] by (auto simp: e t the_channel_def)
    show "channels (tc_poller ?d) fd = Some n \<Longrightarrow>
        ch_fd (chans (tc_poller ?d) n) = fd \<and> ch_index (chans (tc_poller ?d) n) \<noteq> kNew" for fd n
      using D(3) [OF p, of fd n] by (auto simp: e t the_channel_def)
    have "watched (tc_poller ?d) = watched (tc_poller c)"
      by (auto simp: watched_def fun_eq_iff e t the_channel_def split: option.splits)
    then show "interest (kernelState (tc_poller ?d)) = watched (tc_poller ?d)"
      using p by (simp add: poller_ok_def e)
  qed
  then show ?thesis using ok by (simp add: pollable_def the_channel_def with_channel_def t)
qed

lemma connectEstablished_not_stuck:
  assumes con: "epoll_contract ctl interest" and ok: "pollable interest c"
  shows "\<exists>c'. connectEstablished ctl c = Inr c' \<and> pollable interest c'"
proof -
  let ?c = "c\<lparr>tc_state := kConnected\<rparr>"
  have "pollable interest ?c" using ok by (simp add: pollable_def the_channel_def)
  then have "pollable interest (with_channel tie ?c)" by (rule pollable_with_channel [rotated]) (simp add: tie_def)
  from channel_do_ok [OF con this, of EnableRead]
  obtain d where d: "channel_do ctl EnableRead (with_channel tie ?c) = Inr d" "pollable interest d" by blast
  have "pollable interest (call_connectionCallback d)"
    using d(2) by (simp add: pollable_def call_connectionCallback_def call_back_def the_channel_def)
  then show ?thesis using d(1) by (simp add: connectEstablished_def Let_def)
qed

lemma keep_rest_not_stuck:
  assumes con: "epoll_contract ctl interest" and ok: "pollable interest c" and b: "buffer_ok (outputBuffer c)"
    and room: "length (buffer (outputBuffer c)) + length rest \<le> max_append"
  shows "\<exists>c'. keep_rest ctl rest c = Inr c' \<and> pollable interest c'"
proof -
  obtain b' where b': "Buffer_append rest (outputBuffer c) = Inr b'"
    using buffer_queue.put_ok [OF b room] by auto
  define d where "d = (if highWaterMark c \<le> readableBytes (outputBuffer c) + of_nat (length rest) \<and>
     readableBytes (outputBuffer c) < highWaterMark c \<and> has_highWaterMark c
     then queue_task (HighWaterMarkTask (readableBytes (outputBuffer c) + of_nat (length rest))) c else c)"
  have d: "outputBuffer d = outputBuffer c" "pollable interest (d\<lparr>outputBuffer := b'\<rparr>)"
    using ok by (simp_all add: d_def pollable_def queue_task_def the_channel_def)
  have "keep_rest ctl rest c = (if \<not> IsWriting (the_channel (d\<lparr>outputBuffer := b'\<rparr>))
      then channel_do ctl EnableWrite (d\<lparr>outputBuffer := b'\<rparr>) else Inr (d\<lparr>outputBuffer := b'\<rparr>))"
    unfolding keep_rest_def Let_def d_def [symmetric] by (simp add: d(1) b')
  then show ?thesis using channel_do_ok [OF con d(2), of EnableWrite] d(2) by auto
qed

lemma send_first_pollable:
  "send_first write data c = (nwrote, remaining, fault, d) \<Longrightarrow> pollable interest c \<Longrightarrow> pollable interest d"
  by (auto simp: send_first_def Let_def writeComplete_def queue_task_def pollable_def the_channel_def
      split: if_splits sum.splits)

lemma sendInLoop_not_stuck:
  assumes con: "epoll_contract ctl interest" and ok: "pollable interest c" and cok: "conn_ok c"
    and wc: "write_contract write" and room: "length (buffer (outputBuffer c)) + length data \<le> max_append"
  shows "\<exists>bytes c'. sendInLoop ctl write data c = Inr (bytes, c') \<and> pollable interest c'"
proof (cases "tc_state c = kDisconnected")
  case True
  then show ?thesis using ok by (simp add: sendInLoop_def)
next
  case False
  have small: "length data < 2 ^ 64" using room by (simp add: max_append_def max_size_def)
  obtain nwrote remaining fault d where f: "send_first write data c = (nwrote, remaining, fault, d)"
    by (cases "send_first write data c" rule: prod_cases4)
  note F = send_first_cases [OF cok False wc small f]
  have p: "pollable interest d" by (rule send_first_pollable [OF f ok])
  have "\<exists>c'. keep_rest ctl (take (unat remaining) (drop nwrote data)) d = Inr c' \<and> pollable interest c'"
    by (rule keep_rest_not_stuck [OF con p]) (use F(1) conn_okD(1) [OF cok] room in simp_all)
  then show ?thesis using f p False by (auto simp: sendInLoop_def)
qed

end
