(* ===== verification/ConnectionStream.thy ===== *)
theory ConnectionStream
  imports TcpConnection
begin

text \<open>
  A connection over its life: the steps of \<open>TcpConnection\<close> in any order, with the bytes that went to the
  socket, and the three things its user relies on: the byte stream, the half close and the report of
  the close.
\<close>

subsection \<open>A connection and its socket\<close>

text \<open>
  The bytes that went to the socket (\<open>wire\<close>), the bytes handed to \<open>sendInLoop\<close> while the connection was
  not disconnected (\<open>handed\<close>), whether data was dropped because the peer is gone (\<open>broken\<close>), and, once
  \<open>ShutdownWrite\<close> has been called on a connection that was not disconnected, both byte strings of that
  moment (\<open>shut_log\<close>). A \<open>send\<close> in another thread is the step \<open>send_later\<close>, which hands nothing over; the task it
  queued runs as a step \<open>send_now\<close>, with any bytes, since the pointer it kept may show others by then.
\<close>

record 'k conn_system =
  conn :: "'k TcpConnection"
  wire :: string
  handed :: string
  broken :: bool
  shut_log :: "(string \<times> string) option"

definition advance :: "string \<Rightarrow> string \<Rightarrow> bool \<Rightarrow> 'k TcpConnection \<Rightarrow> 'k conn_system \<Rightarrow> 'k conn_system" where
  "advance bytes given lost c s =
     \<lparr>conn = c, wire = wire s @ bytes, handed = handed s @ given, broken = broken s \<or> lost,
      shut_log = (if write_shut c \<and> \<not> write_shut (conn s) \<and> tc_state (conn s) \<noteq> kDisconnected
                  then Some (wire s @ bytes, handed s @ given) else shut_log s)\<rparr>"

inductive conn_run :: "'k epoll_ctl \<Rightarrow> 'k conn_system \<Rightarrow> 'k conn_system \<Rightarrow> bool" for ctl :: "'k epoll_ctl" where
  establish: "tc_state (conn s) = kConnecting \<Longrightarrow> connectEstablished ctl (conn s) = Inr c \<Longrightarrow>
    conn_run ctl s (advance [] [] False c s)"
| send_now: "write_contract write \<Longrightarrow> length (buffer (outputBuffer (conn s))) + length data \<le> max_append \<Longrightarrow>
    sendInLoop ctl write data (conn s) = Inr (bytes, c) \<Longrightarrow>
    conn_run ctl s (advance bytes (if tc_state (conn s) = kDisconnected then [] else data)
      (send_lost write data (conn s)) c s)"
| send_later: "send ctl write False data (conn s) = Inr (bytes, c) \<Longrightarrow>
    conn_run ctl s (advance bytes [] False c s)"
| shut: "conn_run ctl s (advance [] [] False (tc_shutdown inLoop (conn s)) s)"
| shut_task: "conn_run ctl s (advance [] [] False (shutdownInLoop (conn s)) s)"
| writable: "write_contract write \<Longrightarrow> handleWrite ctl write (conn s) = Inr (bytes, c) \<Longrightarrow>
    conn_run ctl s (advance bytes [] False c s)"
| readable: "handleRead ctl readv (conn s) = Inr c \<Longrightarrow> conn_run ctl s (advance [] [] False c s)"
| close: "handleClose ctl (conn s) = Inr c \<Longrightarrow> conn_run ctl s (advance [] [] False c s)"
| destroy: "connectDestroyed ctl (conn s) = Inr c \<Longrightarrow> conn_run ctl s (advance [] [] False c s)"
| consume: "conn_run ctl s (advance [] [] False ((conn s)\<lparr>inputBuffer := b\<rparr>) s)"

definition conn_start :: "'k conn_system \<Rightarrow> bool" where
  "conn_start s \<longleftrightarrow> (\<exists>name fd ptr p c wc hwm n. new_TcpConnection False name fd ptr p = Inr c \<and>
     s = \<lparr>conn = c\<lparr>has_writeComplete := wc, has_highWaterMark := hwm, highWaterMark := n\<rparr>,
          wire = [], handed = [], broken = False, shut_log = None\<rparr>)"

definition conn_inv :: "'k conn_system \<Rightarrow> bool" where
  "conn_inv s \<longleftrightarrow> conn_ok (conn s) \<and>
     (\<not> broken s \<longrightarrow> wire s @ contents (outputBuffer (conn s)) = handed s \<and>
        (\<forall>w h. shut_log s = Some (w, h) \<longrightarrow> w = h))"

lemma conn_inv_advance:
  assumes inv: "conn_inv s" and ok: "conn_ok c"
    and bytes: "\<not> lost \<Longrightarrow> bytes @ contents (outputBuffer c) = contents (outputBuffer (conn s)) @ given"
    and drained: "write_shut c \<Longrightarrow> \<not> write_shut (conn s) \<Longrightarrow> tc_state (conn s) \<noteq> kDisconnected \<Longrightarrow>
       contents (outputBuffer c) = []"
  shows "conn_inv (advance bytes given lost c s)"
proof (cases "broken s \<or> lost")
  case True
  then show ?thesis using ok by (simp add: conn_inv_def advance_def)
next
  case False
  have w: "wire s @ contents (outputBuffer (conn s)) = handed s"
    and l: "\<And>w h. shut_log s = Some (w, h) \<Longrightarrow> w = h"
    using inv False by (simp_all add: conn_inv_def)
  have w': "(wire s @ bytes) @ contents (outputBuffer c) = handed s @ given"
    using bytes False w by (metis append_assoc)
  have "wire s @ bytes = handed s @ given" if "contents (outputBuffer c) = []"
    using w' that by simp
  then show ?thesis using ok w' l drained by (auto simp: conn_inv_def advance_def)
qed

lemma conn_ok_other: "conn_ok c \<Longrightarrow> conn_ok (c\<lparr>inputBuffer := b\<rparr>)"
  by (simp add: conn_ok_def the_channel_def)

lemma tc_shutdown_ok:
  assumes "conn_ok c"
  shows "conn_ok (tc_shutdown inLoop c)" "outputBuffer (tc_shutdown inLoop c) = outputBuffer c"
    "write_shut (tc_shutdown inLoop c) \<Longrightarrow> \<not> write_shut c \<Longrightarrow> contents (outputBuffer c) = []"
proof -
  let ?d = "c\<lparr>tc_state := kDisconnecting\<rparr>"
  have d: "conn_ok ?d" if "tc_state c = kConnected" using assms that by (simp add: conn_ok_def the_channel_def)
  show "conn_ok (tc_shutdown inLoop c)"
    using d assms shutdownInLoop_ok [of ?d] conn_ok_cong [of ?d "queue_task ShutdownTask ?d"]
    by (simp add: tc_shutdown_def Let_def)
  show "outputBuffer (tc_shutdown inLoop c) = outputBuffer c" by (simp add: tc_shutdown_def Let_def)
  show "write_shut (tc_shutdown inLoop c) \<Longrightarrow> \<not> write_shut c \<Longrightarrow> contents (outputBuffer c) = []"
    using d shutdownInLoop_drained [of ?d] by (auto simp: tc_shutdown_def Let_def split: if_splits)
qed

lemma conn_inv_step:
  assumes inv: "conn_inv s" and step: "conn_run ctl s t"
  shows "conn_inv t"
proof -
  have ok: "conn_ok (conn s)" using inv by (simp add: conn_inv_def)
  show ?thesis using step
  proof cases
    case (establish c)
    then show ?thesis using connectEstablished_ok [OF ok _ establish(3)]
      by (auto intro!: conn_inv_advance [OF inv])
  next
    case (send_now wr data bytes c)
    note S = sendInLoop_ok [OF ok send_now(2-4)]
    show ?thesis unfolding send_now(1)
      by (rule conn_inv_advance [OF inv]) (use S in auto)
  next
    case (send_later wr data bytes c)
    then have "bytes = [] \<and> (c = conn s \<or> c = queue_task (SendTask data) (conn s))"
      by (auto simp: send_def split: if_splits)
    then show ?thesis unfolding send_later(1)
      by (intro conn_inv_advance [OF inv]) (auto intro: conn_ok_cong [OF ok] ok)
  next
    case (shut inLoop)
    show ?thesis unfolding shut(1)
      by (rule conn_inv_advance [OF inv]) (use tc_shutdown_ok [OF ok] in auto)
  next
    case shut_task
    show ?thesis unfolding shut_task(1)
      by (rule conn_inv_advance [OF inv]) (use shutdownInLoop_ok [OF ok] shutdownInLoop_drained [OF ok] in auto)
  next
    case (writable wr bytes c)
    note W = handleWrite_ok [OF ok writable(2,3)]
    show ?thesis unfolding writable(1)
      by (rule conn_inv_advance [OF inv]) (use W in auto)
  next
    case (readable readv c)
    show ?thesis unfolding readable(1)
      by (rule conn_inv_advance [OF inv]) (use handleRead_ok [OF ok readable(2)] in auto)
  next
    case (close c)
    show ?thesis unfolding close(1)
      by (rule conn_inv_advance [OF inv]) (use handleClose_ok [OF ok close(2)] in auto)
  next
    case (destroy c)
    show ?thesis unfolding destroy(1)
      by (rule conn_inv_advance [OF inv]) (use connectDestroyed_ok [OF ok destroy(2)] in auto)
  next
    case (consume b)
    show ?thesis unfolding consume(1)
      by (rule conn_inv_advance [OF inv]) (use conn_ok_other [OF ok] in auto)
  qed
qed

lemma new_TcpConnection_ok:
  assumes "new_TcpConnection False name fd ptr p = Inr c"
  shows "conn_ok c" "contents (outputBuffer c) = []" "tc_state c = kConnecting"
proof -
  have k: "8 + unat kInitialSize \<le> max_size" by (simp add: kInitialSize_def max_size_def)
  have "new_Buffer kInitialSize = Inr b \<Longrightarrow> buffer_ok b \<and> contents b = []" for b
    using new_Buffer_ok [OF k] by auto
  then show "conn_ok c" "contents (outputBuffer c) = []" "tc_state c = kConnecting"
    using assms by (auto simp: new_TcpConnection_def rbind_Inr_iff Let_def conn_ok_def the_channel_def
        new_Channel_def IsWriting_def)
qed

interpretation connection: inductive_invariant conn_start "conn_run ctl" conn_inv for ctl
proof
  fix s assume "conn_start s"
  then obtain name fd ptr p c wc hwm n where c: "new_TcpConnection False name fd ptr p = Inr c"
    "s = \<lparr>conn = c\<lparr>has_writeComplete := wc, has_highWaterMark := hwm, highWaterMark := n\<rparr>,
          wire = [], handed = [], broken = False, shut_log = None\<rparr>" unfolding conn_start_def by blast
  then show "conn_inv s" using new_TcpConnection_ok [OF c(1)]
    by (simp add: conn_inv_def conn_ok_def the_channel_def)
next
  show "conn_inv s \<Longrightarrow> conn_run ctl s t \<Longrightarrow> conn_inv t" for s t
    by (rule conn_inv_step)
qed

text \<open>
  Claim C33. No byte of the stream is lost, repeated or reordered: as long as the kernel has not reported the peer
  gone (\<open>EPIPE\<close> or \<open>ECONNRESET\<close>, after which \<open>sendInLoop\<close> drops what is left), the bytes written to the
  socket followed by those in the output buffer are exactly the bytes handed to \<open>sendInLoop\<close> while the connection was not
  disconnected, however the writes were split. Each such call finds room in the vector. What \<open>send\<close> was given in
  another thread counts when its task runs, with the bytes that the pointer it kept shows then, whatever they are.
\<close>
theorem stream_integrity:
  assumes "reachable conn_start (conn_run ctl) s" "\<not> broken s"
  shows "wire s @ contents (outputBuffer (conn s)) = handed s"
  using connection.reachable_inv [OF assms(1)] assms(2) by (simp add: conn_inv_def)

text \<open>A \<open>send\<close> in another thread leaves a task; a shutdown in the loop does not wait for it.\<close>

lemma shutdown_overtakes:
  assumes inv: "conn_inv s" and up: "tc_state (conn s) = kConnected" "\<not> write_shut (conn s)" "contents (outputBuffer (conn s)) = []"
  shows "\<exists>t u. send ctl write False data (conn s) = Inr ([], conn t) \<and> conn_run ctl s t \<and> conn u = tc_shutdown True (conn t) \<and>
    conn_run ctl t u \<and> SendTask data \<in> set (tasks (conn u)) \<and> write_shut (conn u) \<and> shut_log u = Some (wire s, handed s)"
proof -
  let ?c = "queue_task (SendTask data) (conn s)"
  define t where "t = advance [] [] False ?c s"
  define u where "u = advance [] [] False (tc_shutdown True ?c) t"
  have send: "send ctl write False data (conn s) = Inr ([], ?c)" using up(1) by (simp add: send_def)
  have "\<not> IsWriting (the_channel (conn s))" using inv up conn_okD(2) [of "conn s"] by (simp add: conn_inv_def)
  then have c: "tc_shutdown True ?c = ?c\<lparr>tc_state := kDisconnecting, write_shut := True\<rparr>"
    using up(1) by (simp add: tc_shutdown_def shutdownInLoop_def queue_task_def the_channel_def)
  have t: "conn t = ?c" "wire t = wire s" "handed t = handed s" by (simp_all add: t_def advance_def)
  have "conn_run ctl s t" unfolding t_def by (rule conn_run.send_later [OF send])
  moreover have "conn_run ctl t u" using conn_run.shut [of ctl t True] unfolding t u_def .
  moreover have "conn u = tc_shutdown True ?c" "shut_log u = Some (wire s, handed s)"
    using up by (simp_all add: u_def advance_def t c)
  ultimately show ?thesis using send c t(1) by (intro exI [of _ t] exI [of _ u]) (simp add: queue_task_def)
qed

text \<open>
  Claim C34. \<open>ShutdownWrite\<close> waits for the output buffer, not for other threads. As long as the peer has not been
  reported gone, at the moment it is called on a connection that is not disconnected everything that had reached
  \<open>sendInLoop\<close> has been written to the socket. A \<open>send\<close> in another thread only queues a task: when the buffer is empty, a
  \<open>shutdown\<close> in the loop that follows it shuts the write side at once, and the bytes are still in the task.
\<close>
theorem shutdown_after_drain:
  assumes "reachable conn_start (conn_run ctl) s" "\<not> broken s"
  shows "(\<forall>written given. shut_log s = Some (written, given) \<longrightarrow> written = given) \<and>
    (tc_state (conn s) = kConnected \<and> \<not> write_shut (conn s) \<and> contents (outputBuffer (conn s)) = [] \<longrightarrow>
     (\<exists>t u. send ctl write False data (conn s) = Inr ([], conn t) \<and> conn_run ctl s t \<and> conn u = tc_shutdown True (conn t) \<and>
        conn_run ctl t u \<and> SendTask data \<in> set (tasks (conn u)) \<and> write_shut (conn u) \<and> shut_log u = Some (wire s, handed s)))"
proof -
  have inv: "conn_inv s" by (rule connection.reachable_inv [OF assms(1)])
  then have "\<forall>written given. shut_log s = Some (written, given) \<longrightarrow> written = given" using assms(2) by (simp add: conn_inv_def)
  then show ?thesis using shutdown_overtakes [OF inv] by blast
qed

subsection \<open>A concrete connection\<close>

text \<open>Two of five bytes go out at once; a shutdown follows; the socket then takes the rest.\<close>

definition take_two :: "string \<Rightarrow> int + nat" where "take_two d = Inr (min 2 (length d))"
definition take_all :: "string \<Rightarrow> int + nat" where "take_all d = Inr (length d)"

lemma take_contract: "write_contract take_two" "write_contract take_all"
  by (auto simp: write_contract_def take_two_def take_all_def)

lemma example_poller:
  "\<exists>p :: (int \<Rightarrow> (events \<times> nat) option) EPollPoller.
     poller_ok (\<lambda>k. k) p \<and> ch_index (chans p 0) = kNew \<and> channels p 7 = None"
proof -
  let ?p = "\<lparr>channels = Map.empty, chans = (\<lambda>_. new_Channel 0), kernelState = Map.empty, eventList = []\<rparr>
    :: (int \<Rightarrow> (events \<times> nat) option) EPollPoller"
  have "poller_ok (\<lambda>k. k) ?p" by (rule poller_okI) (auto simp: new_Channel_index watched_def)
  then show ?thesis using new_Channel_index by (metis (no_types, lifting) EPollPoller.select_convs(1,2))
qed

lemma handleWrite_drains:
  assumes ok: "conn_ok c" and wr: "IsWriting (the_channel c)" "write (contents (outputBuffer c)) = Inr n"
    and n: "n = length (contents (outputBuffer c))" "0 < n" and h: "handleWrite ctl write c = Inr (bytes, c')"
  shows "bytes = contents (outputBuffer c)" "tc_state c = kDisconnecting \<Longrightarrow> write_shut c'"
proof -
  let ?b = "outputBuffer c"
  let ?d = "c\<lparr>outputBuffer := retrieve (of_nat n) ?b\<rparr>"
  have b: "buffer_ok ?b" by (rule conn_okD(1) [OF ok])
  have "unat (of_nat n :: u64) = n"
    using buffer_okD(3) [OF b] unat_u64_bound n(1) by (intro unat_of_nat_u64) simp
  then have r: "buffer_ok (retrieve (of_nat n) ?b)" "contents (retrieve (of_nat n) ?b) = []"
    using buffer_queue.drop_ok [OF b, of "of_nat n"] n(1) by simp_all
  obtain e where e: "channel_do ctl DisableWrite ?d = Inr e" "bytes = contents ?b"
    "c' = (if tc_state (writeComplete e) = kDisconnecting then shutdownInLoop (writeComplete e) else writeComplete e)"
    using h wr n readable_zero [OF r(1)] r(2)
    by (auto simp: handleWrite_def writeFd_ok [OF b] Let_def rbind_Inr_iff)
  then show "bytes = contents (outputBuffer c)" "tc_state c = kDisconnecting \<Longrightarrow> write_shut c'"
    using channel_do_fields [OF e(1)] IsWriting_after(2) [OF e(1) refl]
    by (simp_all add: shutdownInLoop_def)
qed

lemma sendInLoop_first:
  assumes "tc_state c \<noteq> kDisconnected" "\<not> IsWriting (the_channel c)" "readableBytes (outputBuffer c) = 0"
    "write data = Inr n" "sendInLoop ctl write data c = Inr (bytes, c')"
  shows "bytes = take n data"
  using assms by (auto simp: sendInLoop_def send_first_def Let_def rbind_Inr_iff split: if_splits)

lemma advance_fields:
  "conn (advance bytes given lost c s) = c" "wire (advance bytes given lost c s) = wire s @ bytes"
  "handed (advance bytes given lost c s) = handed s @ given"
  "broken (advance bytes given lost c s) \<longleftrightarrow> broken s \<or> lost"
  "write_shut c \<Longrightarrow> \<not> write_shut (conn s) \<Longrightarrow> tc_state (conn s) \<noteq> kDisconnected \<Longrightarrow>
     shut_log (advance bytes given lost c s) = Some (wire s @ bytes, handed s @ given)"
  "\<not> write_shut c \<Longrightarrow> shut_log (advance bytes given lost c s) = shut_log s"
  by (simp_all add: advance_def)

lemma example_established:
  "\<exists>(p :: (int \<Rightarrow> (events \<times> nat) option) EPollPoller) c0 c1. new_TcpConnection False ''c'' 7 0 p = Inr c0 \<and> connectEstablished map_ctl c0 = Inr c1 \<and>
     pollable (\<lambda>k. k) c1 \<and> \<not> write_shut c0 \<and> \<not> write_shut c1 \<and> tc_state c1 = kConnected \<and> conn_ok c1 \<and>
     contents (outputBuffer c1) = [] \<and> length (buffer (outputBuffer c1)) = 1032 \<and>
     length (buffer (inputBuffer c0)) = 1032"
proof -
  obtain p :: "(int \<Rightarrow> (events \<times> nat) option) EPollPoller" where
    "poller_ok (\<lambda>k. k) p" "ch_index (chans p 0) = kNew" "channels p 7 = None"
    using example_poller by blast
  then obtain c0 where c0: "new_TcpConnection False ''c'' 7 0 p = Inr c0" "pollable (\<lambda>k. k) c0"
    using new_TcpConnection_pollable by blast
  note N = new_TcpConnection_ok [OF c0(1)]
  have sh: "\<not> write_shut c0" using c0(1) by (auto simp: new_TcpConnection_def rbind_Inr_iff Let_def)
  obtain c1 where c1: "connectEstablished map_ctl c0 = Inr c1" "pollable (\<lambda>k. k) c1"
    using connectEstablished_not_stuck [OF map_ctl_contract c0(2)] by blast
  have "tc_state c0 \<noteq> kDisconnected" by (simp add: N)
  note E = connectEstablished_ok [OF N(1) this c1(1)]
  have "8 + unat kInitialSize \<le> max_size" by (simp add: kInitialSize_def max_size_def)
  from new_Buffer_ok [OF this] have "length (buffer (outputBuffer c1)) = 8 + unat kInitialSize"
    "length (buffer (inputBuffer c0)) = 8 + unat kInitialSize"
    using c0(1) E(3) by (auto simp: new_TcpConnection_def rbind_Inr_iff Let_def)
  then show ?thesis using c0 c1 sh E N by (intro exI [of _ p] exI [of _ c0] exI [of _ c1]) (simp add: kInitialSize_def)
qed

text \<open>The example: a connection is up, sends \<open>hello\<close> of which two bytes go out, shuts down, and drains its buffer.\<close>

lemma example_open:
  "\<exists>s. reachable conn_start (conn_run map_ctl) s \<and> pollable (\<lambda>k. k) (conn s) \<and> conn_ok (conn s) \<and>
     tc_state (conn s) = kConnected \<and> contents (outputBuffer (conn s)) = [] \<and> length (buffer (outputBuffer (conn s))) = 1032 \<and>
     \<not> write_shut (conn s) \<and> wire s = [] \<and> handed s = [] \<and> \<not> broken s \<and> shut_log s = None"
proof -
  obtain p c0 c1 where c0: "new_TcpConnection False ''c'' 7 0 p = Inr c0" and c1: "connectEstablished map_ctl c0 = Inr c1"
      "pollable (\<lambda>k. k) c1" and sh: "\<not> write_shut c0" "\<not> write_shut c1" and E: "tc_state c1 = kConnected" "conn_ok c1"
      "contents (outputBuffer c1) = []" and len: "length (buffer (outputBuffer c1)) = 1032"
    using example_established by blast
  note N = new_TcpConnection_ok [OF c0]
  define s0 where "s0 = \<lparr>conn = c0, wire = [], handed = [], broken = False, shut_log = None\<rparr>"
  have f0: "conn s0 = c0" "wire s0 = []" "handed s0 = []" "\<not> broken s0" "shut_log s0 = None" by (simp_all add: s0_def)
  have r0: "reachable conn_start (conn_run map_ctl) s0"
    unfolding s0_def by (rule reachable_init, unfold conn_start_def,
        intro exI [of _ "''c''"] exI [of _ 7] exI [of _ 0] exI [of _ p] exI [of _ c0]
          exI [of _ "has_writeComplete c0"] exI [of _ "has_highWaterMark c0"] exI [of _ "highWaterMark c0"])
      (simp add: c0)
  define s1 where "s1 = advance [] [] False c1 s0"
  have f1: "conn s1 = c1" "wire s1 = []" "handed s1 = []" "\<not> broken s1" "shut_log s1 = None"
    using sh f0 by (simp_all add: s1_def advance_fields)
  have "reachable conn_start (conn_run map_ctl) s1"
    unfolding s1_def by (rule reachable_step [OF r0 conn_run.establish]) (simp_all add: c1 N f0)
  then show ?thesis using c1(2) E len sh(2) f1 by (intro exI [of _ s1]) (simp only: simp_thms)
qed

lemma example_sent:
  "\<exists>s. reachable conn_start (conn_run map_ctl) s \<and> pollable (\<lambda>k. k) (conn s) \<and> conn_ok (conn s) \<and>
     tc_state (conn s) = kConnected \<and> contents (outputBuffer (conn s)) = ''llo'' \<and>
     \<not> write_shut (conn s) \<and> wire s = ''he'' \<and> handed s = ''hello'' \<and> \<not> broken s \<and> shut_log s = None"
proof -
  obtain s1 where r1: "reachable conn_start (conn_run map_ctl) s1"
     and E: "tc_state (conn s1) = kConnected" "conn_ok (conn s1)" "contents (outputBuffer (conn s1)) = []" "pollable (\<lambda>k. k) (conn s1)"
     and len: "length (buffer (outputBuffer (conn s1))) = 1032"
     and f1: "\<not> write_shut (conn s1)" "wire s1 = []" "handed s1 = []" "\<not> broken s1" "shut_log s1 = None"
    using example_open by blast
  have b1: "buffer_ok (outputBuffer (conn s1))" "contents (outputBuffer (conn s1)) = []" using E conn_okD(1) by auto
  have q1: "tc_state (conn s1) \<noteq> kDisconnected" "\<not> IsWriting (the_channel (conn s1))" "readableBytes (outputBuffer (conn s1)) = 0"
    using E(1) conn_okD(2) [OF E(2)] b1 readable_zero by auto
  have room: "length (buffer (outputBuffer (conn s1))) + length ''hello'' \<le> max_append"
    using len by (simp add: max_append_def max_size_def)
  obtain bytes c2 where c2: "sendInLoop map_ctl take_two ''hello'' (conn s1) = Inr (bytes, c2)" "pollable (\<lambda>k. k) c2"
    using sendInLoop_not_stuck [OF map_ctl_contract E(4,2) take_contract(1) room] by blast
  note S = sendInLoop_ok [OF E(2) take_contract(1) room c2(1)]
  have by2: "bytes = ''he''"
    using sendInLoop_first [OF q1 _ c2(1), of 2] by (simp add: take_two_def)
  have nl: "\<not> send_lost take_two ''hello'' (conn s1)" by (simp add: send_lost_def take_two_def)
  then have k2: "contents (outputBuffer c2) = ''llo''" using S(5) q1(1) by2 b1 by simp
  define s2 where "s2 = advance bytes ''hello'' False c2 s1"
  have f2: "conn s2 = c2" "wire s2 = ''he''" "handed s2 = ''hello''" "\<not> broken s2" "shut_log s2 = None" "\<not> write_shut c2"
    using S(3) f1 by2 by (simp_all add: s2_def advance_fields)
  have e: "(if tc_state (conn s1) = kDisconnected then [] else ''hello'') = ''hello''"
    "send_lost take_two ''hello'' (conn s1) = False"
    using q1(1) nl by auto
  have "conn_run map_ctl s1 s2"
    unfolding s2_def using conn_run.send_now [OF take_contract(1) room c2(1)] unfolding e .
  from reachable_step [OF r1 this] show ?thesis
    using c2(2) S(1,2) E(1) k2 f2 by (intro exI [of _ s2]) (simp only: simp_thms)
qed

lemma example_talk:
  "\<exists>s t. reachable conn_start (conn_run map_ctl) s \<and> conn_run map_ctl s t \<and>
     wire s = ''he'' \<and> contents (outputBuffer (conn s)) = ''llo'' \<and> handed s = ''hello'' \<and> \<not> broken s \<and>
     tc_state (conn s) = kDisconnecting \<and> shut_log s = None \<and>
     wire t = ''hello'' \<and> \<not> broken t \<and> shut_log t = Some (''hello'', ''hello'')"
proof -
  obtain s2 where r2: "reachable conn_start (conn_run map_ctl) s2"
     and S: "pollable (\<lambda>k. k) (conn s2)" "conn_ok (conn s2)" "tc_state (conn s2) = kConnected" "contents (outputBuffer (conn s2)) = ''llo''"
     and f2: "\<not> write_shut (conn s2)" "wire s2 = ''he''" "handed s2 = ''hello''" "\<not> broken s2" "shut_log s2 = None"
    using example_sent by blast
  let ?c3 = "tc_shutdown True (conn s2)"
  have w2: "IsWriting (the_channel (conn s2))" using conn_okD(2) [OF S(2)] S(3,4) by simp
  have d3: "?c3 = (conn s2)\<lparr>tc_state := kDisconnecting\<rparr>"
    using w2 S(3) by (simp add: tc_shutdown_def shutdownInLoop_def the_channel_def)
  have p3: "pollable (\<lambda>k. k) ?c3" "conn_ok ?c3" "IsWriting (the_channel ?c3)" "contents (outputBuffer ?c3) = ''llo''"
    "\<not> write_shut ?c3" "tc_state ?c3 = kDisconnecting"
    using S w2 f2(1) by (simp_all add: d3 pollable_def conn_ok_def the_channel_def)
  define s3 where "s3 = advance [] [] False ?c3 s2"
  have f3: "conn s3 = ?c3" "wire s3 = ''he''" "handed s3 = ''hello''" "\<not> broken s3" "shut_log s3 = None"
    using p3(5) f2 by (simp_all add: s3_def advance_fields)
  have r3: "reachable conn_start (conn_run map_ctl) s3"
    using reachable_step [OF r2 conn_run.shut [of map_ctl s2 True]] by (simp add: s3_def)
  obtain b4 c4 where c4: "handleWrite map_ctl take_all ?c3 = Inr (b4, c4)"
    using handler_not_stuck(2) [OF map_ctl_contract p3(1,2), of take_all] by (auto simp: is_ok_iff)
  have D: "b4 = ''llo''" "write_shut c4"
    using handleWrite_drains [OF p3(2,3), of take_all 3 map_ctl b4 c4] c4 p3(4,6) by (simp_all add: take_all_def)
  define s4 where "s4 = advance b4 [] False c4 s3"
  have f4: "wire s4 = ''hello''" "\<not> broken s4" "shut_log s4 = Some (''hello'', ''hello'')"
    using D f3 p3(5,6) by (simp_all add: s4_def advance_fields)
  have "conn_run map_ctl s3 s4"
    using conn_run.writable [OF take_contract(2), of map_ctl s3 b4 c4] c4 by (simp add: f3 s4_def)
  then show ?thesis using r3 f3 p3 f4 by metis
qed

theorem stream_integrity_witness:
  "\<exists>s. wire s = ''he'' \<and> contents (outputBuffer (conn s)) = ''llo'' \<and>
     wire s @ contents (outputBuffer (conn (s :: (int \<Rightarrow> (events \<times> nat) option) conn_system))) = handed s"
  using example_talk stream_integrity by blast

theorem shutdown_after_drain_witness:
  "(\<exists>s :: (int \<Rightarrow> (events \<times> nat) option) conn_system. \<exists>written given.
     shut_log s = Some (written, given) \<and> given = ''hello'' \<and> written = given) \<and>
   (\<exists>u :: (int \<Rightarrow> (events \<times> nat) option) conn_system. reachable conn_start (conn_run map_ctl) u \<and>
     write_shut (conn u) \<and> shut_log u = Some ([], []) \<and> SendTask ''late'' \<in> set (tasks (conn u)))"
proof
  obtain s t :: "(int \<Rightarrow> (events \<times> nat) option) conn_system" where
    r: "reachable conn_start (conn_run map_ctl) s" "conn_run map_ctl s t" "\<not> broken t"
      "shut_log t = Some (''hello'', ''hello'')"
    using example_talk by blast
  have "reachable conn_start (conn_run map_ctl) t" by (rule reachable_step [OF r(1,2)])
  from shutdown_after_drain [OF this r(3)] r(4) show "\<exists>s :: (int \<Rightarrow> (events \<times> nat) option) conn_system. \<exists>written given.
     shut_log s = Some (written, given) \<and> given = ''hello'' \<and> written = given" by blast
  obtain s :: "(int \<Rightarrow> (events \<times> nat) option) conn_system" where
    o: "reachable conn_start (conn_run map_ctl) s" "\<not> broken s" "tc_state (conn s) = kConnected" "\<not> write_shut (conn s)"
      "contents (outputBuffer (conn s)) = []" "wire s = []" "handed s = []"
    using example_open by blast
  then obtain t u where "conn_run map_ctl s t" "conn_run map_ctl t u" "SendTask ''late'' \<in> set (tasks (conn u))" "write_shut (conn u)"
     "shut_log u = Some ([], [])"
    using shutdown_after_drain [OF o(1,2), of take_all "''late''"] by auto
  then show "\<exists>u :: (int \<Rightarrow> (events \<times> nat) option) conn_system. reachable conn_start (conn_run map_ctl) u \<and>
     write_shut (conn u) \<and> shut_log u = Some ([], []) \<and> SendTask ''late'' \<in> set (tasks (conn u))"
    using reachable_step [OF reachable_step [OF o(1)]] by blast
qed

subsection \<open>Closing\<close>

lemma channel_do_kept:
  assumes d: "channel_do ctl ch c = Inr c'" and ok: "pollable interest c" "pollable interest c'"
  shows "tc_channel c' = tc_channel c" "ch_fd (the_channel c') = ch_fd (the_channel c)"
    "HasChannel (tc_channel c') (tc_poller c')"
proof -
  obtain p where p: "change_channel ctl ch (tc_channel c) (tc_poller c) = Inr p" "c' = c\<lparr>tc_poller := p\<rparr>"
    using d by (auto simp: channel_do_def rbind_Inr_iff)
  show "tc_channel c' = tc_channel c" "ch_fd (the_channel c') = ch_fd (the_channel c)"
    using p change_channel_fd [OF p(1)] by (simp_all add: the_channel_def)
  have "ch_index (chans p (tc_channel c)) \<noteq> kNew"
    by (rule change_channel_index [OF p(1)], rule poller_okD(1) [of interest]) (use ok(1) in \<open>simp add: pollable_def\<close>)
  then show "HasChannel (tc_channel c') (tc_poller c')"
    using ok(2) p(2) poller_okD(2) [of interest p] by (simp add: pollable_def HasChannel_def)
qed

lemma connectDestroyed_not_stuck:
  assumes con: "epoll_contract ctl interest" and ok: "pollable interest c"
  shows "\<exists>e. connectDestroyed ctl c = Inr e \<and> tc_state e = kDisconnected \<and>
     callbacks e = callbacks c @ [ConnectionCb False] \<and>
     interest (kernelState (tc_poller e)) (ch_fd (the_channel c)) = None"
proof -
  let ?c = "c\<lparr>tc_state := kDisconnected\<rparr>"
  have pc: "pollable interest ?c" using ok by (simp add: pollable_def the_channel_def)
  obtain d where d: "channel_do ctl DisableAll ?c = Inr d" "pollable interest d"
    using channel_do_ok [OF con pc] by blast
  note D = channel_do_fields [OF d(1)] channel_do_kept [OF d(1) pc d(2)]
  let ?d = "call_connectionCallback d"
  have pd: "tc_poller ?d = tc_poller d" "tc_channel ?d = tc_channel d"
    by (simp_all add: call_connectionCallback_def call_back_def)
  have okd: "poller_ok interest (tc_poller d)" using d(2) by (simp add: pollable_def)
  obtain p where p: "RemoveChannel ctl (tc_channel d) (tc_poller d) = Inr p" "poller_ok interest p"
    using poller_ok_remove [OF con okd D(11)] by blast
  have "channels p (ch_fd (the_channel c)) = None"
    using RemoveChannel_channels [OF p(1)] D(10) by (simp add: the_channel_def)
  then have "interest (kernelState p) (ch_fd (the_channel c)) = None"
    using p(2) by (simp add: poller_ok_def watched_own)
  then show ?thesis using d p D(4,6) pd
    by (simp add: connectDestroyed_def Let_def) (simp add: call_connectionCallback_def call_back_def connected_def)
qed

text \<open>
  A connection that the peer closes is reported to the user twice: \<open>handleClose\<close>
  reports the disconnection and hands the connection to the close callback, and \<open>connectDestroyed\<close>,
  which the server queues there, reports it again, since its test of the state assigns
  \<open>kConnected\<close>. With the poller in order neither ends the process, and at the end the kernel
  does not watch the descriptor.
\<close>
lemma close_reported_twice:
  assumes "epoll_contract ctl interest" "pollable interest c"
  shows "\<exists>d e. handleClose ctl c = Inr d \<and> connectDestroyed ctl d = Inr e \<and>
     callbacks e = callbacks c @ [ConnectionCb False, CloseCb, ConnectionCb False] \<and>
     tc_state e = kDisconnected \<and> interest (kernelState (tc_poller e)) (ch_fd (the_channel c)) = None"
proof -
  let ?c = "c\<lparr>tc_state := kDisconnected\<rparr>"
  have pc: "pollable interest ?c" using assms(2) by (simp add: pollable_def the_channel_def)
  obtain d where d: "channel_do ctl DisableAll ?c = Inr d" "pollable interest d"
    using channel_do_ok [OF assms(1) pc] by blast
  note D = channel_do_fields [OF d(1)] channel_do_kept [OF d(1) pc d(2)]
  let ?d = "call_back CloseCb (call_connectionCallback d)"
  have h: "handleClose ctl c = Inr ?d" using d(1) by (simp add: handleClose_def)
  have b: "callbacks ?d = callbacks c @ [ConnectionCb False, CloseCb]" "the_channel ?d = the_channel d"
    "pollable interest ?d"
    using D(4,6) d(2) by (simp_all add: call_connectionCallback_def connected_def call_back_def the_channel_def
        pollable_def)
  have "ch_fd (the_channel ?c) = ch_fd (the_channel c)" by (simp add: the_channel_def)
  then show ?thesis using h connectDestroyed_not_stuck [OF assms(1) b(3)] b(1,2) D(10) by auto
qed

lemma close_reported_twice_example:
  "\<exists>c d e :: (int \<Rightarrow> (events \<times> nat) option) TcpConnection.
     connectEstablished map_ctl c = Inr d \<and> handleClose map_ctl d = Inr e \<and>
     is_ok (connectDestroyed map_ctl e)"
proof -
  obtain p :: "(int \<Rightarrow> (events \<times> nat) option) EPollPoller" where
    "poller_ok (\<lambda>k. k) p" "ch_index (chans p 0) = kNew" "channels p 7 = None"
    using example_poller by blast
  then obtain c :: "(int \<Rightarrow> (events \<times> nat) option) TcpConnection" where c: "pollable (\<lambda>k. k) c"
    using new_TcpConnection_pollable by blast
  obtain d where d: "connectEstablished map_ctl c = Inr d" "pollable (\<lambda>k. k) d"
    using connectEstablished_not_stuck [OF map_ctl_contract c] by blast
  show ?thesis using close_reported_twice [OF map_ctl_contract d(2)] d(1) by (auto simp: is_ok_iff)
qed
end
