(* ===== verification/Reactor.thy ===== *)
theory Reactor
  imports ConnectionStream
begin

text \<open>
  The dispatch of a connection's events: \<open>Channel::HandleEvent\<close> with the four callbacks that the
  constructor of \<open>TcpConnection\<close> binds. The reported events are read before each callback and no
  callback changes them, so the list of callbacks is fixed first (\<open>HandleEvent\<close>) and then run in order
  on the connection. \<open>alive\<close> says that the tied object still exists. A run gives the bytes written.
\<close>

fun run_callback :: "'k epoll_ctl \<Rightarrow> (string \<Rightarrow> int + nat) \<Rightarrow> (nat list \<Rightarrow> int + string) \<Rightarrow> callback \<Rightarrow>
    'k TcpConnection \<Rightarrow> (string \<times> 'k TcpConnection) result" where
  "run_callback ctl write readv CloseCallback c = rbind (handleClose ctl c) (\<lambda>c. Inr ([], c))"
| "run_callback ctl write readv ErrorCallback c = Inr ([], handleError c)"
| "run_callback ctl write readv ReadCallback c = rbind (handleRead ctl readv c) (\<lambda>c. Inr ([], c))"
| "run_callback ctl write readv WriteCallback c = handleWrite ctl write c"

fun run_callbacks :: "'k epoll_ctl \<Rightarrow> (string \<Rightarrow> int + nat) \<Rightarrow> (nat list \<Rightarrow> int + string) \<Rightarrow> callback list \<Rightarrow>
    'k TcpConnection \<Rightarrow> (string \<times> 'k TcpConnection) result" where
  "run_callbacks ctl write readv [] c = Inr ([], c)"
| "run_callbacks ctl write readv (cb # cbs) c =
     rbind (run_callback ctl write readv cb c) (\<lambda>(bytes, c).
     rbind (run_callbacks ctl write readv cbs c) (\<lambda>(more, c). Inr (bytes @ more, c)))"

definition dispatch :: "'k epoll_ctl \<Rightarrow> (string \<Rightarrow> int + nat) \<Rightarrow> (nat list \<Rightarrow> int + string) \<Rightarrow> bool \<Rightarrow>
    'k TcpConnection \<Rightarrow> (string \<times> 'k TcpConnection) result" where
  "dispatch ctl write readv alive c = run_callbacks ctl write readv (HandleEvent alive (the_channel c)) c"

lemma handleClose_done:
  assumes con: "epoll_contract ctl interest" and ok: "pollable interest c"
  shows "\<exists>d. handleClose ctl c = Inr d \<and> pollable interest d \<and> tc_state d = kDisconnected \<and>
     \<not> IsWriting (the_channel d) \<and> callbacks d = callbacks c @ [ConnectionCb False, CloseCb] \<and>
     inputBuffer d = inputBuffer c"
proof -
  let ?c = "c\<lparr>tc_state := kDisconnected\<rparr>"
  have "pollable interest ?c" using ok by (simp add: pollable_def the_channel_def)
  then obtain d where d: "channel_do ctl DisableAll ?c = Inr d" "pollable interest d"
    using channel_do_ok [OF con] by blast
  let ?d = "call_back CloseCb (call_connectionCallback d)"
  have h: "handleClose ctl c = Inr ?d" using d(1) by (simp add: handleClose_def)
  have p: "pollable interest ?d" using d(2) by (simp add: pollable_def call_connectionCallback_def call_back_def the_channel_def)
  have f: "the_channel (call_connectionCallback d) = the_channel d" "inputBuffer ?d = inputBuffer d"
    by (simp_all add: call_connectionCallback_def call_back_def the_channel_def)
  have "callbacks ?d = callbacks c @ [ConnectionCb False, CloseCb]" "tc_state ?d = kDisconnected"
    using channel_do_fields(4,6) [OF d(1)] by (simp_all add: call_connectionCallback_def connected_def)
  moreover have "\<not> IsWriting (the_channel ?d)" "inputBuffer ?d = inputBuffer c"
    using channel_do_fields(1,3) [OF d(1)] by (simp_all add: f IsWriting_def)
  ultimately show ?thesis using h p by blast
qed

lemma handleWrite_idle: "\<not> IsWriting (the_channel c) \<Longrightarrow> handleWrite ctl write c = Inr ([], c)"
  by (simp add: handleWrite_def)

lemma handleRead_eof:
  assumes "readv (iov_lens (inputBuffer c)) = Inr []" "buffer_ok (inputBuffer c)"
  shows "handleRead ctl readv c = handleClose ctl c"
proof -
  let ?b = "inputBuffer c"
  have w: "unat (writerIndex ?b) \<le> length (buffer ?b)" using assms(2) by (simp add: buffer_ok_def)
  then have "copy_bytes (take (unat (writeableBytes ?b)) []) (writerIndex ?b) (buffer ?b) = Inr (buffer ?b)"
    by (simp add: copy_bytes_def)
  then have "readFd readv ?b = Inr (Inr 0, ?b)" using assms(1) by (simp add: readFd_def Let_def)
  then show ?thesis by (simp add: handleRead_def)
qed

lemma hangup_callbacks:
  assumes "ch_tied ch" "closeEventCallback ch" "readEventCallback ch" "writeEventCallback ch"
    and "ch_revent ch AND EPOLLHUP \<noteq> 0" "ch_revent ch AND EPOLLIN = 0"
  shows "HandleEvent True ch = CloseCallback #
     (if ch_revent ch AND EPOLLERR \<noteq> 0 \<and> errorEventCallback ch then [ErrorCallback] else []) @
     (if ch_revent ch AND EPOLLPRI \<noteq> 0 then [ReadCallback] else []) @
     (if ch_revent ch AND EPOLLOUT \<noteq> 0 then [WriteCallback] else [])"
  using assms by (simp add: HandleEvent_def HandleEventWithGuard_def bit.conj_disj_distrib)

text \<open>Without data to read, the close comes first and every later callback of the dispatch finds it done.\<close>

lemma hangup_without_data:
  assumes "epoll_contract ctl interest" "pollable interest c" "ch_tied (the_channel c)"
    and "writeEventCallback (the_channel c)" "closeEventCallback (the_channel c)" "readEventCallback (the_channel c)"
    and "ch_revent (the_channel c) AND EPOLLHUP \<noteq> 0" "ch_revent (the_channel c) AND EPOLLIN = 0"
    and "readv (iov_lens (inputBuffer c)) = Inr []" "buffer_ok (inputBuffer c)"
  shows "\<exists>d. dispatch ctl write readv True c = Inr ([], d) \<and> tc_state d = kDisconnected \<and>
     callbacks d = callbacks c @ (if ch_revent (the_channel c) AND EPOLLPRI = 0 then [ConnectionCb False, CloseCb]
       else [ConnectionCb False, CloseCb, ConnectionCb False, CloseCb])"
proof -
  obtain d where d: "handleClose ctl c = Inr d" "pollable interest d" "tc_state d = kDisconnected"
    "\<not> IsWriting (the_channel d)" "callbacks d = callbacks c @ [ConnectionCb False, CloseCb]"
    "inputBuffer d = inputBuffer c"
    using handleClose_done [OF assms(1,2)] by blast
  obtain e where e: "handleClose ctl d = Inr e" "tc_state e = kDisconnected" "\<not> IsWriting (the_channel e)"
    "callbacks e = callbacks d @ [ConnectionCb False, CloseCb]"
    using handleClose_done [OF assms(1) d(2)] by blast
  have read: "handleRead ctl readv d = Inr e" using handleRead_eof [of readv d] assms(9,10) d(6) e(1) by simp
  note idle = handleWrite_idle [OF d(4)] handleWrite_idle [OF e(3)]
  note cbs = hangup_callbacks [OF assms(3,5,6,4,7,8)]
  show ?thesis using d(1,3,5) e(2,4) read idle
    by (simp add: dispatch_def cbs handleError_def)
qed

text \<open>With data to read, the close callback is skipped: the data is delivered and the connection goes on.\<close>

lemma readable_callbacks:
  assumes "ch_tied ch" "readEventCallback ch" "ch_revent ch AND EPOLLIN \<noteq> 0"
  shows "HandleEvent True ch = (if ch_revent ch AND EPOLLERR \<noteq> 0 \<and> errorEventCallback ch then [ErrorCallback] else []) @
     ReadCallback # (if ch_revent ch AND EPOLLOUT \<noteq> 0 \<and> writeEventCallback ch then [WriteCallback] else [])"
proof -
  have "ch_revent ch AND (EPOLLIN OR EPOLLPRI) \<noteq> 0"
  proof
    assume "ch_revent ch AND (EPOLLIN OR EPOLLPRI) = 0"
    then have "(ch_revent ch AND (EPOLLIN OR EPOLLPRI)) AND EPOLLIN = 0" by simp
    then show False using assms(3) by (simp add: EPOLLIN_def EPOLLPRI_def and.assoc)
  qed
  then show ?thesis using assms by (simp add: HandleEvent_def HandleEventWithGuard_def)
qed

definition incoming :: "(nat list \<Rightarrow> int + string) \<Rightarrow> string \<Rightarrow> Buffer \<Rightarrow> bool" where
  "incoming readv data b \<longleftrightarrow> readv (iov_lens b) = Inr data \<and> data \<noteq> [] \<and> length data \<le> sum_list (iov_lens b) \<and>
     buffer_ok b \<and> length (buffer b) + extrabuf_size \<le> max_append"

lemma hangup_with_data:
  assumes "epoll_contract ctl interest" "pollable interest c" "ch_tied (the_channel c)" "readEventCallback (the_channel c)"
    and "ch_revent (the_channel c) AND EPOLLIN \<noteq> 0" "conn_ok c" "write_contract write" "incoming readv data (inputBuffer c)"
  shows "\<exists>bytes d. dispatch ctl write readv True c = Inr (bytes, d) \<and> tc_state d = tc_state c \<and>
     callbacks d = callbacks c @ [MessageCb (contents (inputBuffer c) @ data)] \<and>
     bytes @ contents (outputBuffer d) = contents (outputBuffer c)"
proof -
  obtain b where b: "readFd readv (inputBuffer c) = Inr (Inr (length data), b)" "contents b = contents (inputBuffer c) @ data"
    using readFd_ok [of "inputBuffer c" readv data] assms(8) by (auto simp: incoming_def)
  define d where "d = call_back (MessageCb (contents b)) (c\<lparr>inputBuffer := b\<rparr>)"
  have r: "handleRead ctl readv c = Inr d" using b assms(8) by (simp add: handleRead_def d_def incoming_def)
  have d: "pollable interest d" "conn_ok d" "tc_state d = tc_state c" "outputBuffer d = outputBuffer c"
    "callbacks d = callbacks c @ [MessageCb (contents b)]"
    using assms(2,6) by (simp_all add: d_def call_back_def pollable_def conn_ok_def the_channel_def)
  obtain bytes e where w: "handleWrite ctl write d = Inr (bytes, e)"
    using handler_not_stuck(2) [OF assms(1) d(1,2), of "write"] by (auto simp: is_ok_iff)
  note W = handleWrite_ok [OF d(2) assms(7) w]
  show ?thesis unfolding dispatch_def readable_callbacks [OF assms(3-5)]
    using r w d W b(2) by (simp add: handleError_def)
qed


text \<open>A connection that was just made, with events reported for its channel.\<close>

lemma reported_connection:
  "\<exists>c :: (int \<Rightarrow> (events \<times> nat) option) TcpConnection. pollable (\<lambda>k. k) c \<and> buffer_ok (inputBuffer c) \<and> length (buffer (inputBuffer c)) = 1032 \<and>
     contents (inputBuffer c) = [] \<and> callbacks c = [] \<and> conn_ok c \<and> tc_state c = kConnecting \<and>
     ch_tied (the_channel c) \<and> writeEventCallback (the_channel c) \<and> closeEventCallback (the_channel c) \<and>
     readEventCallback (the_channel c) \<and> ch_revent (the_channel c) = e"
proof -
  obtain p :: "(int \<Rightarrow> (events \<times> nat) option) EPollPoller" where
    "poller_ok (\<lambda>k. k) p" "ch_index (chans p 0) = kNew" "channels p 7 = None"
    using example_poller by blast
  then obtain c0 where c0: "new_TcpConnection False ''c'' 7 0 p = Inr c0" "pollable (\<lambda>k. k) c0"
    using new_TcpConnection_pollable by blast
  let ?c = "with_channel (\<lambda>x. set_revents e (tie x)) c0"
  have ok: "pollable (\<lambda>k. k) ?c" by (rule pollable_with_channel [OF _ c0(2)]) (simp add: set_revents_def tie_def)
  have k: "8 + unat kInitialSize \<le> max_size" by (simp add: kInitialSize_def max_size_def)
  have b: "buffer_ok (inputBuffer ?c)" "length (buffer (inputBuffer ?c)) = 1032" "callbacks ?c = []" "contents (inputBuffer ?c) = []"
    using c0(1) new_Buffer_ok [OF k]
    by (auto simp: new_TcpConnection_def rbind_Inr_iff Let_def with_channel_def kInitialSize_def)
  have f: "writeEventCallback (the_channel c0)" "closeEventCallback (the_channel c0)" "readEventCallback (the_channel c0)"
    using c0(1) by (auto simp: new_TcpConnection_def rbind_Inr_iff Let_def the_channel_def)
  have ch: "the_channel ?c = set_revents e (tie (the_channel c0))"
    by (simp add: with_channel_def the_channel_def)
  have "conn_ok ?c" "tc_state ?c = kConnecting" using new_TcpConnection_ok [OF c0(1)]
    by (simp_all add: conn_ok_def with_channel_def the_channel_def set_revents_def tie_def IsWriting_def)
  then show ?thesis using ok b ch f by (intro exI [of _ ?c]) (simp add: set_revents_def tie_def)
qed

end
