(* ===== verification/Acceptor.thy ===== *)
theory Acceptor
  imports NetUtil EventPoller
begin

text \<open>
  The listening socket: class \<open>Acceptor\<close> of \<open>Acceptor.h\<close> and \<open>Acceptor.cc\<close>, with its channel in the
  poller of \<open>EventPoller\<close>. \<open>'s\<close> is the kernel's state of the sockets; the socket calls are parameters.

  The parameter \<open>reuseport\<close> is not read: both options are always switched on. \<open>handleRead\<close> takes the
  descriptor 0 for a failure.
\<close>

record Acceptor =
  acc_fd :: int
  acc_channel :: nat
  has_newConnection :: bool
  acc_listening :: bool

definition createNonBlock :: "('s \<Rightarrow> int \<times> 's) \<Rightarrow> 's \<Rightarrow> (int \<times> 's) result" where
  "createNonBlock socket s = (let (sockfd, s) = socket s in if sockfd < 0 then Inl Exits else Inr (sockfd, s))"

definition new_Acceptor :: "('s \<Rightarrow> int \<times> 's) \<Rightarrow> (int \<Rightarrow> sockopt \<Rightarrow> int \<Rightarrow> 's \<Rightarrow> 's) \<Rightarrow>
    (int \<Rightarrow> sockaddr_in \<Rightarrow> 's \<Rightarrow> int \<times> 's) \<Rightarrow> sockaddr_in \<Rightarrow> bool \<Rightarrow> nat \<Rightarrow> 's \<Rightarrow> 'k EPollPoller \<Rightarrow>
    (Acceptor \<times> 's \<times> 'k EPollPoller) result" where
  "new_Acceptor socket setsockopt bind addr reuseport ptr s p =
     rbind (createNonBlock socket s) (\<lambda>(fd, s).
       let s = SetReuseAddr setsockopt True fd s;
           s = SetReusePort setsockopt True fd s
       in rbind (BindAddress bind addr fd s) (\<lambda>s.
          let p = p\<lparr>chans := (chans p)(ptr := SetReadEventCallback (new_Channel fd))\<rparr>
          in Inr (\<lparr>acc_fd = fd, acc_channel = ptr, has_newConnection = False, acc_listening = False\<rparr>, s, p)))"

definition SetNewConnectionCB :: "Acceptor \<Rightarrow> Acceptor" where
  "SetNewConnectionCB a = a\<lparr>has_newConnection := True\<rparr>"

definition acceptor_listen :: "(int \<Rightarrow> int \<Rightarrow> 's \<Rightarrow> int \<times> 's) \<Rightarrow> 'k epoll_ctl \<Rightarrow> Acceptor \<Rightarrow> 's \<Rightarrow> 'k EPollPoller \<Rightarrow>
    (Acceptor \<times> 's \<times> 'k EPollPoller) result" where
  "acceptor_listen listen ctl a s p =
     (let a = a\<lparr>acc_listening := True\<rparr>
      in rbind (Listen listen (acc_fd a) s) (\<lambda>s.
         rbind (change_channel ctl EnableRead (acc_channel a) p) (\<lambda>p. Inr (a, s, p))))"

text \<open>A new descriptor goes to the callback, which owns it from then on, or is closed.\<close>

datatype accept_outcome = Handed int sockaddr_in | ClosedAgain int | AcceptFailed

definition acceptor_handleRead :: "(int \<Rightarrow> int \<Rightarrow> 's \<Rightarrow> int \<times> sockaddr_in \<times> 's) \<Rightarrow> (int \<Rightarrow> 's \<Rightarrow> 's) \<Rightarrow>
    int \<Rightarrow> sockaddr_in \<Rightarrow> Acceptor \<Rightarrow> 's \<Rightarrow> accept_outcome \<times> 's" where
  "acceptor_handleRead accept close_fd len peer a s =
     (let (connfd, peer, s) = Accept accept len (acc_fd a) peer s
      in if 0 < connfd
         then if has_newConnection a then (Handed connfd peer, s) else (ClosedAgain connfd, close_fd connfd s)
         else (AcceptFailed, s))"

definition delete_Acceptor :: "'k epoll_ctl \<Rightarrow> (int \<Rightarrow> 's \<Rightarrow> 's) \<Rightarrow> Acceptor \<Rightarrow> 's \<Rightarrow> 'k EPollPoller \<Rightarrow>
    ('s \<times> 'k EPollPoller) result" where
  "delete_Acceptor ctl close_fd a s p =
     rbind (change_channel ctl DisableAll (acc_channel a) p) (\<lambda>p.
     rbind (RemoveChannel ctl (acc_channel a) p) (\<lambda>p. Inr (delete_Socket close_fd (acc_fd a) s, p)))"

lemma new_Acceptor_ok:
  assumes "new_Acceptor socket setsockopt bind addr reuseport ptr s p = Inr (a, s', p')"
    and ok: "poller_ok interest p" "ch_index (chans p ptr) = kNew"
  shows "poller_ok interest p'" "acc_channel a = ptr" "channels p' = channels p" "ch_index (chans p' ptr) = kNew"
    "ch_fd (chans p' ptr) = acc_fd a" "ch_event (chans p' ptr) = 0" "0 \<le> acc_fd a"
proof -
  have p': "p' = p\<lparr>chans := (chans p)(ptr := (new_Channel (acc_fd a))\<lparr>readEventCallback := True\<rparr>)\<rparr>"
    "acc_channel a = ptr" "0 \<le> acc_fd a"
    using assms(1) by (auto simp: new_Acceptor_def createNonBlock_def rbind_Inr_iff Let_def split: if_splits prod.splits)
  then show "poller_ok interest p'" "acc_channel a = ptr" "channels p' = channels p" "ch_index (chans p' ptr) = kNew"
    "ch_fd (chans p' ptr) = acc_fd a" "ch_event (chans p' ptr) = 0" "0 \<le> acc_fd a"
    using poller_ok_fresh [OF ok] by (simp_all add: new_Channel_index) (simp add: new_Channel_def)
qed

text \<open>
  A listening socket is watched: once \<open>listen\<close> has returned the kernel reports connections on
  the descriptor of the acceptor to its channel, and from the return of the destructor on it no
  longer does.
\<close>
lemma listening_is_watched:
  assumes "epoll_contract ctl interest" "poller_ok interest p" "ch_index (chans p ptr) = kNew"
    and "new_Acceptor socket setsockopt bind addr reuseport ptr s p = Inr (a, s1, p1)" "channels p (acc_fd a) = None"
    and "fst (listen (acc_fd a) 1024 s1) = 0"
  shows "\<exists>b s2 p2 s3 p3. acceptor_listen listen ctl a s1 p1 = Inr (b, s2, p2) \<and> acc_listening b \<and>
     interest (kernelState p2) (acc_fd a) = Some (kReadEvent, ptr) \<and>
     delete_Acceptor ctl close_fd b s2 p2 = Inr (s3, p3) \<and> interest (kernelState p3) (acc_fd a) = None"
proof -
  note con = assms(1)
  note N = new_Acceptor_ok [OF assms(4,2,3)]
  let ?b = "a\<lparr>acc_listening := True\<rparr>"
  have "poller_legal (Change EnableRead ptr) p1" using N(3,5) assms(5) by simp
  from poller_ok_change [OF con N(1) this]
  obtain p2 where p2: "change_channel ctl EnableRead ptr p1 = Inr p2" "poller_ok interest p2" by blast
  have i2: "ch_index (chans p2 ptr) = kAdded"
    by (rule change_channel_read [OF p2(1)]) (simp add: N(4))
  note F = change_channel_frame [OF p2(1)]
  have has2: "channels p2 (acc_fd a) = Some ptr"
    using poller_okD(2) [OF p2(2), of ptr] i2 F N(5) by simp
  have w2: "interest (kernelState p2) (acc_fd a) = Some (kReadEvent, ptr)"
    using poller_okD(4) [OF p2(2)] watched_own(1) [OF has2] i2 F N(6) by simp
  have l: "acceptor_listen listen ctl a s1 p1 = Inr (?b, snd (listen (acc_fd a) 1024 s1), p2)"
    using assms(6) p2(1) N(2)
    by (cases "listen (acc_fd a) 1024 s1") (simp add: acceptor_listen_def Listen_def)
  have "poller_legal (Change DisableAll ptr) p2" using i2 by simp
  from poller_ok_change [OF con p2(2) this]
  obtain p3 where p3: "change_channel ctl DisableAll ptr p2 = Inr p3" "poller_ok interest p3" by blast
  note G = change_channel_frame [OF p3(1)]
  have i3: "ch_index (chans p3 ptr) \<noteq> kNew"
    by (rule change_channel_index [OF p3(1)]) (simp add: i2)
  have has3: "HasChannel ptr p3" using poller_okD(2) [OF p3(2) i3] by (simp add: HasChannel_def)
  obtain p4 where p4: "RemoveChannel ctl ptr p3 = Inr p4" "poller_ok interest p4"
    using poller_ok_remove [OF con p3(2) has3] by blast
  have "channels p4 (acc_fd a) = None"
    using RemoveChannel_channels [OF p4(1)] F G N(5) by simp
  then have "interest (kernelState p4) (acc_fd a) = None"
    using poller_okD(4) [OF p4(2)] watched_own(2) by simp
  then show ?thesis using l w2 p3(1) p4(1) N(2) by (simp add: delete_Acceptor_def)
qed

lemma listening_is_watched_example:
  "\<exists>a s1 p1 b s2 p2. new_Acceptor (\<lambda>s :: unit. (5, s)) (\<lambda>fd opt v s. s) (\<lambda>fd addr s. (0, s))
       (new_InetAddress (\<lambda>_. 0x0100007F) 8080 ''127.0.0.1'') False 0 ()
       \<lparr>channels = Map.empty, chans = (\<lambda>_. new_Channel 0), kernelState = Map.empty, eventList = []\<rparr> = Inr (a, s1, p1) \<and>
     acceptor_listen (\<lambda>fd n s. (0, s)) map_ctl a s1 p1 = Inr (b, s2, p2) \<and>
     kernelState p2 5 = Some (kReadEvent, 0)"
proof -
  let ?p = "\<lparr>channels = Map.empty, chans = (\<lambda>_. new_Channel 0), kernelState = Map.empty, eventList = []\<rparr>
    :: (int \<Rightarrow> (events \<times> nat) option) EPollPoller"
  let ?new = "new_Acceptor (\<lambda>s :: unit. (5, s)) (\<lambda>fd opt v s. s) (\<lambda>fd addr s. (0, s))
       (new_InetAddress (\<lambda>_. 0x0100007F) 8080 ''127.0.0.1'') False 0 () ?p"
  have ok: "poller_ok (\<lambda>k. k) ?p" by (rule poller_okI) (auto simp: new_Channel_index watched_def)
  have k: "ch_index (chans ?p 0) = kNew" by (simp add: new_Channel_index)
  obtain a s1 p1 where n: "?new = Inr (a, s1, p1)" "acc_fd a = 5"
    by (simp add: new_Acceptor_def createNonBlock_def BindAddress_def)
  have "channels ?p (acc_fd a) = None" by simp
  from listening_is_watched [OF map_ctl_contract ok k n(1) this, of "\<lambda>fd n s. (0, s)" "\<lambda>fd s. s"]
  show ?thesis using n by auto
qed
end
