(* ===== verification/LoopPool.thy ===== *)
theory LoopPool
  imports NetUtil
begin

text \<open>
  The pool of the loops of a server: class \<open>EventLoopThreadPool\<close> of \<open>EventLoopThreadPool.h\<close> and
  \<open>EventLoopThreadPool.cc\<close>. Loops are numbered; \<open>threads\<close> holds the names of the threads.
\<close>

record EventLoopThreadPool =
  baseloop :: nat
  pool_name :: string
  pool_started :: bool
  numThreads :: int
  next_loop :: nat
  threads :: "string list"
  loops :: "nat list"

definition new_EventLoopThreadPool :: "nat \<Rightarrow> string \<Rightarrow> EventLoopThreadPool" where
  "new_EventLoopThreadPool base name = \<lparr>baseloop = base, pool_name = name, pool_started = False, numThreads = 0,
     next_loop = 0, threads = [], loops = []\<rparr>"

definition SetThreadNum :: "int \<Rightarrow> EventLoopThreadPool \<Rightarrow> EventLoopThreadPool" where
  "SetThreadNum n p = p\<lparr>numThreads := n\<rparr>"

text \<open>
  \<open>startloop i\<close> is the loop of the \<open>i\<close>-th thread. Without threads the callback is called for the base
  loop, set or not; the call of an empty \<open>std::function\<close> throws.
\<close>

definition start_thread :: "(nat \<Rightarrow> nat) \<Rightarrow> nat \<Rightarrow> EventLoopThreadPool \<Rightarrow> EventLoopThreadPool" where
  "start_thread startloop i p =
     (let buf = snprintf (length (pool_name p) + 32) (c_str (pool_name p) @ fmt_d (int i))
      in p\<lparr>threads := threads p @ [buf], loops := loops p @ [startloop i]\<rparr>)"

definition pool_Start :: "(nat \<Rightarrow> nat) \<Rightarrow> bool \<Rightarrow> EventLoopThreadPool \<Rightarrow> EventLoopThreadPool result" where
  "pool_Start startloop has_cb p =
     (let p = p\<lparr>pool_started := True\<rparr>;
          p = fold (start_thread startloop) [0..<nat (numThreads p)] p
      in if numThreads p = 0 \<and> \<not> has_cb then Inl Throws else Inr p)"

definition GetNextLoop :: "EventLoopThreadPool \<Rightarrow> (nat \<times> EventLoopThreadPool) result" where
  "GetNextLoop p =
     (if loops p \<noteq> [] then
        if next_loop p < length (loops p) then
          let loop = loops p ! next_loop p;
              p = p\<lparr>next_loop := next_loop p + 1\<rparr>;
              p = (if length (loops p) < next_loop p then p\<lparr>next_loop := 0\<rparr> else p)
          in Inr (loop, p)
        else Inl OutOfBounds
      else Inr (baseloop p, p))"

definition GetAllLoops :: "EventLoopThreadPool \<Rightarrow> nat list" where
  "GetAllLoops p = (if loops p = [] then [baseloop p] else loops p)"

subsection \<open>Handing out loops\<close>

fun get_loops :: "nat \<Rightarrow> EventLoopThreadPool \<Rightarrow> (nat list \<times> EventLoopThreadPool) result" where
  "get_loops 0 p = Inr ([], p)"
| "get_loops (Suc k) p = rbind (GetNextLoop p) (\<lambda>(l, p). rbind (get_loops k p) (\<lambda>(ls, p). Inr (l # ls, p)))"

lemma get_loops_within:
  "loops p \<noteq> [] \<Longrightarrow> next_loop p + k \<le> length (loops p) \<Longrightarrow>
   get_loops k p = Inr (take k (drop (next_loop p) (loops p)), p\<lparr>next_loop := next_loop p + k\<rparr>)"
proof (induction k arbitrary: p)
  case (Suc k)
  let ?q = "p\<lparr>next_loop := next_loop p + 1\<rparr>"
  have lt: "next_loop p < length (loops p)" using Suc.prems by simp
  then have "GetNextLoop p = Inr (loops p ! next_loop p, ?q)"
    using Suc.prems(1) by (simp add: GetNextLoop_def Let_def)
  moreover have "get_loops k ?q = Inr (take k (drop (next_loop p + 1) (loops p)), ?q\<lparr>next_loop := next_loop p + 1 + k\<rparr>)"
    using Suc.IH [of ?q] Suc.prems by simp
  ultimately show ?case using lt by (simp add: Cons_nth_drop_Suc [symmetric])
qed simp

lemma get_loops_beyond:
  "loops p \<noteq> [] \<Longrightarrow> next_loop p \<le> length (loops p) \<Longrightarrow> length (loops p) < next_loop p + k \<Longrightarrow>
   get_loops k p = Inl OutOfBounds"
proof (induction k arbitrary: p)
  case (Suc k)
  show ?case
  proof (cases "next_loop p < length (loops p)")
    case True
    then show ?thesis using Suc.prems Suc.IH [of "p\<lparr>next_loop := next_loop p + 1\<rparr>"]
      by (simp add: GetNextLoop_def Let_def)
  next
    case False
    then show ?thesis using Suc.prems by (simp add: GetNextLoop_def)
  qed
qed simp

lemma start_threads:
  "fold (start_thread startloop) [0..<n] p = p\<lparr>threads := threads p @ map (\<lambda>i. snprintf (length (pool_name p) + 32)
       (c_str (pool_name p) @ fmt_d (int i))) [0..<n], loops := loops p @ map startloop [0..<n]\<rparr>"
  by (induction n) (simp_all add: start_thread_def Let_def)

lemma pool_Start_loops:
  "pool_Start startloop has_cb p = Inr q \<Longrightarrow>
   loops q = loops p @ map startloop [0..<nat (numThreads p)] \<and> next_loop q = next_loop p \<and> baseloop q = baseloop p"
  by (auto simp: pool_Start_def Let_def start_threads split: if_splits)

text \<open>
  A pool of worker loops serves each of them once and then fails: after the loops of the threads
  have been handed out in order, the next call reads past the end of the vector, because the
  index wraps one step too late. So a server with \<open>n\<close> threads accepts \<open>n\<close> connections.
\<close>
lemma workers_run_out:
  assumes "pool_Start startloop has_cb (SetThreadNum n (new_EventLoopThreadPool base name)) = Inr p" "0 < n"
  shows "get_loops (nat n) p = Inr (map startloop [0..<nat n], p\<lparr>next_loop := nat n\<rparr>) \<and>
     get_loops (nat n + 1) p = Inl OutOfBounds"
proof -
  have l: "loops p = map startloop [0..<nat n]" "next_loop p = 0"
    using pool_Start_loops [OF assms(1)] by (simp_all add: SetThreadNum_def new_EventLoopThreadPool_def)
  then have "loops p \<noteq> []" "length (loops p) = nat n" using assms(2) by simp_all
  then show ?thesis using get_loops_within [of p "nat n"] get_loops_beyond [of p "nat n + 1"] l by simp
qed

lemma workers_run_out_example:
  "\<exists>p. pool_Start (\<lambda>i. i + 10) False (SetThreadNum 2 (new_EventLoopThreadPool 0 ''srv'')) = Inr p \<and>
     get_loops 2 p = Inr ([10, 11], p\<lparr>next_loop := 2\<rparr>) \<and> get_loops 3 p = Inl OutOfBounds"
proof -
  have "\<exists>p. pool_Start (\<lambda>i. i + 10) False (SetThreadNum 2 (new_EventLoopThreadPool 0 ''srv'')) = Inr p"
    by (simp add: pool_Start_def Let_def start_threads SetThreadNum_def)
  then obtain p where p: "pool_Start (\<lambda>i. i + 10) False (SetThreadNum 2 (new_EventLoopThreadPool 0 ''srv'')) = Inr p"
    by blast
  have "map (\<lambda>i. i + 10) [0..<nat 2] = [10, 11 :: nat]" by (simp add: upt_rec)
  then show ?thesis using p workers_run_out [OF p] by (auto simp: numeral_3_eq_3)
qed

lemma no_threads_no_callback:
  "numThreads p = 0 \<Longrightarrow> pool_Start startloop False p = Inl Throws"
  by (simp add: pool_Start_def Let_def start_threads)

end
