(* ===== verification/TcpServer.thy ===== *)
theory TcpServer
  imports Acceptor LoopPool
begin

text \<open>
  The server: class \<open>TcpServer\<close> of \<open>TcpServer.h\<close> and \<open>TcpServer.cc\<close>.

  Loops are numbered, and so are connections, in the order of their creation; \<open>made\<close> holds what the
  server gave each of them. \<open>srv_queue\<close> is what the server has queued in the loops, as pairs of a loop
  and a task, oldest first; \<open>srv_ran\<close> the tasks run so far. \<open>cur\<close> is the loop whose thread calls:
  \<open>RunInLoop\<close> runs the task at once when that is the target. What an \<open>EstablishTask\<close> or a
  \<open>DestroyTask\<close> does to the connection is in \<open>TcpConnection\<close>.
\<close>

subsection \<open>The server\<close>

datatype server_task = ListenTask | EstablishTask nat | RemoveTask nat | DestroyTask nat

record conn_info =
  ci_name :: string
  ci_loop :: nat
  ci_fd :: int
  ci_local :: sockaddr_in
  ci_peer :: sockaddr_in

record TcpServer =
  srv_name :: string
  srv_ipPort :: string
  acceptor :: Acceptor
  threadPool :: EventLoopThreadPool
  srv_started :: int
  nextConnId :: int
  connections :: "string \<rightharpoonup> nat"
  made :: "conn_info list"
  srv_queue :: "(nat \<times> server_task) list"
  srv_ran :: "server_task list"

definition CheckloopNotNull :: "nat option \<Rightarrow> nat result" where
  "CheckloopNotNull loop = (case loop of None \<Rightarrow> Inl Exits | Some l \<Rightarrow> Inr l)"

definition new_TcpServer :: "('s \<Rightarrow> int \<times> 's) \<Rightarrow> (int \<Rightarrow> sockopt \<Rightarrow> int \<Rightarrow> 's \<Rightarrow> 's) \<Rightarrow>
    (int \<Rightarrow> sockaddr_in \<Rightarrow> 's \<Rightarrow> int \<times> 's) \<Rightarrow> nat option \<Rightarrow> sockaddr_in \<Rightarrow> string \<Rightarrow> bool \<Rightarrow> nat \<Rightarrow> 's \<Rightarrow>
    'k EPollPoller \<Rightarrow> (TcpServer \<times> 's \<times> 'k EPollPoller) result" where
  "new_TcpServer socket setsockopt bind loop listenAddr name noReusePort ptr s p =
     rbind (CheckloopNotNull loop) (\<lambda>base.
     rbind (ToIpPort listenAddr) (\<lambda>ipPort.
     rbind (new_Acceptor socket setsockopt bind listenAddr noReusePort ptr s p) (\<lambda>(a, s, p).
     Inr (\<lparr>srv_name = name, srv_ipPort = ipPort, acceptor = SetNewConnectionCB a,
           threadPool = new_EventLoopThreadPool base name, srv_started = 0, nextConnId = 1,
           connections = Map.empty, made = [], srv_queue = [], srv_ran = []\<rparr>, s, p))))"

definition setThreadNum :: "int \<Rightarrow> TcpServer \<Rightarrow> TcpServer" where
  "setThreadNum n sv = sv\<lparr>threadPool := SetThreadNum n (threadPool sv)\<rparr>"

definition queue_in :: "nat \<Rightarrow> server_task \<Rightarrow> TcpServer \<Rightarrow> TcpServer" where
  "queue_in loop t sv = sv\<lparr>srv_queue := srv_queue sv @ [(loop, t)]\<rparr>"

definition removeConnectionInLoop :: "nat \<Rightarrow> TcpServer \<Rightarrow> TcpServer" where
  "removeConnectionInLoop c sv =
     (let sv = sv\<lparr>connections := (connections sv)(ci_name (made sv ! c) := None)\<rparr>
      in queue_in (ci_loop (made sv ! c)) (DestroyTask c) sv)"

definition run_task :: "server_task \<Rightarrow> TcpServer \<Rightarrow> TcpServer" where
  "run_task t sv =
     (let sv = sv\<lparr>srv_ran := srv_ran sv @ [t]\<rparr>
      in case t of RemoveTask c \<Rightarrow> removeConnectionInLoop c sv | _ \<Rightarrow> sv)"

definition run_in :: "nat \<Rightarrow> nat \<Rightarrow> server_task \<Rightarrow> TcpServer \<Rightarrow> TcpServer" where
  "run_in cur loop t sv = (if cur = loop then run_task t sv else queue_in loop t sv)"

definition TcpServer_start :: "(nat \<Rightarrow> nat) \<Rightarrow> bool \<Rightarrow> nat \<Rightarrow> TcpServer \<Rightarrow> TcpServer result" where
  "TcpServer_start startloop has_cb cur sv =
     (let old = srv_started sv; sv = sv\<lparr>srv_started := old + 1\<rparr>
      in if old = 0
         then rbind (pool_Start startloop has_cb (threadPool sv)) (\<lambda>p.
              let sv = sv\<lparr>threadPool := p\<rparr> in Inr (run_in cur (baseloop p) ListenTask sv))
         else Inr sv)"

definition zero_addr :: sockaddr_in where
  "zero_addr = \<lparr>sin_family = 0, sin_port = 0, s_addr = 0\<rparr>"

definition conn_name :: "string \<Rightarrow> string \<Rightarrow> int \<Rightarrow> string" where
  "conn_name name ipPort n = name @ snprintf 64 (''-'' @ c_str ipPort @ fmt_d n)"

text \<open>\<open>newConnection\<close> is called by the acceptor, on the thread of the base loop \<open>cur\<close>.\<close>

definition newConnection :: "(int \<Rightarrow> sockaddr_in option) \<Rightarrow> nat \<Rightarrow> int \<Rightarrow> sockaddr_in \<Rightarrow> TcpServer \<Rightarrow> TcpServer result" where
  "newConnection getsockname cur sockfd peerAddr sv =
     rbind (GetNextLoop (threadPool sv)) (\<lambda>(ioloop, p).
       if nextConnId sv = 2 ^ 31 - 1 then Inl Overflow
       else
         let sv = sv\<lparr>threadPool := p\<rparr>;
             connName = conn_name (srv_name sv) (srv_ipPort sv) (nextConnId sv);
             sv = sv\<lparr>nextConnId := nextConnId sv + 1\<rparr>;
             localAddr = (case getsockname sockfd of None \<Rightarrow> zero_addr | Some a \<Rightarrow> a);
             conn = length (made sv);
             sv = sv\<lparr>made := made sv @ [\<lparr>ci_name = connName, ci_loop = ioloop, ci_fd = sockfd,
                       ci_local = localAddr, ci_peer = peerAddr\<rparr>],
                     connections := (connections sv)(connName \<mapsto> conn)\<rparr>
         in Inr (run_in cur ioloop (EstablishTask conn) sv))"

definition removeConnection :: "nat \<Rightarrow> nat \<Rightarrow> TcpServer \<Rightarrow> TcpServer" where
  "removeConnection cur c sv = run_in cur (baseloop (threadPool sv)) (RemoveTask c) sv"

text \<open>The destructor goes through the map; \<open>items\<close> is the order in which the iteration gives it.\<close>

definition delete_TcpServer :: "nat \<Rightarrow> nat list \<Rightarrow> TcpServer \<Rightarrow> TcpServer" where
  "delete_TcpServer cur items sv =
     fold (\<lambda>c sv. run_in cur (ci_loop (made sv ! c)) (DestroyTask c) sv) items (sv\<lparr>connections := Map.empty\<rparr>)"

subsection \<open>The life of a connection at the server\<close>

text \<open>
  The steps of a server: configuration and start, a new connection on the base loop's thread, the close of an
  established connection on the thread of its loop (which calls \<open>removeConnection\<close>, every time it runs), the end of the
  server on the thread of its base loop, and a loop that runs the oldest task queued for it. \<open>closes\<close> holds the calls of
  \<open>removeConnection\<close>, \<open>gone\<close> whether the server has been destroyed. A destroyed server is not used again: its own
  tasks, which hold a pointer to it, are not run, and the tasks of its connections may still be.
\<close>

record server_system =
  srv :: TcpServer
  closes :: "nat list"
  gone :: bool

inductive server_run :: "server_system \<Rightarrow> server_system \<Rightarrow> bool" where
  set_threads: "\<not> gone y \<Longrightarrow> server_run y (y\<lparr>srv := setThreadNum n (srv y)\<rparr>)"
| start: "\<not> gone y \<Longrightarrow> TcpServer_start startloop has_cb cur (srv y) = Inr sv \<Longrightarrow> server_run y (y\<lparr>srv := sv\<rparr>)"
| accept: "\<not> gone y \<Longrightarrow> newConnection getsockname (baseloop (threadPool (srv y))) fd peer (srv y) = Inr sv \<Longrightarrow>
     server_run y (y\<lparr>srv := sv\<rparr>)"
| close_conn: "\<not> gone y \<Longrightarrow> EstablishTask c \<in> set (srv_ran (srv y)) \<Longrightarrow>
     server_run y (y\<lparr>closes := closes y @ [c], srv := removeConnection (ci_loop (made (srv y) ! c)) c (srv y)\<rparr>)"
| end_server: "\<not> gone y \<Longrightarrow> distinct items \<Longrightarrow> set items = ran (connections (srv y)) \<Longrightarrow>
     server_run y (y\<lparr>gone := True, srv := delete_TcpServer (baseloop (threadPool (srv y))) items (srv y)\<rparr>)"
| run_oldest: "srv_queue (srv y) = xs @ (loop, t) # ys \<Longrightarrow> loop \<notin> fst ` set xs \<Longrightarrow> (gone y \<Longrightarrow> t \<notin> range RemoveTask) \<Longrightarrow>
     server_run y (y\<lparr>srv := run_task t ((srv y)\<lparr>srv_queue := xs @ ys\<rparr>)\<rparr>)"

definition server_start :: "server_system \<Rightarrow> bool" where
  "server_start y \<longleftrightarrow> closes y = [] \<and> \<not> gone y \<and> made (srv y) = [] \<and> srv_queue (srv y) = [] \<and> srv_ran (srv y) = [] \<and>
     connections (srv y) = Map.empty \<and> nextConnId (srv y) = 1 \<and>
     (\<exists>addr. ToIpPort addr = Inr (srv_ipPort (srv y)))"

lemma new_TcpServer_start:
  "new_TcpServer socket setsockopt bind loop addr name opt ptr s p = Inr (sv, s', p') \<Longrightarrow>
   server_start \<lparr>srv = sv, closes = [], gone = False\<rparr>"
  by (auto simp: new_TcpServer_def rbind_Inr_iff server_start_def)

text \<open>The tasks of one connection among a list of tasks.\<close>

primrec task_of :: "server_task \<Rightarrow> nat option" where
  "task_of ListenTask = None"
| "task_of (EstablishTask c) = Some c"
| "task_of (RemoveTask c) = Some c"
| "task_of (DestroyTask c) = Some c"

definition about :: "nat \<Rightarrow> server_task list \<Rightarrow> server_task list" where
  "about c ts = filter (\<lambda>t. task_of t = Some c) ts"

lemma about_simps [simp]:
  "about c [] = []" "about c (ts @ us) = about c ts @ about c us"
  "about c (t # ts) = (if task_of t = Some c then t # about c ts else about c ts)"
  by (simp_all add: about_def)

text \<open>
  The tasks of a connection that ran and that wait: it is established once and first, every call of \<open>removeConnection\<close>
  gives a removal, and every removal that ran gives a \<open>connectDestroyed\<close>, as does the end of the server for a connection
  that was not removed before.
\<close>

definition life :: "nat \<Rightarrow> server_task list \<Rightarrow> server_task list \<Rightarrow> nat \<Rightarrow> bool \<Rightarrow> bool" where
  "life c past waiting calls dead \<longleftrightarrow>
     count_list (past @ waiting) (EstablishTask c) = 1 \<and> hd (past @ waiting) = EstablishTask c \<and>
     (past = [] \<longrightarrow> RemoveTask c \<notin> set waiting) \<and> count_list (past @ waiting) (RemoveTask c) = calls \<and>
     count_list (past @ waiting) (DestroyTask c) = count_list past (RemoveTask c) + (if dead \<and> RemoveTask c \<notin> set past then 1 else 0)"

lemma life_given: "life c [] [EstablishTask c] 0 False"
  by (simp add: life_def)

lemma life_close: "life c past waiting n False \<Longrightarrow> past \<noteq> [] \<Longrightarrow> life c past (waiting @ [RemoveTask c]) (Suc n) False"
  by (simp add: life_def)

lemma life_end_waiting:
  "life c past waiting n False \<Longrightarrow> RemoveTask c \<notin> set past \<Longrightarrow> life c past (waiting @ [DestroyTask c]) n True"
proof -
  assume l: "life c past waiting n False" "RemoveTask c \<notin> set past"
  then have "past @ waiting \<noteq> []" by (auto simp: life_def)
  then have "hd (past @ waiting @ [DestroyTask c]) = hd (past @ waiting)" by (metis append_assoc hd_append2)
  then show ?thesis using l by (simp add: life_def count_list_0_iff)
qed

lemma life_end_ran:
  "life c past waiting n False \<Longrightarrow> RemoveTask c \<notin> set past \<Longrightarrow> past \<noteq> [] \<Longrightarrow> life c (past @ [DestroyTask c]) waiting n True"
  by (auto simp: life_def hd_append count_list_0_iff)

lemma life_end_removed: "life c past waiting n False \<Longrightarrow> RemoveTask c \<in> set past \<Longrightarrow> life c past waiting n True"
  by (simp add: life_def)

lemma life_pop:
  assumes l: "life c past (xs @ t # ys) n dead" and first: "past = [] \<Longrightarrow> t = EstablishTask c"
    and dead: "dead \<Longrightarrow> t \<noteq> RemoveTask c"
  shows "life c (past @ [t]) (xs @ ys @ (if t = RemoveTask c then [DestroyTask c] else [])) n dead"
proof -
  have h: "hd ((past @ [t]) @ zs) = EstablishTask c" for zs using l first by (cases past) (auto simp: life_def)
  show ?thesis using l h dead by (auto simp: life_def simp del: append_assoc)
qed

definition tasks_queued :: "TcpServer \<Rightarrow> server_task list" where
  "tasks_queued sv = map snd (srv_queue sv)"

text \<open>
  The invariant: the names are the printed numbers, every connection is in its \<open>life\<close>, the map holds exactly the
  connections whose removal has not run, and the tasks of a connection are queued in its loop.
\<close>

definition server_named :: "TcpServer \<Rightarrow> bool" where
  "server_named sv \<longleftrightarrow>
     nextConnId sv = int (length (made sv)) + 1 \<and> int (length (made sv)) \<le> 2 ^ 31 - 2 \<and>
     (\<exists>addr. ToIpPort addr = Inr (srv_ipPort sv)) \<and>
     (\<forall>c < length (made sv). ci_name (made sv ! c) = conn_name (srv_name sv) (srv_ipPort sv) (int c + 1))"

definition living :: "server_system \<Rightarrow> nat \<Rightarrow> bool" where
  "living y c \<longleftrightarrow>
     (if c < length (made (srv y))
      then life c (about c (srv_ran (srv y))) (about c (tasks_queued (srv y))) (count_list (closes y) c) (gone y)
      else about c (srv_ran (srv y)) = [] \<and> about c (tasks_queued (srv y)) = [] \<and> c \<notin> set (closes y))"

definition server_mapped :: "server_system \<Rightarrow> bool" where
  "server_mapped y \<longleftrightarrow>
     (\<forall>k c. connections (srv y) k = Some c \<longleftrightarrow> \<not> gone y \<and>
        c < length (made (srv y)) \<and> k = ci_name (made (srv y) ! c) \<and> RemoveTask c \<notin> set (srv_ran (srv y)))"

definition placed :: "conn_info list \<Rightarrow> nat \<times> server_task \<Rightarrow> bool" where
  "placed cs q \<longleftrightarrow> (\<forall>c. snd q = EstablishTask c \<or> snd q = DestroyTask c \<longrightarrow> c < length cs \<and> fst q = ci_loop (cs ! c))"

definition server_placed :: "TcpServer \<Rightarrow> bool" where
  "server_placed sv \<longleftrightarrow> (\<forall>q \<in> set (srv_queue sv). placed (made sv) q) \<and>
     (\<forall>c < length (made sv). ci_loop (made sv ! c) = baseloop (threadPool sv) \<longrightarrow> EstablishTask c \<in> set (srv_ran sv))"

definition server_inv :: "server_system \<Rightarrow> bool" where
  "server_inv y \<longleftrightarrow> server_named (srv y) \<and> (\<forall>c. living y c) \<and> server_mapped y \<and> server_placed (srv y)"

lemma c_str_decimal: "c_str (fmt_d (int n)) = fmt_d (int n)"
  by (rule c_str_id) (simp add: fmt_d_def decimal_no_null)

lemma conn_name_inj:
  assumes ip: "ToIpPort addr = Inr ipPort" and eq: "conn_name name ipPort (int m) = conn_name name ipPort (int n)"
    and mn: "m < 2 ^ 31" "n < 2 ^ 31"
  shows "m = n"
proof -
  have len: "length ipPort \<le> 21" using ip ToIpPort_ok [of addr] by auto
  have cut: "length (c_str ipPort) \<le> 21" using len length_takeWhile_le [of _ ipPort] by (simp add: c_str_def) (meson le_trans)
  have no: "(CHR 0x00) \<notin> set (c_str ipPort)" using set_takeWhileD by (fastforce simp: c_str_def)
  have p: "snprintf 64 (''-'' @ c_str ipPort @ fmt_d (int k)) = ''-'' @ c_str ipPort @ decimal k" if "k < 2 ^ 31" for k
  proof -
    have "length (decimal k) \<le> 10" by (rule decimal_length) (use that in simp_all)
    then show ?thesis using cut no decimal_no_null [of k] by (simp add: snprintf_def fmt_d_def c_str_id)
  qed
  show ?thesis using eq p [OF mn(1)] p [OF mn(2)] decimal_inj by (simp add: conn_name_def)
qed

lemma server_names_inj:
  assumes "server_named sv" "c < length (made sv)" "d < length (made sv)"
    "ci_name (made sv ! c) = ci_name (made sv ! d)"
  shows "c = d"
proof -
  obtain addr where ip: "ToIpPort addr = Inr (srv_ipPort sv)" using assms(1) by (auto simp: server_named_def)
  have "conn_name (srv_name sv) (srv_ipPort sv) (int (Suc c)) = conn_name (srv_name sv) (srv_ipPort sv) (int (Suc d))"
    using assms by (simp add: server_named_def add.commute)
  then have "Suc c = Suc d" by (rule conn_name_inj [OF ip]) (use assms(1-3) in \<open>auto simp: server_named_def\<close>)
  then show ?thesis by simp
qed

lemma task_of_iff:
  "task_of t = Some c \<longleftrightarrow> t = EstablishTask c \<or> t = RemoveTask c \<or> t = DestroyTask c"
  by (cases t) auto

lemma in_about: "task_of t = Some c \<Longrightarrow> t \<in> set ts \<longleftrightarrow> t \<in> set (about c ts)"
  by (simp add: about_def)

text \<open>Running the task \<open>t\<close> out of the queue, field by field.\<close>

definition popped :: "server_task \<Rightarrow> (nat \<times> server_task) list \<Rightarrow> TcpServer \<Rightarrow> TcpServer" where
  "popped t rest sv = run_task t (sv\<lparr>srv_queue := rest\<rparr>)"

lemma popped_fields:
  "made (popped t rest sv) = made sv" "nextConnId (popped t rest sv) = nextConnId sv" "srv_name (popped t rest sv) = srv_name sv"
  "srv_ipPort (popped t rest sv) = srv_ipPort sv" "srv_ran (popped t rest sv) = srv_ran sv @ [t]"
  "tasks_queued (popped t rest sv) = map snd rest @ (case t of RemoveTask c \<Rightarrow> [DestroyTask c] | _ \<Rightarrow> [])"
  "connections (popped t rest sv) = (case t of RemoveTask c \<Rightarrow> (connections sv)(ci_name (made sv ! c) := None) | _ \<Rightarrow> connections sv)"
  by (simp_all add: popped_def run_task_def removeConnectionInLoop_def queue_in_def tasks_queued_def Let_def
      split: server_task.splits)

text \<open>A task that is run: nothing of its connection ran before, unless it is the one that establishes it.\<close>

definition runnable :: "server_system \<Rightarrow> server_task \<Rightarrow> bool" where
  "runnable y t \<longleftrightarrow> (\<forall>c. task_of t = Some c \<longrightarrow> about c (srv_ran (srv y)) = [] \<longrightarrow> t = EstablishTask c) \<and>
     (gone y \<longrightarrow> t \<notin> range RemoveTask)"

lemma server_invD:
  "server_inv y \<Longrightarrow> server_named (srv y)" "server_inv y \<Longrightarrow> living y c" "server_inv y \<Longrightarrow> server_mapped y"
  "server_inv y \<Longrightarrow> server_placed (srv y)"
  by (simp_all add: server_inv_def)

lemma popped_living:
  assumes inv: "living y c" and q: "srv_queue (srv y) = xs @ (loop, t) # ys" and r: "runnable y t"
  shows "living (y\<lparr>srv := popped t (xs @ ys) (srv y)\<rparr>) c"
proof (cases "task_of t = Some c")
  case True
  have w: "about c (tasks_queued (srv y)) = about c (map snd xs) @ t # about c (map snd ys)"
    by (simp add: tasks_queued_def q True)
  then have c: "c < length (made (srv y))"
    and l: "life c (about c (srv_ran (srv y))) (about c (map snd xs) @ t # about c (map snd ys)) (count_list (closes y) c) (gone y)"
    using inv by (auto simp: living_def split: if_splits)
  have "life c (about c (srv_ran (srv y)) @ [t]) (about c (map snd xs) @ about c (map snd ys) @ (if t = RemoveTask c then [DestroyTask c] else []))
      (count_list (closes y) c) (gone y)"
    by (rule life_pop [OF l]) (use r True in \<open>auto simp: runnable_def\<close>)
  moreover have "about c (tasks_queued (popped t (xs @ ys) (srv y))) =
      about c (map snd xs) @ about c (map snd ys) @ (if t = RemoveTask c then [DestroyTask c] else [])"
    using True by (auto simp: popped_fields task_of_iff)
  ultimately show ?thesis using c True by (simp add: living_def popped_fields(1,5))
next
  case False
  have "tasks_queued (srv y) = map snd xs @ t # map snd ys" by (simp add: tasks_queued_def q)
  then have "about c (srv_ran (popped t (xs @ ys) (srv y))) = about c (srv_ran (srv y)) \<and>
      about c (tasks_queued (popped t (xs @ ys) (srv y))) = about c (tasks_queued (srv y))"
    using False by (cases t) (simp_all add: popped_fields)
  then show ?thesis using inv by (simp add: living_def popped_fields(1))
qed

lemma popped_mapped:
  assumes inv: "server_named (srv y)" "server_mapped y" and r: "runnable y t" and c: "\<And>c. t = RemoveTask c \<Longrightarrow> c < length (made (srv y))"
  shows "server_mapped (y\<lparr>srv := popped t rest (srv y)\<rparr>)"
proof (cases "\<exists>c. t = RemoveTask c")
  case True
  then obtain c where t: "t = RemoveTask c" by blast
  have nm: "d = c" if "ci_name (made (srv y) ! c) = ci_name (made (srv y) ! d)" "d < length (made (srv y))" for d
    using server_names_inj [OF inv(1) c [OF t] that(2,1)] by simp
  have "\<not> gone y" using r t by (auto simp: runnable_def)
  then show ?thesis using inv(2) by (auto simp: server_mapped_def popped_fields t dest: nm)
next
  case False
  then have "connections (popped t rest (srv y)) = connections (srv y)" unfolding popped_fields by (cases t) auto
  then show ?thesis using inv(2) False by (auto simp: server_mapped_def popped_fields)
qed

lemma popped_placed:
  assumes inv: "server_placed sv" and q: "srv_queue sv = xs @ (loop, t) # ys" and c: "\<And>c. t = RemoveTask c \<Longrightarrow> c < length (made sv)"
  shows "server_placed (popped t (xs @ ys) sv)"
proof -
  have "srv_queue (popped t (xs @ ys) sv) = xs @ ys @ (case t of RemoveTask c \<Rightarrow> [(ci_loop (made sv ! c), DestroyTask c)] | _ \<Rightarrow> [])"
    "threadPool (popped t (xs @ ys) sv) = threadPool sv"
    by (simp_all add: popped_def run_task_def removeConnectionInLoop_def queue_in_def Let_def split: server_task.splits)
  then show ?thesis using inv c q by (auto simp: server_placed_def popped_fields(1,5) placed_def split: server_task.splits)
qed

lemma server_inv_pop:
  assumes inv: "server_inv y" and q: "srv_queue (srv y) = xs @ (loop, t) # ys" and r: "runnable y t"
  shows "server_inv (y\<lparr>srv := run_task t ((srv y)\<lparr>srv_queue := xs @ ys\<rparr>)\<rparr>)"
proof -
  have c: "c < length (made (srv y))" if "t = RemoveTask c" for c
    using server_invD(2) [OF inv, of c] that by (auto simp: living_def tasks_queued_def q split: if_splits)
  have "server_named (popped t (xs @ ys) (srv y))" using server_invD(1) [OF inv] by (simp add: server_named_def popped_fields)
  moreover have "server_mapped (y\<lparr>srv := popped t (xs @ ys) (srv y)\<rparr>)"
    by (rule popped_mapped [OF server_invD(1,3) [OF inv] r]) (rule c)
  moreover have "server_placed (popped t (xs @ ys) (srv y))" by (rule popped_placed [OF server_invD(4) [OF inv] q]) (rule c)
  ultimately show ?thesis using popped_living [OF server_invD(2) [OF inv] q r] by (simp add: server_inv_def popped_def)
qed

text \<open>The oldest task of a loop is runnable: the task that establishes its connection is in the same loop.\<close>

lemma oldest_runnable:
  assumes inv: "server_inv y" and q: "srv_queue (srv y) = xs @ (loop, t) # ys" "loop \<notin> fst ` set xs"
    and g: "gone y \<Longrightarrow> t \<notin> range RemoveTask"
  shows "runnable y t"
  unfolding runnable_def
proof (intro conjI allI impI)
  fix c assume t: "task_of t = Some c" and past: "about c (srv_ran (srv y)) = []"
  have w: "about c (tasks_queued (srv y)) = about c (map snd xs) @ t # about c (map snd ys)"
    by (simp add: tasks_queued_def q t)
  then have l: "life c [] (about c (map snd xs) @ t # about c (map snd ys)) (count_list (closes y) c) (gone y)"
    using server_invD(2) [OF inv, of c] past by (auto simp: living_def split: if_splits)
  show "t = EstablishTask c"
  proof (cases "about c (map snd xs) = []")
    case True
    then show ?thesis using l by (simp add: life_def)
  next
    case False
    then have "EstablishTask c \<in> set (about c (map snd xs))" using l by (cases "about c (map snd xs)") (auto simp: life_def)
    then obtain l' where "(l', EstablishTask c) \<in> set xs" by (auto simp: about_def)
    moreover have "t = EstablishTask c \<or> t = DestroyTask c" using t l by (auto simp: task_of_iff life_def)
    moreover have "placed (made (srv y)) (loop, t)" "\<And>l'. (l', EstablishTask c) \<in> set xs \<Longrightarrow> placed (made (srv y)) (l', EstablishTask c)"
      using server_invD(4) [OF inv] q(1) by (auto simp: server_placed_def)
    ultimately have "loop \<in> fst ` set xs" by (force simp: placed_def)
    then show ?thesis using q(2) by simp
  qed
qed (use g in blast)

lemma server_inv_run_in:
  assumes "server_inv (y\<lparr>srv := queue_in loop t sv\<rparr>)" "cur = loop \<Longrightarrow> runnable (y\<lparr>srv := sv\<rparr>) t"
  shows "server_inv (y\<lparr>srv := run_in cur loop t sv\<rparr>)"
proof (cases "cur = loop")
  case True
  have q: "srv_queue (srv (y\<lparr>srv := queue_in loop t sv\<rparr>)) = srv_queue sv @ (loop, t) # []" by (simp add: queue_in_def)
  have "runnable (y\<lparr>srv := queue_in loop t sv\<rparr>) t" using assms(2) [OF True] by (simp add: runnable_def queue_in_def)
  from server_inv_pop [OF assms(1) q this] have "server_inv (y\<lparr>srv := run_task t (queue_in loop t sv\<lparr>srv_queue := srv_queue sv @ []\<rparr>)\<rparr>)"
    by simp
  moreover have "queue_in loop t sv\<lparr>srv_queue := srv_queue sv @ []\<rparr> = sv" by (simp add: queue_in_def)
  ultimately show ?thesis using True by (simp add: run_in_def)
next
  case False
  then show ?thesis using assms(1) by (simp add: run_in_def)
qed

lemma queue_in_simps [simp]:
  "made (queue_in l t sv) = made sv" "nextConnId (queue_in l t sv) = nextConnId sv" "srv_name (queue_in l t sv) = srv_name sv"
  "srv_ipPort (queue_in l t sv) = srv_ipPort sv" "srv_ran (queue_in l t sv) = srv_ran sv" "threadPool (queue_in l t sv) = threadPool sv"
  "connections (queue_in l t sv) = connections sv" "tasks_queued (queue_in l t sv) = tasks_queued sv @ [t]"
  "srv_queue (queue_in l t sv) = srv_queue sv @ [(l, t)]"
  by (simp_all add: queue_in_def tasks_queued_def)

lemma server_inv_listen: "server_inv y \<Longrightarrow> server_inv (y\<lparr>srv := queue_in l ListenTask (srv y)\<rparr>)"
  by (simp add: server_inv_def server_named_def living_def server_mapped_def server_placed_def placed_def)

lemma server_inv_cong:
  assumes "server_inv y" "made sv = made (srv y)" "nextConnId sv = nextConnId (srv y)" "srv_name sv = srv_name (srv y)"
    "srv_ipPort sv = srv_ipPort (srv y)" "srv_ran sv = srv_ran (srv y)" "connections sv = connections (srv y)"
    "srv_queue sv = srv_queue (srv y)" "baseloop (threadPool sv) = baseloop (threadPool (srv y))"
  shows "server_inv (y\<lparr>srv := sv\<rparr>)"
  using assms by (simp add: server_inv_def server_named_def living_def server_mapped_def server_placed_def tasks_queued_def cong: if_cong)

lemma pool_Start_base: "pool_Start startloop has_cb p = Inr q \<Longrightarrow> baseloop q = baseloop p"
  by (auto simp: pool_Start_def start_threads Let_def split: if_splits)

lemma GetNextLoop_base: "GetNextLoop p = Inr (l, q) \<Longrightarrow> baseloop q = baseloop p"
  by (auto simp: GetNextLoop_def Let_def split: if_splits)

lemma server_inv_start:
  assumes inv: "server_inv y" and s: "TcpServer_start startloop has_cb cur (srv y) = Inr sv"
  shows "server_inv (y\<lparr>srv := sv\<rparr>)"
proof -
  have pool: "server_inv (y\<lparr>srv := (srv y)\<lparr>srv_started := n, threadPool := p\<rparr>\<rparr>)" if "baseloop p = baseloop (threadPool (srv y))" for n p
    by (rule server_inv_cong [OF inv]) (simp_all add: that)
  consider (again) "sv = (srv y)\<lparr>srv_started := srv_started (srv y) + 1, threadPool := threadPool (srv y)\<rparr>"
    | (first) p where "baseloop p = baseloop (threadPool (srv y))"
        "sv = run_in cur (baseloop p) ListenTask ((srv y)\<lparr>srv_started := srv_started (srv y) + 1, threadPool := p\<rparr>)"
    using s pool_Start_base by (fastforce simp: TcpServer_start_def Let_def rbind_Inr_iff split: if_splits)
  then show ?thesis
  proof cases
    case again
    show ?thesis unfolding again by (rule pool) simp
  next
    case first
    show ?thesis unfolding first(2)
      by (rule server_inv_run_in) (use server_inv_listen [OF pool [OF first(1)]] in \<open>auto simp: runnable_def\<close>)
  qed
qed

lemma server_inv_close:
  assumes inv: "server_inv y" and c: "EstablishTask c \<in> set (srv_ran (srv y))" and g: "\<not> gone y"
  shows "server_inv (y\<lparr>closes := closes y @ [c], srv := removeConnection cur c (srv y)\<rparr>)"
proof -
  let ?y = "y\<lparr>closes := closes y @ [c]\<rparr>"
  have "EstablishTask c \<in> set (about c (srv_ran (srv y)))" using c by (simp add: about_def)
  then have past: "about c (srv_ran (srv y)) \<noteq> []" by auto
  then have len: "c < length (made (srv y))" using server_invD(2) [OF inv, of c] by (auto simp: living_def split: if_splits)
  have "living (?y\<lparr>srv := queue_in l (RemoveTask c) (srv y)\<rparr>) d" for l d
    using server_invD(2) [OF inv, of d] life_close [OF _ past] len g by (cases "d = c") (auto simp: living_def)
  then have "server_inv (?y\<lparr>srv := queue_in l (RemoveTask c) (srv y)\<rparr>)" for l
    using inv by (simp add: server_inv_def server_named_def server_mapped_def server_placed_def placed_def)
  from server_inv_run_in [OF this, of cur "baseloop (threadPool (srv y))"]
  show ?thesis using past g by (simp add: removeConnection_def runnable_def)
qed

text \<open>The destructor: the connections still in the map get a \<open>connectDestroyed\<close> in their loop, at once in the loop of the caller.\<close>

lemma delete_fields:
  defines "here cur sv \<equiv> \<lambda>c. ci_loop (made sv ! c) = cur"
  shows "srv_ran (delete_TcpServer cur items sv) = srv_ran sv @ map DestroyTask (filter (here cur sv) items)"
    "srv_queue (delete_TcpServer cur items sv) =
       srv_queue sv @ map (\<lambda>c. (ci_loop (made sv ! c), DestroyTask c)) (filter (\<lambda>c. \<not> here cur sv c) items)"
    "made (delete_TcpServer cur items sv) = made sv" "nextConnId (delete_TcpServer cur items sv) = nextConnId sv"
    "srv_name (delete_TcpServer cur items sv) = srv_name sv" "srv_ipPort (delete_TcpServer cur items sv) = srv_ipPort sv"
    "connections (delete_TcpServer cur items sv) = Map.empty" "threadPool (delete_TcpServer cur items sv) = threadPool sv"
    "srv_started (delete_TcpServer cur items sv) = srv_started sv"
proof -
  define del where "del = (\<lambda>c (sv :: TcpServer). run_in cur (ci_loop (made sv ! c)) (DestroyTask c) sv)"
  have d: "del c sv = (if here cur sv c then sv\<lparr>srv_ran := srv_ran sv @ [DestroyTask c]\<rparr>
      else sv\<lparr>srv_queue := srv_queue sv @ [(ci_loop (made sv ! c), DestroyTask c)]\<rparr>)" for c and sv :: TcpServer
    by (auto simp: del_def run_in_def run_task_def queue_in_def here_def Let_def)
  have f: "fold del items sv = sv\<lparr>srv_ran := srv_ran sv @ map DestroyTask (filter (here cur sv) items),
      srv_queue := srv_queue sv @ map (\<lambda>c. (ci_loop (made sv ! c), DestroyTask c)) (filter (\<lambda>c. \<not> here cur sv c) items)\<rparr>" for sv
    by (induction items arbitrary: sv) (auto simp: d here_def)
  have "delete_TcpServer cur items sv = fold del items (sv\<lparr>connections := Map.empty\<rparr>)" unfolding delete_TcpServer_def del_def ..
  note D = this [unfolded f]
  show "srv_ran (delete_TcpServer cur items sv) = srv_ran sv @ map DestroyTask (filter (here cur sv) items)"
    "srv_queue (delete_TcpServer cur items sv) =
       srv_queue sv @ map (\<lambda>c. (ci_loop (made sv ! c), DestroyTask c)) (filter (\<lambda>c. \<not> here cur sv c) items)"
    "made (delete_TcpServer cur items sv) = made sv" "nextConnId (delete_TcpServer cur items sv) = nextConnId sv"
    "srv_name (delete_TcpServer cur items sv) = srv_name sv" "srv_ipPort (delete_TcpServer cur items sv) = srv_ipPort sv"
    "connections (delete_TcpServer cur items sv) = Map.empty" "threadPool (delete_TcpServer cur items sv) = threadPool sv"
    "srv_started (delete_TcpServer cur items sv) = srv_started sv"
    unfolding D by (simp_all add: here_def)
qed

lemma about_destroy: "distinct items \<Longrightarrow> about c (map DestroyTask (filter P items)) = (if c \<in> set items \<and> P c then [DestroyTask c] else [])"
  by (induction items) auto

lemma server_inv_end:
  assumes inv: "server_inv y" and g: "\<not> gone y" and items: "distinct items" "set items = ran (connections (srv y))"
  shows "server_inv (y\<lparr>gone := True, srv := delete_TcpServer (baseloop (threadPool (srv y))) items (srv y)\<rparr>)"
proof -
  let ?new = "delete_TcpServer (baseloop (threadPool (srv y))) items (srv y)"
  note D = delete_fields [of "baseloop (threadPool (srv y))" items "srv y"]
  have mem: "c \<in> set items \<longleftrightarrow> c < length (made (srv y)) \<and> RemoveTask c \<notin> set (about c (srv_ran (srv y)))" for c
    using server_invD(3) [OF inv] g items(2) by (auto simp: server_mapped_def ran_def about_def)
  have ab: "about c (srv_ran ?new) = about c (srv_ran (srv y)) @
        (if c \<in> set items \<and> ci_loop (made (srv y) ! c) = baseloop (threadPool (srv y)) then [DestroyTask c] else [])"
    "about c (tasks_queued ?new) = about c (tasks_queued (srv y)) @
        (if c \<in> set items \<and> ci_loop (made (srv y) ! c) \<noteq> baseloop (threadPool (srv y)) then [DestroyTask c] else [])" for c
    using about_destroy [OF items(1), of c] by (simp_all add: D(1,2) tasks_queued_def comp_def)
  have "living (y\<lparr>gone := True, srv := ?new\<rparr>) c" for c
  proof (cases "c < length (made (srv y))")
    case True
    then have l: "life c (about c (srv_ran (srv y))) (about c (tasks_queued (srv y))) (count_list (closes y) c) False"
      using server_invD(2) [OF inv, of c] g by (simp add: living_def)
    have "about c (srv_ran (srv y)) \<noteq> []" if "ci_loop (made (srv y) ! c) = baseloop (threadPool (srv y))"
    proof -
      have "EstablishTask c \<in> set (srv_ran (srv y))" using server_invD(4) [OF inv] True that by (simp add: server_placed_def)
      then have "EstablishTask c \<in> set (about c (srv_ran (srv y)))" by (simp add: about_def)
      then show ?thesis by auto
    qed
    then show ?thesis using life_end_waiting [OF l] life_end_ran [OF l] life_end_removed [OF l] True mem [of c]
      by (auto simp: living_def D(3) ab)
  next
    case False
    then show ?thesis using server_invD(2) [OF inv, of c] mem [of c] by (simp add: living_def D(3) ab)
  qed
  moreover have "server_placed ?new"
    using server_invD(4) [OF inv] mem by (auto simp: server_placed_def D placed_def)
  moreover have "server_mapped (y\<lparr>gone := True, srv := ?new\<rparr>)" by (simp add: server_mapped_def D)
  ultimately show ?thesis using server_invD(1) [OF inv] by (simp add: server_inv_def server_named_def D)
qed

lemma server_inv_accept:
  assumes inv: "server_inv y" and g: "\<not> gone y"
    and nc: "newConnection getsockname (baseloop (threadPool (srv y))) fd peer (srv y) = Inr sv"
  shows "server_inv (y\<lparr>srv := sv\<rparr>)"
proof -
  let ?n = "length (made (srv y))" and ?cur = "baseloop (threadPool (srv y))"
  note I = server_invD [OF inv]
  obtain ioloop p info where sv: "sv = run_in ?cur ioloop (EstablishTask ?n) ((srv y)\<lparr>threadPool := p,
        nextConnId := nextConnId (srv y) + 1, made := made (srv y) @ [info],
        connections := (connections (srv y))(ci_name info \<mapsto> ?n)\<rparr>)"
    and info: "ci_name info = conn_name (srv_name (srv y)) (srv_ipPort (srv y)) (nextConnId (srv y))" "ci_loop info = ioloop"
    and id: "nextConnId (srv y) \<noteq> 2 ^ 31 - 1" and base: "baseloop p = ?cur"
  proof -
    obtain ioloop p where g: "GetNextLoop (threadPool (srv y)) = Inr (ioloop, p)" "nextConnId (srv y) \<noteq> 2 ^ 31 - 1"
      using nc by (auto simp: newConnection_def rbind_Inr_iff split: if_splits)
    show ?thesis
      by (rule that [where ioloop = ioloop and p = p and info = "\<lparr>ci_name = conn_name (srv_name (srv y)) (srv_ipPort (srv y)) (nextConnId (srv y)),
          ci_loop = ioloop, ci_fd = fd, ci_local = (case getsockname fd of None \<Rightarrow> zero_addr | Some a \<Rightarrow> a), ci_peer = peer\<rparr>"])
        (use nc g GetNextLoop_base [OF g(1)] in \<open>simp_all add: newConnection_def Let_def\<close>)
  qed
  define s0 where "s0 = (srv y)\<lparr>threadPool := p, nextConnId := nextConnId (srv y) + 1, made := made (srv y) @ [info],
        connections := (connections (srv y))(ci_name info \<mapsto> ?n)\<rparr>"
  define new where "new = run_in ?cur ioloop (EstablishTask ?n) s0"
  have f: "made new = made (srv y) @ [info]" "nextConnId new = nextConnId (srv y) + 1" "srv_name new = srv_name (srv y)"
    "srv_ipPort new = srv_ipPort (srv y)" "connections new = (connections (srv y))(ci_name info \<mapsto> ?n)" "threadPool new = p"
    "srv_ran new = srv_ran (srv y) @ (if ?cur = ioloop then [EstablishTask ?n] else [])"
    "srv_queue new = srv_queue (srv y) @ (if ?cur = ioloop then [] else [(ioloop, EstablishTask ?n)])"
    by (simp_all add: new_def s0_def run_in_def run_task_def Let_def)
  have named: "server_named new"
    using I(1) id info by (auto simp: server_named_def f nth_append less_Suc_eq add.commute)
  have none: "about ?n (srv_ran (srv y)) = []" "about ?n (tasks_queued (srv y)) = []" "count_list (closes y) ?n = 0"
    using I(2) [of ?n] by (simp_all add: living_def)
  have "living (y\<lparr>srv := new\<rparr>) c" for c
  proof (cases "c = ?n")
    case True
    have "life ?n [EstablishTask ?n] [] 0 False" by (simp add: life_def)
    then show ?thesis using none g life_given [of ?n] by (simp add: living_def f True tasks_queued_def)
  next
    case False
    then have "about c (srv_ran new) = about c (srv_ran (srv y))" "about c (tasks_queued new) = about c (tasks_queued (srv y))"
      "c < length (made new) \<longleftrightarrow> c < ?n"
      by (auto simp: f tasks_queued_def)
    then show ?thesis using I(2) [of c] by (simp add: living_def)
  qed
  moreover have fresh: "ci_name info \<noteq> ci_name (made (srv y) ! c)" if "c < ?n" for c
    using server_names_inj [OF named, of c ?n] that by (auto simp: f nth_append)
  have "RemoveTask ?n \<notin> set (srv_ran (srv y))"
    using none(1) in_about [of "RemoveTask ?n" ?n "srv_ran (srv y)"] by simp
  then have "server_mapped (y\<lparr>srv := new\<rparr>)"
    using I(3) fresh g by (auto simp: server_mapped_def f nth_append less_Suc_eq)
  moreover have "server_placed new"
    using I(4) base info(2) by (auto simp: server_placed_def f placed_def nth_append less_Suc_eq)
  ultimately have "server_inv (y\<lparr>srv := new\<rparr>)" using named by (simp add: server_inv_def)
  then show ?thesis unfolding sv new_def s0_def .
qed

interpretation server: inductive_invariant server_start server_run server_inv
proof
  show "server_start y \<Longrightarrow> server_inv y" for y
    by (auto simp: server_start_def server_inv_def server_named_def living_def server_mapped_def server_placed_def tasks_queued_def)
next
  fix y z assume inv: "server_inv y" and "server_run y z"
  from this(2) show "server_inv z"
  proof cases
    case (set_threads n)
    show ?thesis unfolding set_threads setThreadNum_def by (rule server_inv_cong [OF inv]) (simp_all add: SetThreadNum_def)
  next
    case (start startloop has_cb cur sv)
    show ?thesis unfolding start(1) by (rule server_inv_start [OF inv start(3)])
  next
    case (accept getsockname fd peer sv)
    show ?thesis unfolding accept(1) by (rule server_inv_accept [OF inv accept(2,3)])
  next
    case (close_conn c)
    show ?thesis unfolding close_conn(1) by (rule server_inv_close [OF inv close_conn(3,2)])
  next
    case (end_server items)
    show ?thesis unfolding end_server(1) by (rule server_inv_end [OF inv end_server(2-4)])
  next
    case (run_oldest xs loop t ys)
    show ?thesis unfolding run_oldest(1)
      by (rule server_inv_pop [OF inv run_oldest(2) oldest_runnable [OF inv run_oldest(2-4)]])
  qed
qed

lemma life_established:
  assumes "life c past waiting n dead"
  shows "past = [] \<or> (\<exists>rest. past = EstablishTask c # rest \<and> EstablishTask c \<notin> set rest)"
  using assms by (cases past) (auto simp: life_def count_list_0_iff)

text \<open>
  Claim C36. The life of a connection at its server, whatever the interleaving of the loops. A connection is established
  once, and before anything else runs for it. Every call of \<open>removeConnection\<close>, and a connection may make
  several, gives one removal, and every removal that has run gives one \<open>connectDestroyed\<close>, run or queued, so a
  connection that is closed twice is destroyed twice; the destructor of the server gives one to every connection that no removal has
  taken out before. Until then the map of the server holds the connection under its name, which is its own.
\<close>
theorem connection_life:
  assumes "reachable server_start server_run y" "c < length (made (srv y))"
  shows "let past = about c (srv_ran (srv y)); waiting = about c (tasks_queued (srv y))
     in (past = [] \<or> (\<exists>rest. past = EstablishTask c # rest \<and> EstablishTask c \<notin> set rest)) \<and>
     count_list (past @ waiting) (RemoveTask c) = count_list (closes y) c \<and>
     count_list (past @ waiting) (DestroyTask c) =
       count_list past (RemoveTask c) + (if gone y \<and> RemoveTask c \<notin> set past then 1 else 0) \<and>
     (connections (srv y) name = Some c \<longleftrightarrow>
        \<not> gone y \<and> name = ci_name (made (srv y) ! c) \<and> RemoveTask c \<notin> set (srv_ran (srv y))) \<and>
     (d < length (made (srv y)) \<longrightarrow> ci_name (made (srv y) ! d) = ci_name (made (srv y) ! c) \<longrightarrow> d = c)"
proof -
  have inv: "server_inv y" by (rule server.reachable_inv [OF assms(1)])
  then have l: "life c (about c (srv_ran (srv y))) (about c (tasks_queued (srv y))) (count_list (closes y) c) (gone y)"
    using server_invD(2) [of y c] assms(2) by (simp add: living_def)
  have "connections (srv y) name = Some c \<longleftrightarrow> \<not> gone y \<and> name = ci_name (made (srv y) ! c) \<and> RemoveTask c \<notin> set (srv_ran (srv y))"
    using server_invD(3) [OF inv] assms(2) by (auto simp: server_mapped_def)
  moreover have "d = c" if "d < length (made (srv y))" "ci_name (made (srv y) ! d) = ci_name (made (srv y) ! c)"
    by (rule server_names_inj [OF server_invD(1) [OF inv] that(1) assms(2) that(2)])
  ultimately show ?thesis using life_established [OF l] l unfolding Let_def by (auto simp: life_def)
qed

text \<open>A server without threads accepts one connection; it is closed twice, or the server goes while it is open.\<close>

lemma example_accepted:
  "\<exists>y :: server_system. reachable server_start server_run y \<and> length (made (srv y)) = 1 \<and> ci_loop (made (srv y) ! 0) = 0 \<and>
     baseloop (threadPool (srv y)) = 0 \<and> srv_ran (srv y) = [EstablishTask 0] \<and> srv_queue (srv y) = [] \<and> closes y = [] \<and> \<not> gone y \<and>
     ran (connections (srv y)) = {0}"
proof -
  let ?p = "\<lparr>channels = Map.empty, chans = (\<lambda>_. new_Channel 0), kernelState = (), eventList = []\<rparr> :: unit EPollPoller"
  let ?new = "new_TcpServer (\<lambda>s :: unit. (5, s)) (\<lambda>fd opt v s. s) (\<lambda>fd addr s. (0, s)) (Some 0) zero_addr ''srv'' False 0 () ?p"
  obtain ip where ip: "ToIpPort zero_addr = Inr ip" using ToIpPort_ok by blast
  obtain sv s' p' where sv: "?new = Inr (sv, s', p')" "threadPool sv = new_EventLoopThreadPool 0 ''srv''"
      "nextConnId sv = 1" "made sv = []" "srv_ran sv = []" "srv_queue sv = []" "connections sv = Map.empty"
    by (auto simp: new_TcpServer_def ip new_Acceptor_def createNonBlock_def BindAddress_def CheckloopNotNull_def)
  let ?y0 = "\<lparr>srv = sv, closes = [], gone = False\<rparr>"
  have r0: "reachable server_start server_run ?y0" by (rule reachable_init) (rule new_TcpServer_start [OF sv(1)])
  have base: "baseloop (threadPool sv) = 0" using sv(2) by (simp add: new_EventLoopThreadPool_def)
  have "GetNextLoop (threadPool sv) = Inr (0, threadPool sv)"
    using sv(2) by (simp add: GetNextLoop_def new_EventLoopThreadPool_def)
  then obtain sv1 where n: "newConnection (\<lambda>_. None) (baseloop (threadPool sv)) 7 zero_addr sv = Inr sv1"
    "length (made sv1) = 1" "ci_loop (made sv1 ! 0) = 0" "srv_ran sv1 = [EstablishTask 0]" "srv_queue sv1 = []"
    "threadPool sv1 = threadPool sv" "ran (connections sv1) = {0}"
    using sv(3-7) base by (auto simp: newConnection_def Let_def run_in_def run_task_def)
  have "reachable server_start server_run \<lparr>srv = sv1, closes = [], gone = False\<rparr>"
    using reachable_step [OF r0 server_run.accept [where y = ?y0 and sv = sv1]] n(1) by simp
  then show ?thesis using n(2-7) base by (intro exI [of _ "\<lparr>srv = sv1, closes = [], gone = False\<rparr>"]) simp
qed

lemma run_first:
  assumes r: "reachable server_start server_run y" and q: "srv_queue (srv y) = (l, t) # ys" "t \<notin> range RemoveTask"
  shows "\<exists>z. reachable server_start server_run z \<and> srv_ran (srv z) = srv_ran (srv y) @ [t] \<and> srv_queue (srv z) = ys \<and>
    closes z = closes y \<and> made (srv z) = made (srv y)"
proof -
  define z where "z = y\<lparr>srv := run_task t ((srv y)\<lparr>srv_queue := [] @ ys\<rparr>)\<rparr>"
  have "server_run y z" unfolding z_def by (rule server_run.run_oldest [where loop = l]) (simp_all add: q)
  moreover have "srv_ran (srv z) = srv_ran (srv y) @ [t]" "srv_queue (srv z) = ys" "closes z = closes y" "made (srv z) = made (srv y)"
    using q(2) by (auto simp: z_def run_task_def Let_def split: server_task.split)
  ultimately show ?thesis using reachable_step [OF r] by blast
qed

lemma example_closed_twice:
  "\<exists>y :: server_system. reachable server_start server_run y \<and> length (made (srv y)) = 1 \<and> closes y = [0, 0] \<and>
     srv_ran (srv y) = [EstablishTask 0, RemoveTask 0, RemoveTask 0, DestroyTask 0, DestroyTask 0]"
proof -
  obtain y where y: "reachable server_start server_run y" "length (made (srv y)) = 1" "ci_loop (made (srv y) ! 0) = 0"
      "baseloop (threadPool (srv y)) = 0" "srv_ran (srv y) = [EstablishTask 0]" "srv_queue (srv y) = []" "closes y = []" "\<not> gone y"
    using example_accepted by blast
  define y1 where "y1 = y\<lparr>closes := closes y @ [0], srv := removeConnection (ci_loop (made (srv y) ! 0)) 0 (srv y)\<rparr>"
  have f1: "srv_ran (srv y1) = [EstablishTask 0, RemoveTask 0]" "srv_queue (srv y1) = [(0, DestroyTask 0)]" "made (srv y1) = made (srv y)"
    "threadPool (srv y1) = threadPool (srv y)" "closes y1 = [0]" "gone y1 = gone y"
    using y(3-7) by (simp_all add: y1_def removeConnection_def run_in_def run_task_def removeConnectionInLoop_def queue_in_def Let_def)
  have r1: "reachable server_start server_run y1"
    unfolding y1_def by (rule reachable_step [OF y(1) server_run.close_conn]) (simp_all add: y(5,8))
  define y2 where "y2 = y1\<lparr>closes := closes y1 @ [0], srv := removeConnection (ci_loop (made (srv y1) ! 0)) 0 (srv y1)\<rparr>"
  have f2: "srv_ran (srv y2) = [EstablishTask 0, RemoveTask 0, RemoveTask 0]" "srv_queue (srv y2) = [(0, DestroyTask 0), (0, DestroyTask 0)]"
    "made (srv y2) = made (srv y)" "closes y2 = [0, 0]"
    using y(3,4) f1 by (simp_all add: y2_def removeConnection_def run_in_def run_task_def removeConnectionInLoop_def queue_in_def Let_def)
  have r2: "reachable server_start server_run y2"
    unfolding y2_def by (rule reachable_step [OF r1 server_run.close_conn]) (simp_all add: f1(1,6) y(8))
  obtain y3 where y3: "reachable server_start server_run y3" "srv_ran (srv y3) = srv_ran (srv y2) @ [DestroyTask 0]"
     "srv_queue (srv y3) = [(0, DestroyTask 0)]" "closes y3 = [0, 0]" "made (srv y3) = made (srv y)"
    using run_first [OF r2 f2(2)] f2(3,4) by auto
  obtain y4 where "reachable server_start server_run y4" "srv_ran (srv y4) = srv_ran (srv y3) @ [DestroyTask 0]"
     "closes y4 = [0, 0]" "made (srv y4) = made (srv y)"
    using run_first [OF y3(1,3)] y3(4,5) by auto
  then show ?thesis using y(2) y3(2) f2(1) by (intro exI [of _ y4]) simp
qed

lemma example_server_gone:
  "\<exists>y :: server_system. reachable server_start server_run y \<and> length (made (srv y)) = 1 \<and> gone y \<and>
     srv_ran (srv y) = [EstablishTask 0, DestroyTask 0]"
proof -
  obtain y where y: "reachable server_start server_run y" "length (made (srv y)) = 1" "ci_loop (made (srv y) ! 0) = 0"
      "baseloop (threadPool (srv y)) = 0" "srv_ran (srv y) = [EstablishTask 0]" "\<not> gone y" "ran (connections (srv y)) = {0}"
    using example_accepted by blast
  have "reachable server_start server_run (y\<lparr>gone := True, srv := delete_TcpServer (baseloop (threadPool (srv y))) [0] (srv y)\<rparr>)"
    by (rule reachable_step [OF y(1) server_run.end_server]) (simp_all add: y(6,7))
  moreover have "srv_ran (delete_TcpServer 0 [0] (srv y)) = [EstablishTask 0, DestroyTask 0]" "made (delete_TcpServer 0 [0] (srv y)) = made (srv y)"
    using y(3,5) by (simp_all add: delete_fields)
  ultimately show ?thesis using y(2,4) by (intro exI [of _ "y\<lparr>gone := True, srv := delete_TcpServer 0 [0] (srv y)\<rparr>"]) simp
qed

theorem connection_life_witness:
  "(\<exists>y :: server_system. reachable server_start server_run y \<and> length (made (srv y)) = 1 \<and> count_list (closes y) 0 = 2 \<and>
     count_list (srv_ran (srv y)) (DestroyTask 0) = 2 \<and> connections (srv y) (ci_name (made (srv y) ! 0)) \<noteq> Some 0) \<and>
   (\<exists>y :: server_system. reachable server_start server_run y \<and> gone y \<and> srv_ran (srv y) = [EstablishTask 0, DestroyTask 0] \<and>
     DestroyTask 0 \<notin> set (tasks_queued (srv y)))"
proof
  obtain y where y: "reachable server_start server_run y" "length (made (srv y)) = 1" "closes y = [0, 0]"
    "srv_ran (srv y) = [EstablishTask 0, RemoveTask 0, RemoveTask 0, DestroyTask 0, DestroyTask 0]" using example_closed_twice by blast
  have "0 < length (made (srv y))" using y(2) by simp
  from connection_life [OF y(1) this, of "ci_name (made (srv y) ! 0)"] y(4)
  have "connections (srv y) (ci_name (made (srv y) ! 0)) \<noteq> Some 0" by (simp add: Let_def)
  then show "\<exists>y :: server_system. reachable server_start server_run y \<and> length (made (srv y)) = 1 \<and> count_list (closes y) 0 = 2 \<and>
     count_list (srv_ran (srv y)) (DestroyTask 0) = 2 \<and> connections (srv y) (ci_name (made (srv y) ! 0)) \<noteq> Some 0"
    using y by (intro exI [of _ y]) simp
next
  obtain y where y: "reachable server_start server_run y" "length (made (srv y)) = 1" "gone y" "srv_ran (srv y) = [EstablishTask 0, DestroyTask 0]"
    using example_server_gone by blast
  have "0 < length (made (srv y))" using y(2) by simp
  from connection_life [OF y(1) this] y(3,4)
  have "DestroyTask 0 \<notin> set (about 0 (tasks_queued (srv y)))" by (simp add: Let_def count_list_0_iff)
  then have "DestroyTask 0 \<notin> set (tasks_queued (srv y))" by (simp add: about_def)
  then show "\<exists>y :: server_system. reachable server_start server_run y \<and> gone y \<and> srv_ran (srv y) = [EstablishTask 0, DestroyTask 0] \<and>
     DestroyTask 0 \<notin> set (tasks_queued (srv y))" using y(1,3,4) by blast
qed

text \<open>What the destructor leaves: one \<open>connectDestroyed\<close> per connection of the map, run or queued.\<close>

definition destroy_given :: "nat \<Rightarrow> TcpServer \<Rightarrow> bool" where
  "destroy_given c sv \<longleftrightarrow> DestroyTask c \<in> set (srv_ran sv) \<or> DestroyTask c \<in> set (tasks_queued sv)"

lemma destroy_given_run_in:
  "destroy_given c (run_in cur loop (DestroyTask d) sv) \<longleftrightarrow> c = d \<or> destroy_given c sv"
  by (auto simp: destroy_given_def run_in_def run_task_def queue_in_def tasks_queued_def Let_def)

lemma delete_TcpServer_tasks:
  "destroy_given c (delete_TcpServer cur items sv) \<longleftrightarrow> c \<in> set items \<or> destroy_given c sv"
proof -
  have "destroy_given c (fold (\<lambda>c sv. run_in cur (ci_loop (made sv ! c)) (DestroyTask c) sv) items sv) \<longleftrightarrow>
     c \<in> set items \<or> destroy_given c sv" for sv
    by (induction items arbitrary: sv) (auto simp: destroy_given_run_in)
  then show ?thesis by (simp add: delete_TcpServer_def) (simp add: destroy_given_def tasks_queued_def)
qed
end
