(* ===== verification/EchoServer.thy ===== *)
theory EchoServer
  imports Reactor TcpServer
begin

text \<open>
  The program that drives the network library: class \<open>EchoServer\<close> and \<open>main\<close> of \<open>mymuduo/test/test.cc\<close>. A
  server with three threads whose message callback sends what has arrived back and shuts the
  write side. The theory runs one of its connections over its life, with the callback run where
  \<open>handleRead\<close> calls it, and counts the clients the server can take.
\<close>

subsection \<open>The program\<close>

text \<open>The constructor binds the two callbacks; they are \<open>onConnection\<close> and \<open>onMessage\<close> below.\<close>

definition new_EchoServer :: "('s \<Rightarrow> int \<times> 's) \<Rightarrow> (int \<Rightarrow> sockopt \<Rightarrow> int \<Rightarrow> 's \<Rightarrow> 's) \<Rightarrow>
    (int \<Rightarrow> sockaddr_in \<Rightarrow> 's \<Rightarrow> int \<times> 's) \<Rightarrow> nat option \<Rightarrow> sockaddr_in \<Rightarrow> string \<Rightarrow> nat \<Rightarrow> 's \<Rightarrow>
    'k EPollPoller \<Rightarrow> (TcpServer \<times> 's \<times> 'k EPollPoller) result" where
  "new_EchoServer socket setsockopt bind loop addr name ptr s p =
     rbind (new_TcpServer socket setsockopt bind loop addr name False ptr s p) (\<lambda>(server, s, p).
     Inr (setThreadNum 3 server, s, p))"

definition EchoServer_start :: "(nat \<Rightarrow> nat) \<Rightarrow> nat \<Rightarrow> TcpServer \<Rightarrow> TcpServer result" where
  "EchoServer_start startloop cur server = TcpServer_start startloop False cur server"

text \<open>
  \<open>main\<close> up to the call of \<open>loop.loop()\<close>; its thread is that of loop 0, and \<open>default_ip\<close> the default argument of the
  constructor of \<open>InetAddress\<close>.
\<close>

definition default_ip :: string where "default_ip = ''127.0.0.1''"

definition EchoServer_main :: "('s \<Rightarrow> int \<times> 's) \<Rightarrow> (int \<Rightarrow> sockopt \<Rightarrow> int \<Rightarrow> 's \<Rightarrow> 's) \<Rightarrow>
    (int \<Rightarrow> sockaddr_in \<Rightarrow> 's \<Rightarrow> int \<times> 's) \<Rightarrow> (string \<Rightarrow> 32 word) \<Rightarrow> (nat \<Rightarrow> nat) \<Rightarrow> nat \<Rightarrow> 's \<Rightarrow> 'k EPollPoller \<Rightarrow>
    (TcpServer \<times> 's \<times> 'k EPollPoller) result" where
  "EchoServer_main socket setsockopt bind inet_addr startloop ptr s p =
     (let addr = new_InetAddress inet_addr 8000 default_ip
      in rbind (new_EchoServer socket setsockopt bind (Some 0) addr ''EchoServer-01'' ptr s p) (\<lambda>(server, s, p).
         rbind (EchoServer_start startloop 0 server) (\<lambda>server. Inr (server, s, p))))"

text \<open>The line that \<open>onConnection\<close> logs.\<close>

definition onConnection :: "sockaddr_in \<Rightarrow> 'k TcpConnection \<Rightarrow> string result" where
  "onConnection peerAddress c =
     rbind (ToIpPort peerAddress) (\<lambda>peer.
       Inr (if connected c then ''Connection UP : '' @ peer else ''Connection DOWN : '' @ peer))"

text \<open>
  The message callback, called by \<open>handleRead\<close> on the thread of the connection's loop with its input buffer;
  the time of the message is not used. The result is what was written to the socket at once.
\<close>

definition onMessage :: "'k epoll_ctl \<Rightarrow> (string \<Rightarrow> int + nat) \<Rightarrow> 'k TcpConnection \<Rightarrow> (string \<times> 'k TcpConnection) result" where
  "onMessage ctl write c =
     rbind (retrieveAllAsString (inputBuffer c)) (\<lambda>(msg, b).
     let c = c\<lparr>inputBuffer := b\<rparr>
     in rbind (send ctl write True msg c) (\<lambda>(bytes, c).
        let c = tc_shutdown True c
        in Inr (bytes, c)))"

subsection \<open>What it does to a connection\<close>

lemma sendInLoop_input:
  assumes "sendInLoop ctl write data c = Inr (bytes, c')"
  shows "inputBuffer c' = inputBuffer c"
proof -
  have f: "inputBuffer d = inputBuffer c" if "send_first write data c = (n, r, fault, d)" for n r fault d
    using that by (auto simp: send_first_def Let_def writeComplete_def queue_task_def split: if_splits sum.splits)
  have k: "inputBuffer e = inputBuffer d" if "keep_rest ctl rest d = Inr e" for rest d e
    using that by (auto simp: keep_rest_def Let_def rbind_Inr_iff queue_task_def dest!: channel_do_fields(3) split: if_splits)
  show ?thesis using assms f k
    by (fastforce simp: sendInLoop_def rbind_Inr_iff split: if_splits prod.splits)
qed

lemma shutdownInLoop_input [simp]: "inputBuffer (shutdownInLoop c) = inputBuffer c"
  by (simp add: shutdownInLoop_def)

lemma handler_input:
  "connectEstablished ctl c = Inr c' \<Longrightarrow> inputBuffer c' = inputBuffer c"
  "handleClose ctl c = Inr c' \<Longrightarrow> inputBuffer c' = inputBuffer c"
  "connectDestroyed ctl c = Inr c' \<Longrightarrow> inputBuffer c' = inputBuffer c"
proof -
  show "connectEstablished ctl c = Inr c' \<Longrightarrow> inputBuffer c' = inputBuffer c"
    by (auto simp: connectEstablished_def Let_def rbind_Inr_iff call_connectionCallback_def call_back_def with_channel_def
        dest!: channel_do_fields(3))
  show "handleClose ctl c = Inr c' \<Longrightarrow> inputBuffer c' = inputBuffer c"
    by (auto simp: handleClose_def Let_def rbind_Inr_iff call_connectionCallback_def call_back_def dest!: channel_do_fields(3))
  show "connectDestroyed ctl c = Inr c' \<Longrightarrow> inputBuffer c' = inputBuffer c"
    by (auto simp: connectDestroyed_def Let_def rbind_Inr_iff call_connectionCallback_def call_back_def dest!: channel_do_fields(3))
qed

lemma writeComplete_kept [simp]: "inputBuffer (writeComplete c) = inputBuffer c" "tc_state (writeComplete c) = tc_state c"
    "write_shut (writeComplete c) = write_shut c"
  by (simp_all add: writeComplete_def queue_task_def)

lemma handleWrite_kept:
  assumes "handleWrite ctl write c = Inr (bytes, c')"
  shows "inputBuffer c' = inputBuffer c" "write_shut c' \<Longrightarrow> \<not> write_shut c \<Longrightarrow> tc_state c = kDisconnecting"
proof -
  have d: "inputBuffer e = inputBuffer c \<and> write_shut e = write_shut c \<and> tc_state e = tc_state c"
    if "channel_do ctl DisableWrite (c\<lparr>outputBuffer := b\<rparr>) = Inr e" for b e
    using channel_do_fields [OF that] by simp
  have "inputBuffer c' = inputBuffer c \<and> (write_shut c' \<longrightarrow> \<not> write_shut c \<longrightarrow> tc_state c = kDisconnecting)"
  proof (cases "IsWriting (the_channel c)")
    case False
    then show ?thesis using assms by (simp add: handleWrite_def)
  next
    case True
    then obtain r where r: "writeFd write (outputBuffer c) = Inr r"
      using assms by (cases "writeFd write (outputBuffer c)") (simp_all add: handleWrite_def)
    show ?thesis
    proof (cases "\<exists>n. r = Inr n \<and> 0 < n")
      case False
      then show ?thesis using assms True r by (auto simp: handleWrite_def split: sum.splits)
    next
      case n: True
      then obtain n where n: "r = Inr n" "0 < n" by blast
      let ?e = "c\<lparr>outputBuffer := retrieve (of_nat n) (outputBuffer c)\<rparr>"
      show ?thesis
      proof (cases "readableBytes (outputBuffer ?e) = 0")
        case False
        then show ?thesis using assms True r n by (auto simp: handleWrite_def Let_def)
      next
        case empty: True
        then obtain e where "channel_do ctl DisableWrite ?e = Inr e"
          "c' = (if tc_state e = kDisconnecting then shutdownInLoop (writeComplete e) else writeComplete e)"
          using assms True r n by (auto simp: handleWrite_def Let_def rbind_Inr_iff)
        then show ?thesis using d by (auto split: if_splits)
      qed
    qed
  qed
  then show "inputBuffer c' = inputBuffer c" "write_shut c' \<Longrightarrow> \<not> write_shut c \<Longrightarrow> tc_state c = kDisconnecting"
    by blast+
qed

lemma tc_shutdown_input [simp]: "inputBuffer (tc_shutdown inLoop c) = inputBuffer c"
  by (simp add: tc_shutdown_def Let_def shutdownInLoop_def queue_task_def)

lemma send_lost_input [simp]: "send_lost write data (c\<lparr>inputBuffer := b\<rparr>) = send_lost write data c"
  by (simp add: send_lost_def the_channel_def)

lemma onMessage_ok:
  assumes ok: "conn_ok c" "buffer_ok (inputBuffer c)" and wc: "write_contract write"
    and room: "length (buffer (outputBuffer c)) + length (contents (inputBuffer c)) \<le> max_append"
    and m: "onMessage ctl write c = Inr (bytes, c')"
  defines "msg \<equiv> contents (inputBuffer c)"
  shows "conn_ok c'" "buffer_ok (inputBuffer c')" "contents (inputBuffer c') = []" 
    "tc_state c' = (if tc_state c = kConnected then kDisconnecting else tc_state c)"
    "tc_state c = kConnected \<Longrightarrow> \<not> send_lost write msg c \<Longrightarrow>
       bytes @ contents (outputBuffer c') = contents (outputBuffer c) @ msg"
    "write_shut c' \<Longrightarrow> \<not> write_shut c \<Longrightarrow> contents (outputBuffer c') = []"
    "tc_state c \<noteq> kConnected \<Longrightarrow> bytes = [] \<and> outputBuffer c' = outputBuffer c"
    "inputBuffer c' = retrieveAll (inputBuffer c)"
proof -
  let ?d = "c\<lparr>inputBuffer := retrieveAll (inputBuffer c)\<rparr>"
  have d: "conn_ok ?d" by (rule conn_ok_other [OF ok(1)])
  obtain e where e: "send ctl write True msg ?d = Inr (bytes, e)" "c' = tc_shutdown True e"
    using m by (auto simp: onMessage_def retrieveAllAsString_ok [OF ok(2)] rbind_Inr_iff msg_def)
  have r: "buffer_ok (retrieveAll (inputBuffer c))" "contents (retrieveAll (inputBuffer c)) = []"
    using retrieveAll_ok [OF ok(2)] by auto
  have "conn_ok c' \<and> inputBuffer c' = retrieveAll (inputBuffer c) \<and>
    tc_state c' = (if tc_state c = kConnected then kDisconnecting else tc_state c) \<and>
    (tc_state c = kConnected \<longrightarrow> \<not> send_lost write msg c \<longrightarrow>
       bytes @ contents (outputBuffer c') = contents (outputBuffer c) @ msg) \<and>
    (write_shut c' \<longrightarrow> \<not> write_shut c \<longrightarrow> contents (outputBuffer c') = []) \<and>
    (tc_state c \<noteq> kConnected \<longrightarrow> bytes = [] \<and> outputBuffer c' = outputBuffer c)"
  proof (cases "tc_state c = kConnected")
    case False
    then have "e = ?d" "bytes = []" using e(1) by (simp_all add: send_def)
    then show ?thesis using e(2) d False by (simp add: tc_shutdown_def)
  next
    case True
    then have s: "sendInLoop ctl write msg ?d = Inr (bytes, e)" using e(1) by (simp add: send_def)
    have "length (buffer (outputBuffer ?d)) + length msg \<le> max_append" using room by (simp add: msg_def)
    note S = sendInLoop_ok [OF d wc this s] sendInLoop_input [OF s]
    note T = tc_shutdown_ok [OF S(1), of True]
    show ?thesis using True e(2) S T by (auto simp: tc_shutdown_def)
  qed
  then show "conn_ok c'" "buffer_ok (inputBuffer c')" "contents (inputBuffer c') = []" 
    "tc_state c' = (if tc_state c = kConnected then kDisconnecting else tc_state c)"
    "tc_state c = kConnected \<Longrightarrow> \<not> send_lost write msg c \<Longrightarrow>
       bytes @ contents (outputBuffer c') = contents (outputBuffer c) @ msg"
    "write_shut c' \<Longrightarrow> \<not> write_shut c \<Longrightarrow> contents (outputBuffer c') = []"
    "tc_state c \<noteq> kConnected \<Longrightarrow> bytes = [] \<and> outputBuffer c' = outputBuffer c"
    "inputBuffer c' = retrieveAll (inputBuffer c)"
    using r by simp_all
qed

subsection \<open>A connection of the echo server\<close>

text \<open>
  A connection with its socket, the messages the callback was given (\<open>got\<close>) and the bytes the kernel delivered
  (\<open>delivered\<close>). The steps are those of the library that this program can cause: the connection comes up, a chunk
  of bytes arrives and the callback runs on it, a read gives no byte (end of file or an error), the socket takes more
  of the output, the connection is closed and destroyed. Reads begin when the connection is established, which
  asks the poller for them; the bounds are what a vector can hold.
\<close>

record 'k echo_system =
  sys :: "'k conn_system"
  got :: "string list"
  delivered :: string

definition with_conn :: "'k TcpConnection \<Rightarrow> 'k echo_system \<Rightarrow> 'k echo_system" where
  "with_conn c e = e\<lparr>sys := advance [] [] False c (sys e)\<rparr>"

inductive echo_run :: "'k epoll_ctl \<Rightarrow> 'k echo_system \<Rightarrow> 'k echo_system \<Rightarrow> bool" for ctl :: "'k epoll_ctl" where
  up: "tc_state (conn (sys e)) = kConnecting \<Longrightarrow> connectEstablished ctl (conn (sys e)) = Inr c \<Longrightarrow>
    echo_run ctl e (with_conn c e)"
| message: "tc_state (conn (sys e)) \<noteq> kConnecting \<Longrightarrow> write_contract write \<Longrightarrow>
    readv (iov_lens (inputBuffer (conn (sys e)))) = Inr bytes \<Longrightarrow> bytes \<noteq> [] \<Longrightarrow>
    length bytes \<le> sum_list (iov_lens (inputBuffer (conn (sys e)))) \<Longrightarrow>
    length (buffer (inputBuffer (conn (sys e)))) + extrabuf_size \<le> max_append \<Longrightarrow>
    length (buffer (outputBuffer (conn (sys e)))) + length bytes \<le> max_append \<Longrightarrow>
    handleRead ctl readv (conn (sys e)) = Inr d \<Longrightarrow> onMessage ctl write d = Inr (sent, c) \<Longrightarrow>
    echo_run ctl e
      \<lparr>sys = advance sent (if tc_state d = kConnected then contents (inputBuffer d) else [])
          (tc_state d = kConnected \<and> send_lost write (contents (inputBuffer d)) d) c (sys e),
       got = got e @ [contents (inputBuffer d)], delivered = delivered e @ bytes\<rparr>"
| no_message: "readv (iov_lens (inputBuffer (conn (sys e)))) \<in> {Inr []} \<union> range Inl \<Longrightarrow>
    handleRead ctl readv (conn (sys e)) = Inr c \<Longrightarrow> echo_run ctl e (with_conn c e)"
| writable: "write_contract write \<Longrightarrow> handleWrite ctl write (conn (sys e)) = Inr (bytes, c) \<Longrightarrow>
    echo_run ctl e (e\<lparr>sys := advance bytes [] False c (sys e)\<rparr>)"
| close: "handleClose ctl (conn (sys e)) = Inr c \<Longrightarrow> echo_run ctl e (with_conn c e)"
| destroy: "connectDestroyed ctl (conn (sys e)) = Inr c \<Longrightarrow> echo_run ctl e (with_conn c e)"

definition echo_start :: "'k echo_system \<Rightarrow> bool" where
  "echo_start e \<longleftrightarrow> conn_start (sys e) \<and> got e = [] \<and> delivered e = []"

definition first_message :: "string list \<Rightarrow> string" where
  "first_message ms = (case ms of [] \<Rightarrow> [] | m # _ \<Rightarrow> m)"

text \<open>
  Every message is taken out of the input buffer whole, and only the first one is handed to the connection: from then
  on the connection is no longer \<open>kConnected\<close> and \<open>send\<close> drops what it is given.
\<close>

definition echo_inv :: "'k echo_system \<Rightarrow> bool" where
  "echo_inv e \<longleftrightarrow> conn_inv (sys e) \<and> buffer_ok (inputBuffer (conn (sys e))) \<and> contents (inputBuffer (conn (sys e))) = [] \<and>
     concat (got e) = delivered e \<and> handed (sys e) \<in> {[], first_message (got e)} \<and>
     (tc_state (conn (sys e)) \<in> {kConnecting, kConnected} \<longrightarrow> got e = []) \<and>
     (tc_state (conn (sys e)) = kDisconnecting \<longrightarrow> got e \<noteq> [] \<and> handed (sys e) = first_message (got e)) \<and>
     (\<forall>w h. shut_log (sys e) = Some (w, h) \<longrightarrow> got e \<noteq> [] \<and> h = first_message (got e))"

lemma first_message_simps [simp]: "first_message [] = []" "first_message (m # ms) = m"
  by (simp_all add: first_message_def)

lemma first_message_append: "ms \<noteq> [] \<Longrightarrow> first_message (ms @ ns) = first_message ms"
  by (cases ms) simp_all

lemma handleRead_message:
  assumes ok: "buffer_ok (inputBuffer c)" and rd: "readv (iov_lens (inputBuffer c)) = Inr bytes" "bytes \<noteq> []"
    and fit: "length bytes \<le> sum_list (iov_lens (inputBuffer c))" "length (buffer (inputBuffer c)) + extrabuf_size \<le> max_append"
    and h: "handleRead ctl readv c = Inr d"
  shows "\<exists>b. d = call_back (MessageCb (contents (inputBuffer c) @ bytes)) (c\<lparr>inputBuffer := b\<rparr>) \<and> buffer_ok b \<and>
    contents b = contents (inputBuffer c) @ bytes"
  using readFd_ok [where readv = readv and b = "inputBuffer c", OF ok rd(1) fit] rd(2) h by (auto simp: handleRead_def)

lemma handleRead_other:
  assumes ok: "buffer_ok (inputBuffer c)" and rd: "readv (iov_lens (inputBuffer c)) \<in> {Inr []} \<union> range Inl"
    and h: "handleRead ctl readv c = Inr d"
  shows "d = c \<or> handleClose ctl c = Inr d"
proof (cases "readv (iov_lens (inputBuffer c))")
  case (Inl e)
  then show ?thesis using h by (simp add: handleRead_def readFd_def Let_def handleError_def)
next
  case (Inr bs)
  then show ?thesis using rd h handleRead_eof [OF _ ok, of readv ctl] by auto
qed

lemma with_conn_keeps:
  assumes inv: "echo_inv e" and ok: "conn_ok c" "outputBuffer c = outputBuffer (conn (sys e))"
      "write_shut c = write_shut (conn (sys e))" "inputBuffer c = inputBuffer (conn (sys e))"
    and st: "tc_state c = tc_state (conn (sys e)) \<or> tc_state c = kDisconnected \<or>
       tc_state c = kConnected \<and> tc_state (conn (sys e)) = kConnecting"
  shows "echo_inv (with_conn c e)"
proof -
  have "conn_inv (advance [] [] False c (sys e))"
    by (rule conn_inv_advance) (use inv ok in \<open>auto simp: echo_inv_def\<close>)
  then show ?thesis using inv ok st by (auto simp: echo_inv_def with_conn_def advance_def)
qed

lemma echo_inv_step:
  assumes inv: "echo_inv e" and step: "echo_run ctl e e'"
  shows "echo_inv e'"
proof -
  let ?c = "conn (sys e)"
  have I: "conn_inv (sys e)" "conn_ok ?c" "buffer_ok (inputBuffer ?c)" "contents (inputBuffer ?c) = []"
    using inv by (simp_all add: echo_inv_def conn_inv_def)
  show ?thesis using step
  proof cases
    case (up c)
    have "inputBuffer c = inputBuffer ?c" by (rule handler_input(1) [OF up(3)])
    then show ?thesis unfolding up(1)
      using connectEstablished_ok [OF I(2) _ up(3)] up(2) by (intro with_conn_keeps [OF inv]) auto
  next
    case (message wr readv bytes d sent c)
    obtain b where b: "d = call_back (MessageCb bytes) (?c\<lparr>inputBuffer := b\<rparr>)" "buffer_ok b" "contents b = bytes"
      using handleRead_message [OF I(3) message(4-7,9)] I(4) by auto
    have d: "conn_ok d" "inputBuffer d = b" "outputBuffer d = outputBuffer ?c" "tc_state d = tc_state ?c" "write_shut d = write_shut ?c"
      using b(1) conn_ok_other [OF I(2)] by (simp_all add: call_back_def conn_ok_def the_channel_def)
    have "length (buffer (outputBuffer d)) + length (contents (inputBuffer d)) \<le> max_append"
      using message(8) d b by simp
    note M = onMessage_ok [OF d(1) _ message(3) this message(10), unfolded d(2-5) b(3), OF b(2)]
    have "conn_inv (advance sent (if tc_state d = kConnected then contents (inputBuffer d) else [])
          (tc_state d = kConnected \<and> send_lost wr (contents (inputBuffer d)) d) c (sys e))"
      by (rule conn_inv_advance [OF I(1) M(1)]) (use M d b in auto)
    then show ?thesis unfolding message(1) using inv M(2-4) d b message(2)
      by (cases "tc_state ?c"; cases "got e") (auto simp: echo_inv_def advance_def)
  next
    case (no_message readv c)
    from handleRead_other [OF I(3) no_message(2,3)] consider "c = ?c" | "handleClose ctl ?c = Inr c" by blast
    then show ?thesis
    proof cases
      case 1
      then show ?thesis unfolding no_message(1) using I(2) by (intro with_conn_keeps [OF inv]) auto
    next
      case 2
      have "inputBuffer c = inputBuffer ?c" by (rule handler_input(2) [OF 2])
      then show ?thesis unfolding no_message(1) using handleClose_ok [OF I(2) 2] by (intro with_conn_keeps [OF inv]) auto
    qed
  next
    case (writable wr bytes c)
    note W = handleWrite_ok [OF I(2) writable(2,3)]
    have "inputBuffer c = inputBuffer ?c" by (rule handleWrite_kept(1) [OF writable(3)])
    moreover have "conn_inv (advance bytes [] False c (sys e))"
      by (rule conn_inv_advance [OF I(1) W(1)]) (use W in auto)
    ultimately show ?thesis unfolding writable(1) using inv W(3) handleWrite_kept(2) [OF writable(3)]
      by (auto simp: echo_inv_def advance_def)
  next
    case (close c)
    have "inputBuffer c = inputBuffer ?c" by (rule handler_input(2) [OF close(2)])
    then show ?thesis unfolding close(1) using handleClose_ok [OF I(2) close(2)] by (intro with_conn_keeps [OF inv]) auto
  next
    case (destroy c)
    have "inputBuffer c = inputBuffer ?c" by (rule handler_input(3) [OF destroy(2)])
    then show ?thesis unfolding destroy(1) using connectDestroyed_ok [OF I(2) destroy(2)]
      by (intro with_conn_keeps [OF inv]) auto
  qed
qed

interpretation echo: inductive_invariant echo_start "echo_run ctl" echo_inv for ctl
proof
  fix e :: "'a echo_system" assume e: "echo_start e"
  then have s: "conn_start (sys e)" by (simp add: echo_start_def)
  have i: "conn_inv (sys e)" by (rule connection.reachable_inv, rule reachable_init, rule s)
  obtain c wc hwm n name fd ptr p where c: "new_TcpConnection False name fd ptr p = Inr c"
    "sys e = \<lparr>conn = c\<lparr>has_writeComplete := wc, has_highWaterMark := hwm, highWaterMark := n\<rparr>,
          wire = [], handed = [], broken = False, shut_log = None\<rparr>"
    using s unfolding conn_start_def by blast
  have "8 + unat kInitialSize \<le> max_size" by (simp add: kInitialSize_def max_size_def)
  then have "buffer_ok (inputBuffer c) \<and> contents (inputBuffer c) = []"
    using c(1) new_Buffer_ok by (fastforce simp: new_TcpConnection_def rbind_Inr_iff Let_def)
  then show "echo_inv e" using e i c(2) new_TcpConnection_ok(3) [OF c(1)] by (simp add: echo_inv_def echo_start_def)
next
  show "echo_inv e \<Longrightarrow> echo_run ctl e f \<Longrightarrow> echo_inv f" for e f :: "'a echo_system" and ctl
    by (rule echo_inv_step)
qed

text \<open>
  Claim C40. The echo server answers the first chunk of a connection and nothing else. Whatever arrives
  is given to the callback once and in order; unless the kernel says that the peer is gone, what goes out is
  always a beginning of the first chunk, and the write side is shut only when all of the first
  chunk is out. So a client whose message arrives in two pieces gets back only the first.
\<close>
theorem echo_first_message:
  assumes "reachable echo_start (echo_run ctl) e" "\<not> broken (sys e)"
  shows "concat (got e) = delivered e \<and> (\<exists>rest. first_message (got e) = wire (sys e) @ rest) \<and>
     (\<forall>written given. shut_log (sys e) = Some (written, given) \<longrightarrow> got e \<noteq> [] \<and> written = first_message (got e))"
proof -
  have I: "echo_inv e" by (rule echo.reachable_inv [OF assms(1)])
  then have w: "wire (sys e) @ contents (outputBuffer (conn (sys e))) = handed (sys e)"
    "\<And>w h. shut_log (sys e) = Some (w, h) \<Longrightarrow> w = h"
    using assms(2) by (simp_all add: echo_inv_def conn_inv_def)
  have "\<exists>rest. first_message (got e) = wire (sys e) @ rest"
    using w(1) I unfolding echo_inv_def by (metis append_is_Nil_conv append_Nil empty_iff insert_iff)
  then show ?thesis using I w(2) by (auto simp: echo_inv_def)
qed

subsection \<open>It does answer\<close>

lemma tc_shutdown_pollable: "pollable interest c \<Longrightarrow> pollable interest (tc_shutdown inLoop c)"
  by (simp add: tc_shutdown_def Let_def shutdownInLoop_def queue_task_def pollable_def the_channel_def)

lemma onMessage_not_stuck:
  assumes con: "epoll_contract ctl interest" "write_contract write"
    and ok: "pollable interest c" "conn_ok c" "buffer_ok (inputBuffer c)"
    and room: "length (buffer (outputBuffer c)) + length (contents (inputBuffer c)) \<le> max_append"
  shows "\<exists>sent d. onMessage ctl write c = Inr (sent, d) \<and> pollable interest d"
proof -
  let ?d = "c\<lparr>inputBuffer := retrieveAll (inputBuffer c)\<rparr>"
  have d: "pollable interest ?d" "conn_ok ?d" "length (buffer (outputBuffer ?d)) + length (contents (inputBuffer c)) \<le> max_append"
    using ok(1) conn_ok_other [OF ok(2)] room by (simp_all add: pollable_def the_channel_def)
  have "\<exists>sent e. send ctl write True (contents (inputBuffer c)) ?d = Inr (sent, e) \<and> pollable interest e"
    using sendInLoop_not_stuck [OF con(1) d(1,2) con(2) d(3)] d(1) by (auto simp: send_def)
  then show ?thesis
    using tc_shutdown_pollable by (fastforce simp: onMessage_def retrieveAllAsString_ok [OF ok(3)])
qed

lemma iov_room: "buffer_ok b \<Longrightarrow> extrabuf_size \<le> sum_list (iov_lens b)"
  by (auto simp: iov_lens_def Let_def extrabuf_size_def word_less_nat_alt)

lemma message_not_stuck:
  assumes con: "epoll_contract ctl interest" "write_contract write"
    and inv: "echo_inv e" and ok: "pollable interest (conn (sys e))" "tc_state (conn (sys e)) \<noteq> kConnecting"
    and bytes: "bytes \<noteq> []" "length bytes \<le> extrabuf_size"
    and room: "length (buffer (inputBuffer (conn (sys e)))) + extrabuf_size \<le> max_append"
      "length (buffer (outputBuffer (conn (sys e)))) + length bytes \<le> max_append"
  shows "\<exists>b sent c. buffer_ok b \<and> contents b = bytes \<and> length (buffer b) \<le> length (buffer (inputBuffer (conn (sys e)))) + extrabuf_size \<and>
     onMessage ctl write (call_back (MessageCb bytes) ((conn (sys e))\<lparr>inputBuffer := b\<rparr>)) = Inr (sent, c) \<and> pollable interest c \<and>
     echo_run ctl e
      \<lparr>sys = advance sent (if tc_state (conn (sys e)) = kConnected then bytes else [])
          (tc_state (conn (sys e)) = kConnected \<and> send_lost write bytes (conn (sys e))) c (sys e),
       got = got e @ [bytes], delivered = delivered e @ bytes\<rparr>"
proof -
  let ?c = "conn (sys e)"
  let ?readv = "\<lambda>_ :: nat list. Inr bytes :: int + string"
  have I: "conn_ok ?c" "buffer_ok (inputBuffer ?c)" "contents (inputBuffer ?c) = []"
    using inv by (simp_all add: echo_inv_def conn_inv_def)
  have fit: "length bytes \<le> sum_list (iov_lens (inputBuffer ?c))" using bytes(2) iov_room [OF I(2)] by linarith
  obtain b where b: "readFd ?readv (inputBuffer ?c) = Inr (Inr (length bytes), b)" "buffer_ok b"
    "contents b = bytes" "length (buffer b) \<le> length (buffer (inputBuffer ?c)) + extrabuf_size"
    using readFd_ok [where readv = ?readv, OF I(2) refl fit room(1)] I(3) by auto
  let ?d = "call_back (MessageCb bytes) (?c\<lparr>inputBuffer := b\<rparr>)"
  have h: "handleRead ctl ?readv ?c = Inr ?d" using b bytes(1) by (simp add: handleRead_def)
  have d: "pollable interest ?d" "conn_ok ?d" "buffer_ok (inputBuffer ?d)" "contents (inputBuffer ?d) = bytes"
    "length (buffer (outputBuffer ?d)) + length (contents (inputBuffer ?d)) \<le> max_append"
    "tc_state ?d = tc_state ?c" "send_lost write bytes ?d = send_lost write bytes ?c"
    using ok(1) I(1) b room(2) by (simp_all add: call_back_def pollable_def conn_ok_def the_channel_def send_lost_def)
  obtain sent c where m: "onMessage ctl write ?d = Inr (sent, c)" "pollable interest c"
    using onMessage_not_stuck [OF con d(1-3,5)] by blast
  have "echo_run ctl e
      \<lparr>sys = advance sent (if tc_state ?d = kConnected then contents (inputBuffer ?d) else [])
          (tc_state ?d = kConnected \<and> send_lost write (contents (inputBuffer ?d)) ?d) c (sys e),
       got = got e @ [contents (inputBuffer ?d)], delivered = delivered e @ bytes\<rparr>"
    by (rule echo_run.message [OF ok(2) con(2) _ bytes(1) fit room h m(1)]) (rule refl)
  then show ?thesis using b m unfolding d(4,6,7) by blast
qed

text \<open>With a kernel that takes the whole answer, it is written at once and the connection half closed.\<close>

lemma onMessage_answers:
  assumes ok: "conn_ok c" "buffer_ok (inputBuffer c)" "tc_state c = kConnected" "contents (outputBuffer c) = []"
    and wr: "write (contents (inputBuffer c)) = Inr (length (contents (inputBuffer c)))"
    and m: "onMessage ctl write c = Inr (sent, d)"
  shows "sent = contents (inputBuffer c)" "write_shut d" "outputBuffer d = outputBuffer c"
    "tc_state d = kDisconnecting"
proof -
  let ?msg = "contents (inputBuffer c)"
  let ?c = "c\<lparr>inputBuffer := retrieveAll (inputBuffer c)\<rparr>"
  have idle: "\<not> IsWriting (the_channel ?c)" "readableBytes (outputBuffer ?c) = 0" "tc_state ?c \<noteq> kDisconnected"
    using conn_okD [OF ok(1)] ok(3,4) readable_zero by (simp_all add: the_channel_def)
  then have s: "sendInLoop ctl write ?msg ?c = Inr (?msg, writeComplete ?c)"
    by (simp add: sendInLoop_def send_first_def wr Let_def)
  have "sent = ?msg \<and> d = tc_shutdown True (writeComplete ?c)"
    using m s ok(3) by (simp add: onMessage_def retrieveAllAsString_ok [OF ok(2)] send_def)
  moreover have "\<not> IsWriting (the_channel (writeComplete ?c))" using idle(1) by (simp add: writeComplete_def queue_task_def the_channel_def)
  ultimately show "sent = contents (inputBuffer c)" "write_shut d" "outputBuffer d = outputBuffer c"
    "tc_state d = kDisconnecting"
    using ok(3) by (simp_all add: tc_shutdown_def shutdownInLoop_def the_channel_def writeComplete_def queue_task_def)
qed

lemma echo_answers:
  assumes con: "epoll_contract ctl interest" "write_contract write"
    and inv: "echo_inv e" and ok: "pollable interest (conn (sys e))" "tc_state (conn (sys e)) = kConnected"
      "contents (outputBuffer (conn (sys e))) = []" "\<not> write_shut (conn (sys e))"
    and bytes: "bytes \<noteq> []" "length bytes \<le> extrabuf_size" "write bytes = Inr (length bytes)"
    and room: "length (buffer (inputBuffer (conn (sys e)))) + extrabuf_size \<le> max_append"
      "length (buffer (outputBuffer (conn (sys e)))) + length bytes \<le> max_append"
  shows "\<exists>f. echo_run ctl e f \<and> pollable interest (conn (sys f)) \<and> tc_state (conn (sys f)) = kDisconnecting \<and>
     wire (sys f) = wire (sys e) @ bytes \<and> (broken (sys f) \<longleftrightarrow> broken (sys e)) \<and> got f = got e @ [bytes] \<and>
     delivered f = delivered e @ bytes \<and> shut_log (sys f) = Some (wire (sys e) @ bytes, handed (sys e) @ bytes) \<and>
     write_shut (conn (sys f)) \<and>
     outputBuffer (conn (sys f)) = outputBuffer (conn (sys e)) \<and> length (buffer (inputBuffer (conn (sys f)))) \<le> length (buffer (inputBuffer (conn (sys e)))) + extrabuf_size"
proof -
  let ?c = "conn (sys e)"
  have "tc_state ?c \<noteq> kConnecting" by (simp add: ok(2))
  then obtain b sent c where m: "buffer_ok b" "contents b = bytes" "length (buffer b) \<le> length (buffer (inputBuffer ?c)) + extrabuf_size"
     "onMessage ctl write (call_back (MessageCb bytes) (?c\<lparr>inputBuffer := b\<rparr>)) = Inr (sent, c)" "pollable interest c"
     "echo_run ctl e \<lparr>sys = advance sent (if tc_state ?c = kConnected then bytes else [])
          (tc_state ?c = kConnected \<and> send_lost write bytes ?c) c (sys e), got = got e @ [bytes], delivered = delivered e @ bytes\<rparr>"
    using message_not_stuck [OF con inv ok(1) _ bytes(1,2) room] by blast
  define d where "d = call_back (MessageCb bytes) (?c\<lparr>inputBuffer := b\<rparr>)"
  have "conn_ok ?c" using inv by (simp add: echo_inv_def conn_inv_def)
  then have d: "conn_ok d" "buffer_ok (inputBuffer d)" "tc_state d = kConnected" "contents (outputBuffer d) = []"
    "contents (inputBuffer d) = bytes" "outputBuffer d = outputBuffer ?c" "inputBuffer d = b"
    using ok(2,3) m(1,2) by (simp_all add: d_def call_back_def conn_ok_def the_channel_def)
  have all: "write (contents (inputBuffer d)) = Inr (length (contents (inputBuffer d)))" using bytes(3) by (simp add: d(5))
  note A = onMessage_answers [OF d(1-4) all m(4) [folded d_def], unfolded d(5,6)]
  have "length (buffer (outputBuffer d)) + length (contents (inputBuffer d)) \<le> max_append"
    using room(2) by (simp add: d(5,6))
  note B = onMessage_ok [OF d(1,2) con(2) this m(4) [folded d_def]]
  have nl: "\<not> send_lost write bytes ?c" using bytes(3) by (simp add: send_lost_def)
  let ?f = "\<lparr>sys = advance bytes bytes False c (sys e), got = got e @ [bytes], delivered = delivered e @ bytes\<rparr>"
  have "echo_run ctl e ?f" using m(6) nl ok(2) A(1) by simp
  moreover have "length (buffer (inputBuffer c)) \<le> length (buffer (inputBuffer ?c)) + extrabuf_size"
    using m(3) by (simp add: B(8) d(7) retrieveAll_def)
  ultimately show ?thesis using m(5) A ok(2,4) by (intro exI [of _ ?f]) (simp add: advance_def)
qed

lemma example_up:
  "\<exists>e :: (int \<Rightarrow> (events \<times> nat) option) echo_system. reachable echo_start (echo_run map_ctl) e \<and>
     pollable (\<lambda>k. k) (conn (sys e)) \<and> tc_state (conn (sys e)) = kConnected \<and> contents (outputBuffer (conn (sys e))) = [] \<and>
     \<not> write_shut (conn (sys e)) \<and> length (buffer (inputBuffer (conn (sys e)))) = 1032 \<and>
     length (buffer (outputBuffer (conn (sys e)))) = 1032 \<and> wire (sys e) = [] \<and> handed (sys e) = [] \<and> \<not> broken (sys e) \<and> got e = [] \<and>
     delivered e = []"
proof -
  obtain p :: "(int \<Rightarrow> (events \<times> nat) option) EPollPoller" and c0 c1 where
    c0: "new_TcpConnection False ''c'' 7 0 p = Inr c0" and c1: "connectEstablished map_ctl c0 = Inr c1"
      "pollable (\<lambda>k. k) c1" and sh: "\<not> write_shut c0" "\<not> write_shut c1" and E: "tc_state c1 = kConnected" "conn_ok c1"
      "contents (outputBuffer c1) = []" and len: "length (buffer (outputBuffer c1)) = 1032" "length (buffer (inputBuffer c0)) = 1032"
    using example_established by blast
  define e where "e = \<lparr>sys = \<lparr>conn = c0, wire = [], handed = [], broken = False, shut_log = None\<rparr>, got = [], delivered = []\<rparr>"
  have "conn_start (sys e)" unfolding conn_start_def e_def
    by (intro exI [of _ "''c''"] exI [of _ 7] exI [of _ 0] exI [of _ p] exI [of _ c0]
          exI [of _ "has_writeComplete c0"] exI [of _ "has_highWaterMark c0"] exI [of _ "highWaterMark c0"]) (simp add: c0)
  then have r: "reachable echo_start (echo_run map_ctl) e" by (intro reachable_init) (simp add: echo_start_def e_def)
  have "reachable echo_start (echo_run map_ctl) (with_conn c1 e)"
    by (rule reachable_step [OF r echo_run.up]) (simp_all add: e_def c1 new_TcpConnection_ok [OF c0])
  then show ?thesis using sh E len c1(2) handler_input(1) [OF c1(1)]
    by (intro exI [of _ "with_conn c1 e"]) (simp add: e_def with_conn_def advance_def)
qed

text \<open>A message that comes when the first one has been answered is dropped.\<close>

lemma echo_drops:
  assumes con: "epoll_contract ctl interest" "write_contract write"
    and inv: "echo_inv e" and ok: "pollable interest (conn (sys e))" "tc_state (conn (sys e)) = kDisconnecting" "shut_log (sys e) = Some l"
      "write_shut (conn (sys e))"
    and bytes: "bytes \<noteq> []" "length bytes \<le> extrabuf_size"
    and room: "length (buffer (inputBuffer (conn (sys e)))) + extrabuf_size \<le> max_append"
      "length (buffer (outputBuffer (conn (sys e)))) + length bytes \<le> max_append"
  shows "\<exists>f. echo_run ctl e f \<and> wire (sys f) = wire (sys e) \<and> (broken (sys f) \<longleftrightarrow> broken (sys e)) \<and>
     shut_log (sys f) = Some l \<and> got f = got e @ [bytes] \<and> delivered f = delivered e @ bytes"
proof -
  let ?c = "conn (sys e)"
  have "tc_state ?c \<noteq> kConnecting" by (simp add: ok(2))
  then obtain b sent c where m: "buffer_ok b" "contents b = bytes"
     "onMessage ctl write (call_back (MessageCb bytes) (?c\<lparr>inputBuffer := b\<rparr>)) = Inr (sent, c)"
     "echo_run ctl e \<lparr>sys = advance sent (if tc_state ?c = kConnected then bytes else [])
          (tc_state ?c = kConnected \<and> send_lost write bytes ?c) c (sys e), got = got e @ [bytes], delivered = delivered e @ bytes\<rparr>"
    using message_not_stuck [OF con inv ok(1) _ bytes room] by blast
  have s: "sent = []"
    using m(1-3) ok(2) by (auto simp: onMessage_def call_back_def retrieveAllAsString_ok send_def)
  let ?f = "\<lparr>sys = advance [] [] False c (sys e), got = got e @ [bytes], delivered = delivered e @ bytes\<rparr>"
  have "echo_run ctl e ?f" using m(4) ok(2) s by simp
  then show ?thesis using ok(3,4) by (intro exI [of _ ?f]) (simp add: advance_def)
qed

lemma example_echo:
  "\<exists>e :: (int \<Rightarrow> (events \<times> nat) option) echo_system. reachable echo_start (echo_run map_ctl) e \<and>
     \<not> broken (sys e) \<and> got e = [''hi'', ''yo''] \<and> delivered e = ''hiyo'' \<and> wire (sys e) = ''hi'' \<and>
     shut_log (sys e) = Some (''hi'', ''hi'')"
proof -
  note con = map_ctl_contract take_contract(2)
  obtain e :: "(int \<Rightarrow> (events \<times> nat) option) echo_system" where r: "reachable echo_start (echo_run map_ctl) e"
     and e: "pollable (\<lambda>k. k) (conn (sys e))" "tc_state (conn (sys e)) = kConnected" "contents (outputBuffer (conn (sys e))) = []"
       "\<not> write_shut (conn (sys e))" "length (buffer (inputBuffer (conn (sys e)))) = 1032"
       "length (buffer (outputBuffer (conn (sys e)))) = 1032" "wire (sys e) = []" "handed (sys e) = []" "\<not> broken (sys e)" "got e = []"
       "delivered e = []"
    using example_up by blast
  have room: "length (buffer (inputBuffer (conn (sys e)))) + extrabuf_size \<le> max_append"
      "length (buffer (outputBuffer (conn (sys e)))) + length ''hi'' \<le> max_append"
    using e(5,6) by (simp_all add: max_append_def max_size_def extrabuf_size_def)
  have w: "take_all ''hi'' = Inr (length ''hi'')" by (simp add: take_all_def)
  have small: "length ''hi'' \<le> extrabuf_size" "length ''yo'' \<le> extrabuf_size" by (simp_all add: extrabuf_size_def)
  obtain f where s: "echo_run map_ctl e f" and f: "pollable (\<lambda>k. k) (conn (sys f))" "tc_state (conn (sys f)) = kDisconnecting"
      "wire (sys f) = ''hi''" "\<not> broken (sys f)" "got f = [''hi'']" "delivered f = ''hi''" "shut_log (sys f) = Some (''hi'', ''hi'')"
      "outputBuffer (conn (sys f)) = outputBuffer (conn (sys e))" "length (buffer (inputBuffer (conn (sys f)))) \<le> 1032 + extrabuf_size"
      "write_shut (conn (sys f))"
    using echo_answers [OF con echo.reachable_inv [OF r] e(1-4) _ small(1) w room] e(9) unfolding e(5,7,8,10,11) by auto
  have rf: "reachable echo_start (echo_run map_ctl) f" by (rule reachable_step [OF r s])
  have room': "length (buffer (inputBuffer (conn (sys f)))) + extrabuf_size \<le> max_append"
      "length (buffer (outputBuffer (conn (sys f)))) + length ''yo'' \<le> max_append"
    using e(6) f(8,9) by (simp_all add: max_append_def max_size_def extrabuf_size_def)
  obtain g where "echo_run map_ctl f g" and g: "wire (sys g) = ''hi''" "\<not> broken (sys g)"
      "shut_log (sys g) = Some (''hi'', ''hi'')" "got g = [''hi'', ''yo'']" "delivered g = ''hiyo''"
    using echo_drops [OF con echo.reachable_inv [OF rf] f(1,2,7,10) _ small(2) room'] f(3-6) by auto
  from reachable_step [OF rf this(1)] show ?thesis using g by (intro exI [of _ g]) simp
qed

theorem echo_first_message_witness:
  "\<exists>e :: (int \<Rightarrow> (events \<times> nat) option) echo_system. concat (got e) = ''hiyo'' \<and> length (got e) = 2 \<and>
     first_message (got e) = ''hi'' \<and> wire (sys e) = ''hi'' \<and> shut_log (sys e) = Some (''hi'', ''hi'')"
proof -
  obtain e :: "(int \<Rightarrow> (events \<times> nat) option) echo_system" where e: "reachable echo_start (echo_run map_ctl) e"
     "\<not> broken (sys e)" "got e = [''hi'', ''yo'']" "delivered e = ''hiyo''" "wire (sys e) = ''hi''"
     "shut_log (sys e) = Some (''hi'', ''hi'')"
    using example_echo by blast
  note P = echo_first_message [OF e(1,2)]
  have "concat (got e) = ''hiyo''" using conjunct1 [OF P] e(4) by (rule trans)
  moreover have "first_message (got e) = ''hi''"
    by (rule sym, rule conjunct2, rule conjunct2 [OF conjunct2 [OF P], rule_format, OF e(6)])
  ultimately show ?thesis using e(3,5,6) by (intro exI [of _ e]) simp
qed

subsection \<open>How many clients it serves\<close>

text \<open>The loops of the server are those of its threads, and each connection has taken the next one.\<close>

definition workers_ready :: "nat list \<Rightarrow> server_system \<Rightarrow> bool" where
  "workers_ready ls y \<longleftrightarrow> loops (threadPool (srv y)) = ls \<and> next_loop (threadPool (srv y)) = 0 \<and> made (srv y) = [] \<and>
     nextConnId (srv y) = 1 \<and> 1 \<le> srv_started (srv y)"

definition workers_taken :: "nat list \<Rightarrow> server_system \<Rightarrow> bool" where
  "workers_taken ls y \<longleftrightarrow> loops (threadPool (srv y)) = ls \<and> next_loop (threadPool (srv y)) = length (made (srv y)) \<and>
     length (made (srv y)) \<le> length ls \<and> map ci_loop (made (srv y)) = take (length (made (srv y))) ls \<and>
     nextConnId (srv y) = int (length (made (srv y))) + 1 \<and> 1 \<le> srv_started (srv y)"

lemma run_task_kept [simp]: "threadPool (run_task t sv) = threadPool sv" "made (run_task t sv) = made sv"
    "nextConnId (run_task t sv) = nextConnId sv" "srv_started (run_task t sv) = srv_started sv"
  by (simp_all add: run_task_def removeConnectionInLoop_def queue_in_def Let_def split: server_task.split)

lemma run_in_kept [simp]: "threadPool (run_in cur l t sv) = threadPool sv" "made (run_in cur l t sv) = made sv"
    "nextConnId (run_in cur l t sv) = nextConnId sv" "srv_started (run_in cur l t sv) = srv_started sv"
  by (simp_all add: run_in_def queue_in_def)

lemma GetNextLoop_worker:
  "loops p = ls \<Longrightarrow> ls \<noteq> [] \<Longrightarrow> next_loop p = n \<Longrightarrow> n \<le> length ls \<Longrightarrow>
   GetNextLoop p = (if n < length ls then Inr (ls ! n, p\<lparr>next_loop := n + 1\<rparr>) else Inl OutOfBounds)"
  by (auto simp: GetNextLoop_def Let_def)

lemma workers_taken_step:
  assumes inv: "workers_taken ls y" and ne: "ls \<noteq> []" and step: "server_run y z"
  shows "workers_taken ls z"
  using step
proof cases
  case (set_threads n)
  then show ?thesis using inv by (simp add: workers_taken_def setThreadNum_def SetThreadNum_def)
next
  case (start startloop has_cb cur sv)
  then show ?thesis using inv by (auto simp: workers_taken_def TcpServer_start_def Let_def)
next
  case (accept getsockname fd peer sv)
  have g: "GetNextLoop (threadPool (srv y)) =
      (if length (made (srv y)) < length ls
       then Inr (ls ! length (made (srv y)), (threadPool (srv y))\<lparr>next_loop := length (made (srv y)) + 1\<rparr>) else Inl OutOfBounds)"
    by (rule GetNextLoop_worker) (use inv ne in \<open>simp_all add: workers_taken_def\<close>)
  then show ?thesis using accept inv
    by (auto simp: workers_taken_def newConnection_def Let_def take_Suc_conv_app_nth split: if_splits)
next
  case (close_conn c)
  then show ?thesis using inv by (simp add: workers_taken_def removeConnection_def)
next
  case (end_server items)
  then show ?thesis using inv by (simp add: workers_taken_def delete_fields)
next
  case (run_oldest xs loop t ys)
  then show ?thesis using inv by (simp add: workers_taken_def)
qed

interpretation workers: inductive_invariant "workers_ready (l # ls)" server_run "workers_taken (l # ls)" for l ls
proof
  show "workers_ready (l # ls) y \<Longrightarrow> workers_taken (l # ls) y" for y
    by (simp add: workers_ready_def workers_taken_def)
  show "workers_taken (l # ls) y \<Longrightarrow> server_run y z \<Longrightarrow> workers_taken (l # ls) z" for y z
    by (rule workers_taken_step) simp_all
qed

lemma EchoServer_ready:
  assumes "new_EchoServer socket setsockopt bind loop addr name ptr s p = Inr (sv, s', p')"
    "EchoServer_start startloop cur sv = Inr sv'"
  shows "workers_ready (map startloop [0..<3]) \<lparr>srv = sv', closes = [], gone = False\<rparr>"
proof -
  obtain base a ip where sv: "sv = setThreadNum 3 \<lparr>srv_name = name, srv_ipPort = ip, acceptor = SetNewConnectionCB a,
           threadPool = new_EventLoopThreadPool base name, srv_started = 0, nextConnId = 1,
           connections = Map.empty, made = [], srv_queue = [], srv_ran = []\<rparr>"
    using assms(1) by (auto simp: new_EchoServer_def new_TcpServer_def rbind_Inr_iff)
  then have sv0: "srv_started sv = 0" "made sv = []" "nextConnId sv = 1" "numThreads (threadPool sv) = 3"
    "loops (threadPool sv) = []" "next_loop (threadPool sv) = 0"
    by (simp_all add: setThreadNum_def SetThreadNum_def new_EventLoopThreadPool_def)
  then obtain q where q: "pool_Start startloop False (threadPool sv) = Inr q" "made sv' = []" "nextConnId sv' = 1"
     "threadPool sv' = q" "srv_started sv' = 1"
    using assms(2) by (auto simp: EchoServer_start_def TcpServer_start_def Let_def rbind_Inr_iff)
  show ?thesis using pool_Start_loops [OF q(1)] q sv0 by (simp add: workers_ready_def)
qed

text \<open>
  Claim C37. The echo server takes three clients. From \<open>start\<close> on, whatever the loops do and however
  many connections have closed, the first three connections go to the loops of the three threads in order,
  and the fourth reads past the end of the vector of loops.
\<close>
theorem echo_server_takes_three:
  assumes "new_EchoServer socket setsockopt bind loop addr name ptr s p = Inr (sv, s', p')"
    "EchoServer_start startloop cur sv = Inr sv'"
    "reachable (\<lambda>y. y = \<lparr>srv = sv', closes = [], gone = False\<rparr>) server_run y"
  shows "if length (made (srv y)) < 3
     then \<exists>new. newConnection getsockname cur fd peer (srv y) = Inr new \<and>
       map ci_loop (made new) = map startloop [0..<length (made (srv y)) + 1]
     else length (made (srv y)) = 3 \<and> newConnection getsockname cur fd peer (srv y) = Inl OutOfBounds"
proof -
  let ?ls = "startloop 0 # map startloop [1..<3]"
  have ls: "map startloop [0..<3] = ?ls" by (simp add: upt_rec)
  have "reachable (workers_ready ?ls) server_run y" using assms(3)
    by (induction rule: reachable.induct)
      (use EchoServer_ready [OF assms(1,2)] in \<open>auto simp: ls intro: reachable.intros\<close>)
  from workers.reachable_inv [OF this] have T: "workers_taken (map startloop [0..<3]) y" by (simp only: ls)
  have g: "GetNextLoop (threadPool (srv y)) =
      (if length (made (srv y)) < 3
       then Inr (startloop (length (made (srv y))), (threadPool (srv y))\<lparr>next_loop := length (made (srv y)) + 1\<rparr>) else Inl OutOfBounds)"
    using GetNextLoop_worker [OF _ _ refl, of "threadPool (srv y)" "map startloop [0..<3]"] T
    by (auto simp: workers_taken_def)
  show ?thesis using T g
    by (auto simp: workers_taken_def newConnection_def Let_def take_map min_def)
qed

theorem echo_server_takes_three_witness:
  "\<exists>sv s' p'. EchoServer_main (\<lambda>s :: unit. (5, s)) (\<lambda>fd opt v s. s) (\<lambda>fd addr s. (0, s)) (\<lambda>_. 0x0100007F) (\<lambda>i. i + 10) 0 ()
       (\<lparr>channels = Map.empty, chans = (\<lambda>_. new_Channel 0), kernelState = (), eventList = []\<rparr> :: unit EPollPoller) = Inr (sv, s', p') \<and>
     (\<exists>new. newConnection (\<lambda>_. None) 0 7 zero_addr sv = Inr new \<and> map ci_loop (made new) = [10])"
proof -
  let ?p = "\<lparr>channels = Map.empty, chans = (\<lambda>_. new_Channel 0), kernelState = (), eventList = []\<rparr> :: unit EPollPoller"
  let ?addr = "new_InetAddress (\<lambda>_. 0x0100007F) 8000 default_ip"
  let ?new = "new_EchoServer (\<lambda>s :: unit. (5, s)) (\<lambda>fd opt v s. s) (\<lambda>fd addr s. (0, s)) (Some 0) ?addr ''EchoServer-01'' 0 () ?p"
  obtain ip where ip: "ToIpPort ?addr = Inr ip" using ToIpPort_ok by blast
  obtain sv s' p' where sv: "?new = Inr (sv, s', p')" "numThreads (threadPool sv) = 3"
    by (auto simp: new_EchoServer_def new_TcpServer_def ip new_Acceptor_def createNonBlock_def BindAddress_def CheckloopNotNull_def
        setThreadNum_def SetThreadNum_def)
  obtain sv' where st: "EchoServer_start (\<lambda>i. i + 10) 0 sv = Inr sv'"
    using sv(2) by (cases "EchoServer_start (\<lambda>i. i + 10) 0 sv")
      (auto simp: EchoServer_start_def TcpServer_start_def pool_Start_def start_threads Let_def split: if_splits)
  have m: "EchoServer_main (\<lambda>s :: unit. (5, s)) (\<lambda>fd opt v s. s) (\<lambda>fd addr s. (0, s)) (\<lambda>_. 0x0100007F) (\<lambda>i. i + 10) 0 () ?p
      = Inr (sv', s', p')"
    unfolding EchoServer_main_def Let_def sv(1) by (simp add: st)
  have none: "made sv' = []" using EchoServer_ready [OF sv(1) st] by (simp add: workers_ready_def)
  have "reachable (\<lambda>y. y = \<lparr>srv = sv', closes = [], gone = False\<rparr>) server_run \<lparr>srv = sv', closes = [], gone = False\<rparr>" by (rule reachable_init) simp
  from echo_server_takes_three [OF sv(1) st this, where getsockname = "\<lambda>_. None" and fd = 7 and peer = zero_addr] none
  obtain new where "newConnection (\<lambda>_. None) 0 7 zero_addr sv' = Inr new" "map ci_loop (made new) = [10]" by auto
  with m show ?thesis by (intro exI conjI)
qed
end
