(* ===== verification/UserCallbacks.thy ===== *)
theory UserCallbacks
  imports Reactor TcpServer
begin

text \<open>
  The callbacks of the user: the setters of \<open>TcpServer\<close> and \<open>TcpConnection\<close>, what \<open>newConnection\<close> hands on, and what
  becomes of an operation that calls one that was not set. The other theories run a connection whose connection,
  message and close callbacks are set; this one shows that a server for which two of them were set has only such connections.
\<close>

text \<open>Which callbacks the user of a server, and then of a connection, has set; an empty \<open>std::function\<close> is \<open>False\<close>.\<close>

record ServerCallbacks =
  srv_connectionCallback :: bool
  srv_messageCallback :: bool
  srv_writeCompleteCallback :: bool
  srv_threadInitCallback :: bool

definition no_ServerCallbacks :: ServerCallbacks where
  "no_ServerCallbacks = \<lparr>srv_connectionCallback = False, srv_messageCallback = False, srv_writeCompleteCallback = False,
     srv_threadInitCallback = False\<rparr>"

definition srv_setThreadInitcallback :: "bool \<Rightarrow> ServerCallbacks \<Rightarrow> ServerCallbacks" where
  "srv_setThreadInitcallback cb s = s\<lparr>srv_threadInitCallback := cb\<rparr>"

definition srv_setConnectionCallback :: "bool \<Rightarrow> ServerCallbacks \<Rightarrow> ServerCallbacks" where
  "srv_setConnectionCallback cb s = s\<lparr>srv_connectionCallback := cb\<rparr>"

definition srv_setMessageCallback :: "bool \<Rightarrow> ServerCallbacks \<Rightarrow> ServerCallbacks" where
  "srv_setMessageCallback cb s = s\<lparr>srv_messageCallback := cb\<rparr>"

definition srv_setWriteCompleteCallback :: "bool \<Rightarrow> ServerCallbacks \<Rightarrow> ServerCallbacks" where
  "srv_setWriteCompleteCallback cb s = s\<lparr>srv_writeCompleteCallback := cb\<rparr>"

record ConnCallbacks =
  connectionCallback :: bool
  messageCallback :: bool
  closeCallback :: bool

definition no_ConnCallbacks :: ConnCallbacks where
  "no_ConnCallbacks = \<lparr>connectionCallback = False, messageCallback = False, closeCallback = False\<rparr>"

text \<open>A connection with its callbacks. The two optional ones are fields of the connection.\<close>

type_synonym 'k user_conn = "ConnCallbacks \<times> 'k TcpConnection"

definition setConnectionCallback :: "bool \<Rightarrow> 'k user_conn \<Rightarrow> 'k user_conn" where
  "setConnectionCallback cb = (\<lambda>(u, c). (u\<lparr>connectionCallback := cb\<rparr>, c))"

definition setMessageCallback :: "bool \<Rightarrow> 'k user_conn \<Rightarrow> 'k user_conn" where
  "setMessageCallback cb = (\<lambda>(u, c). (u\<lparr>messageCallback := cb\<rparr>, c))"

definition setWriteCompleteCallback :: "bool \<Rightarrow> 'k user_conn \<Rightarrow> 'k user_conn" where
  "setWriteCompleteCallback cb = (\<lambda>(u, c). (u, c\<lparr>has_writeComplete := cb\<rparr>))"

definition setHighWaterMarkCallback :: "bool \<Rightarrow> size_t \<Rightarrow> 'k user_conn \<Rightarrow> 'k user_conn" where
  "setHighWaterMarkCallback cb mark = (\<lambda>(u, c). (u, c\<lparr>has_highWaterMark := cb, highWaterMark := mark\<rparr>))"

definition setCloseCallback :: "bool \<Rightarrow> 'k user_conn \<Rightarrow> 'k user_conn" where
  "setCloseCallback cb = (\<lambda>(u, c). (u\<lparr>closeCallback := cb\<rparr>, c))"

text \<open>What \<open>newConnection\<close> sets on the connection it has made: the close callback is its own.\<close>

definition hand_over :: "ServerCallbacks \<Rightarrow> 'k TcpConnection \<Rightarrow> 'k user_conn" where
  "hand_over s c =
     (let conn = (no_ConnCallbacks, c);
          conn = setConnectionCallback (srv_connectionCallback s) conn;
          conn = setMessageCallback (srv_messageCallback s) conn;
          conn = setWriteCompleteCallback (srv_writeCompleteCallback s) conn
      in setCloseCallback True conn)"

text \<open>
  An operation of a connection with the callbacks \<open>u\<close>: the first call of an empty one throws
  \<open>std::bad_function_call\<close>, which nothing catches.
\<close>

fun is_set :: "ConnCallbacks \<Rightarrow> conn_callback \<Rightarrow> bool" where
  "is_set u (ConnectionCb b) = connectionCallback u"
| "is_set u (MessageCb m) = messageCallback u"
| "is_set u CloseCb = closeCallback u"

definition calls_of :: "'k TcpConnection \<Rightarrow> 'k TcpConnection \<Rightarrow> conn_callback list" where
  "calls_of c d = drop (length (callbacks c)) (callbacks d)"

definition invoke :: "ConnCallbacks \<Rightarrow> ('k TcpConnection \<Rightarrow> 'k TcpConnection result) \<Rightarrow> 'k TcpConnection \<Rightarrow> 'k TcpConnection result" where
  "invoke u f c = rbind (f c) (\<lambda>d. if list_all (is_set u) (calls_of c d) then Inr d else Inl Throws)"

lemma hand_over_fields:
  "connectionCallback (fst (hand_over s c)) = srv_connectionCallback s" "messageCallback (fst (hand_over s c)) = srv_messageCallback s"
  "closeCallback (fst (hand_over s c))" "has_writeComplete (snd (hand_over s c)) = srv_writeCompleteCallback s"
  "has_highWaterMark (snd (hand_over s c)) = has_highWaterMark c"
  by (simp_all add: hand_over_def Let_def setConnectionCallback_def setMessageCallback_def setWriteCompleteCallback_def
      setCloseCallback_def no_ConnCallbacks_def)

lemma all_set: "connectionCallback u \<Longrightarrow> messageCallback u \<Longrightarrow> closeCallback u \<Longrightarrow> is_set u x"
  by (cases x) simp_all

lemma invoke_all_set:
  assumes "connectionCallback u" "messageCallback u" "closeCallback u"
  shows "invoke u f = f"
proof
  show "invoke u f c = f c" for c
    using all_set [OF assms] by (cases "f c") (simp_all add: invoke_def list_all_iff)
qed

lemma calls_of_established:
  assumes "connectEstablished ctl c = Inr d"
  shows "calls_of c d = [ConnectionCb True]"
proof -
  obtain e where e: "channel_do ctl EnableRead (with_channel tie (c\<lparr>tc_state := kConnected\<rparr>)) = Inr e" "d = call_connectionCallback e"
    using assms by (auto simp: connectEstablished_def Let_def rbind_Inr_iff)
  note f = channel_do_fields [OF e(1)]
  show ?thesis using f(4,6) by (simp add: e(2) call_connectionCallback_def call_back_def connected_def calls_of_def with_channel_def)
qed

lemma calls_of_read:
  assumes "handleRead ctl readv c = Inr d" "readFd readv (inputBuffer c) = Inr (Inr n, b)" "0 < n"
  shows "calls_of c d = [MessageCb (contents b)]"
  using assms by (auto simp: handleRead_def call_back_def calls_of_def)

text \<open>
  A server whose user sets the connection and the message callback runs as the other theories say. Without the
  first no connection is ever established: \<open>connectEstablished\<close> throws. Without the second the first bytes that arrive do.
\<close>

lemma server_callbacks_needed:
  fixes s :: ServerCallbacks and c :: "'k TcpConnection"
  defines "u \<equiv> fst (hand_over s c)"
  shows "srv_connectionCallback s \<Longrightarrow> srv_messageCallback s \<Longrightarrow> invoke u f = f"
    and "\<not> srv_connectionCallback s \<Longrightarrow> \<not> is_ok (invoke u (connectEstablished ctl) c)"
    and "\<not> srv_messageCallback s \<Longrightarrow> readFd readv (inputBuffer c) = Inr (Inr n, b) \<Longrightarrow> 0 < n \<Longrightarrow>
      invoke u (handleRead ctl readv) c = Inl Throws"
proof -
  show "srv_connectionCallback s \<Longrightarrow> srv_messageCallback s \<Longrightarrow> invoke u f = f"
    unfolding u_def by (intro invoke_all_set) (simp_all add: hand_over_fields)
  show "\<not> is_ok (invoke u (connectEstablished ctl) c)" if "\<not> srv_connectionCallback s"
    using that calls_of_established [of ctl c]
    by (cases "connectEstablished ctl c") (simp_all add: invoke_def u_def hand_over_fields)
  show "invoke u (handleRead ctl readv) c = Inl Throws"
    if "\<not> srv_messageCallback s" "readFd readv (inputBuffer c) = Inr (Inr n, b)" "0 < n"
  proof -
    have "\<exists>d. handleRead ctl readv c = Inr d" using that(2,3) by (simp add: handleRead_def)
    then obtain d where d: "handleRead ctl readv c = Inr d" by blast
    show ?thesis using that(1) calls_of_read [OF d that(2,3)] d by (simp add: invoke_def u_def hand_over_fields)
  qed
qed

text \<open>The echo server sets both.\<close>

definition echo_callbacks :: ServerCallbacks where
  "echo_callbacks = srv_setMessageCallback True (srv_setConnectionCallback True no_ServerCallbacks)"

lemma echo_callbacks_enough: "invoke (fst (hand_over echo_callbacks c)) f = f"
  by (rule server_callbacks_needed(1)) (simp_all add: echo_callbacks_def srv_setMessageCallback_def srv_setConnectionCallback_def)

text \<open>A high-water mark set to zero is never crossed: the callback needs a buffer that was below it.\<close>

lemma zero_mark_never_reported:
  assumes "keep_rest ctl rest (snd (setHighWaterMarkCallback cb 0 (u, c))) = Inr d"
  shows "tasks d = tasks c"
proof -
  let ?c = "c\<lparr>has_highWaterMark := cb, highWaterMark := 0\<rparr>"
  obtain b where "Buffer_append rest (outputBuffer ?c) = Inr b"
    using assms by (auto simp: keep_rest_def setHighWaterMarkCallback_def Let_def rbind_Inr_iff)
  then have "(if \<not> IsWriting (the_channel (?c\<lparr>outputBuffer := b\<rparr>)) then channel_do ctl EnableWrite (?c\<lparr>outputBuffer := b\<rparr>)
     else Inr (?c\<lparr>outputBuffer := b\<rparr>)) = Inr d"
    using assms by (simp add: keep_rest_def setHighWaterMarkCallback_def Let_def)
  then show ?thesis by (auto dest!: channel_do_fields(7) split: if_splits)
qed
end
