(* ===== verification/Spec2Isabelle.thy ===== *)
theory Spec2Isabelle
  imports TestDriver LostWrite LogMatching LogToData LateFollower RpcServers SRaftLogging EventLoop LoopThread EchoServer UserCallbacks
begin

text \<open>
  Verification library of the repository. The repository has two programs. \<open>src/SRaft\<close> is a Raft
  node with a key-value service on top of it: a \<open>Skvclient\<close> calls \<open>Skvserver\<close>, which hands command
  lines to its \<open>SRaft\<close> node and gets the committed ones back through a \<open>MyChannel\<close>; the nodes call each
  other through gRPC stubs (\<open>SRaftRpc\<close>). \<open>src/mymuduo\<close> is a network library after muduo, one event
  loop per thread: a \<open>TcpServer\<close> accepts connections in the loop of its \<open>Acceptor\<close> and gives each
  \<open>TcpConnection\<close> to a loop of its pool; an \<open>EventLoop\<close> waits in an \<open>EPollPoller\<close> and dispatches to
  \<open>Channel\<close>s; bytes go through \<open>Buffer\<close>s.

  \<^bold>\<open>Theories of the Raft part.\<close>
  \<^item> \<open>RaftMessages\<close>: the messages of \<open>raft_messages.proto\<close> as records with their default values.
  \<^item> \<open>RaftLog\<close>: the vector \<open>logs\<close> (accessors of \<open>SRaft.h\<close>, \<open>FindLog\<close>, the erase and insert of
    \<open>OnAppendEntriesRequest\<close>, the copying loop of \<open>DoAppendEntries\<close>) and its shape invariant.
  \<^item> \<open>MyChannel\<close>: the blocking queue.
  \<^item> \<open>SRaft\<close>: the node, one definition per operation of \<open>SRaft.cc\<close>; the record has the fields of the class, the
    file it persists to, its clock and random source, and the RPC calls it has started. Every
    operation runs under the node's mutex and so is one function. \<open>SRaftLemmas\<close>: what each
    operation leaves alone.
  \<^item> \<open>NodeSystem\<close>: one node under any sequence of its operations, crashes and restarts (votes, log and term
    on disk, applied commands). \<open>Replication\<close>: the shape of the log in every run and one append
    round between two nodes. \<open>Cluster\<close>, \<open>Elections\<close>: the nodes of \<open>MakeNodes\<close> with their vote
    traffic; who may win a term, and what defeats the election. \<open>RaftBehaviour\<close>: commit, apply and
    failed calls, and the departures from the Raft rules; \<open>NodeFaults\<close>: when an operation crashes or hangs; \<open>LogMatching\<close>: how two
    commands come under one index and term. \<open>ReplicatedWrite\<close>: a command from \<open>DoLog\<close>
    through the calls to the followers to the commit.
  \<^item> \<open>SRaftRpc\<close>, \<open>KvServer\<close>, \<open>KvClient\<close>: the threads of the RPC calls and the service methods; the server,
    which for a single node refines a map; the client's search for the leader. \<open>ClientServer\<close> joins a
    client and its servers.
  \<^item> \<open>ElectionRound\<close>: an election from the timer through the calls to the peers to the new leader.
    \<open>TestCluster\<close>: the servers and the client of \<open>utils_test.h\<close>. The last section of this theory puts all
    of it together, from the construction of the servers to a value read back.
  \<^item> \<open>SteadyCluster\<close>: a cluster in which the same followers answer every round, over any number of writes; for its
    client it is a map. \<open>LostWrite\<close>: the committed write that such a cluster loses at the next election.
    \<open>TestDriver\<close>: \<open>sraft_test.cc\<close>, which puts three values and reads them back.
    \<open>LateFollower\<close>: the follower whose answer comes after the commit. \<open>LogToData\<close>: the commands from the log of the
    node through the channel to the data of its server.
  \<^item> \<open>RpcServers\<close>: the constructors and destructors of \<open>SRaftServer\<close> and \<open>KvserverServer\<close>, the joins of the destructors around them, and the ports they share.
    \<open>SRaftLogging\<close>: the logger of this part, called from threads that take turns.

  \<^bold>\<open>Theories of the network part.\<close>
  \<^item> \<open>ByteBuffer\<close>: \<open>Buffer\<close> with its \<open>size_t\<close> arithmetic; a byte string is its abstraction.
  \<^item> \<open>EventPoller\<close>: \<open>Channel\<close>, \<open>Poller\<close>, \<open>EPollPoller\<close>; the kernel watches what the channels ask.
  \<^item> \<open>EventLoop\<close>: the functor queue, the wakeup and the loop, interleaved with other threads.
  \<^item> \<open>TcpConnection\<close>: one definition per operation and what it keeps. \<open>ConnectionStream\<close>: a connection over
    its life with the bytes on its socket. \<open>Reactor\<close>: the dispatch of its events.
  \<^item> \<open>NetUtil\<close>: \<open>printf\<close> as the program uses it, \<open>Timestamp\<close>, \<open>Logger\<close>, \<open>InetAddress\<close>, \<open>Socket\<close>. \<open>Acceptor\<close>: the
    listening socket.
  \<^item> \<open>LoopThread\<close>: \<open>Thread\<close> and \<open>EventLoopThread\<close>, owner and new thread interleaved step by step.
    \<open>LoopPool\<close>: \<open>EventLoopThreadPool\<close>. \<open>TcpServer\<close>: the server and the life of its connections.
  \<^item> \<open>EchoServer\<close>: the echo server of \<open>test/test.cc\<close> on top of all of this, its callbacks over the life of a
    connection and its connections over the loops of its pool. \<open>UserCallbacks\<close>: which callbacks a user must set.

  \<open>Prelude\<close> has what they share: 64-bit words, results with faults, and the interfaces as locales.
  \<open>inductive_invariant\<close> is a transition system with an invariant (interpreted by the node, the cluster, the
  server, the poller, the loop, the connection, the loop thread, the TCP server and the echo server); \<open>fifo\<close> a
  queue (the channel and the pending functors); \<open>byte_queue\<close> bytes added at one end and taken
  at the other (the buffer); \<open>refinement\<close> a detailed machine that answers like an abstract one (the buffer
  and a byte string, the one-node server and a map).

  \<^bold>\<open>How the code is modelled.\<close> An operation is a function on the record of its class. \<open>uint64_t\<close>,
  \<open>int64_t\<close> and \<open>size_t\<close> are 64-bit words with the comparison of the code; \<open>int\<close>s that only count are
  integers. What ends or corrupts the process is a value of \<open>fault\<close>: a null dereference, an index out of
  bounds, an exception, an \<open>exit\<close>, a wait or a loop without end. Pointers to channels and loops are numbers.
  System calls, gRPC calls, the clock, the random source and \<open>localtime\<close> are parameters, with a
  named contract where the code relies on one (\<open>epoll_contract\<close>, \<open>eventfd_contract\<close>,
  \<open>write_contract\<close>, \<open>grpc_contract\<close>, \<open>dated\<close>), each met by a concrete instance in a witness. User callbacks of a connection are
  recorded in order; the callbacks a user must set are taken as set (\<open>UserCallbacks\<close> has what happens otherwise). Threads are steps of a
  relation wherever two of them share state without a lock; \<open>LoopThread\<close> goes down to single accesses.

  \<^bold>\<open>Bounds.\<close> No fuel is used: loops are structural recursions, folds, functions with a termination proof,
  or (\<open>entries_loop\<close>) a partial function whose divergence is a theorem. The election theorems ask that the 64-bit
  term counter is not exhausted, the buffer lemmas that a vector can hold the bytes, the server
  stops at the overflow of its 31-bit connection counter.

  \<^bold>\<open>Not modelled.\<close> The generated protobuf and gRPC code, and the gRPC runtime (serialisation of a message
  is taken as faithful: the code sets the required fields of every message it sends, but for the answer of a stopped
  node to a vote request, which fails as a call and then has the effect of the default response, and for the empty
  entries of \<open>copying_loop\<close>); what the servers do while the test driver sleeps, which is a parameter of its model; a crash in
  the middle of writing the file, and a file that cannot be opened by a node just built (\<open>fs_ok\<close> is a field of the node, which
  \<open>Dump\<close> tests; \<open>new_SRaft\<close> sets it); the log output inside the other components; memory reclamation (\<open>shared_ptr\<close>
  counts), except for the tie of a channel to its connection.
\<close>

subsection \<open>A client, its servers, and the nodes below\<close>

text \<open>
  A client reads its own write. It knows any number of servers, one of which leads a cluster
  of its own, and puts a value without white space: every server is asked, the leader takes the
  command through its node and its channel, and once the receiving thread has made two steps for each waiting command
  (and one to get there) a \<open>Get\<close> returns the value and remembers the leader, whatever the data,
  the channel and the remembered server were before.
\<close>
lemma client_reads_its_write:
  assumes "named_servers c" "leader \<in> fst ` set (kv_servers c)"
    and "\<And>k. k \<in> fst ` set (kv_servers c) \<Longrightarrow> k \<noteq> leader \<Longrightarrow> state (node (servers k)) \<noteq> LEADER"
    and "solo_server (servers leader)" "receiving (servers leader)" "word_string key" "word_string v"
    and "length (logs (node (servers leader))) + n + 1 \<le> 2 ^ 63 - 2" "2 * length (queued (servers leader)) + 3 \<le> n"
  shows "\<exists>served sv. serve_puts (Skvclient_Put key v c) servers = Inr served \<and>
     run_steps kv_step (replicate n Recieve) (served leader) = Inr sv \<and>
     Skvclient_Get (serve_get (served(leader := sv))) key c = (v, c\<lparr>leaderName := leader\<rparr>)"
proof -
  let ?q = "put_request key v"
  let ?L = "servers leader"
  have clean: "clean_request ?q" using assms(6,7) by (simp add: clean_request_def)
  let ?es = "Put ?q # replicate n Recieve"
  have "list_all clean_event ?es" using clean by (simp add: list_all_length nth_Cons split: nat.split)
  moreover have "length (logs (node ?L)) + sum_list (map (\<lambda>e. 1) ?es) \<le> 2 ^ 63 - 2"
    using assms(8) by (simp add: sum_list_replicate)
  ultimately obtain sv where sv: "run_steps kv_step ?es ?L = Inr sv" "solo_server sv" "db_of sv = fold spec_step ?es (db_of ?L)"
    using kv.run_refines [OF assms(4), of ?es] by blast
  obtain rsp u where u: "putAppend ?q PutAppendResponse_default ?L = Inr (rsp, u)"
    and run: "run_steps kv_step (replicate n Recieve) u = Inr sv"
    using sv(1) by (auto simp: rbind_Inr_iff)
  have served: "serve_puts (Skvclient_Put key v c) servers = Inr (servers(leader := u))"
    by (rule put_served [where servers = servers and leader = leader, OF assms(1,2,3) u])
  have "receiving u \<and> length (queued u) = length (queued ?L) + 1"
  proof -
    obtain que where que: "channel (node ?L) = Some que" "solo (node ?L)"
      using assms(4) by (auto simp: solo_server_def solo_def)
    have room: "log_room (logs (node ?L))" by (rule solo_room [OF assms(4)]) (use assms(8) in simp)
    have "format_cmd ?q \<noteq> []" by (simp add: format_cmd_def)
    from DoLog_solo [OF que(2,1) room this] u que show ?thesis using assms(5)
      by (auto simp: putAppend_def solo_def receiving_def queued_def)
  qed
  then have "receiving u" "drain_steps u \<le> n" using assms(9) by (simp_all add: drain_steps_def)
  then have empty: "queued sv = []" by (rule drain [OF _ run])
  have "(spec_step Recieve ^^ k) m = m" for k m by (induction k) simp_all
  then have "db_of sv key = Some v" using sv(3) by (simp add: spec_write_def)
  then have db: "kvDB sv key = Some v" using empty by (simp add: db_of_def)
  have lead: "state (node sv) = LEADER" using sv(2) by (simp add: solo_server_def solo_def)
  have "Skvclient_Get (serve_get (servers(leader := sv))) key c = (v, c\<lparr>leaderName := leader\<rparr>)"
    by (rule get_from_leader [where servers = servers and leader = leader, OF assms(1,2,3) lead db])
  then show ?thesis using served run by (intro exI [of _ "servers(leader := u)"] exI [of _ sv]) simp
qed

definition example_servers :: "string \<Rightarrow> Skvserver" where
  "example_servers k = (if k = ''b'' then example_server else new_Skvserver ''A'' ''R'' (\<lambda>k. of_nat k) (\<lambda>k lo hi. lo) None)"

lemma client_reads_its_write_example:
  "\<exists>served sv. serve_puts (Skvclient_Put ''k'' ''v'' example_client) example_servers = Inr served \<and>
     run_steps kv_step (replicate 3 Recieve) (served ''b'') = Inr sv \<and>
     fst (Skvclient_Get (serve_get (served(''b'' := sv))) ''k'' example_client) = ''v''"
proof -
  have l: "''b'' \<in> fst ` set (kv_servers example_client)"
    by (simp add: example_client_def AddServers_def new_Skvclient_def)
  have n: "named_servers example_client" unfolding example_client_def by (rule named_servers_new)
  have o: "state (node (example_servers k)) \<noteq> LEADER" if "k \<in> fst ` set (kv_servers example_client)" "k \<noteq> ''b''" for k
    using that(2) by (simp add: example_servers_def new_Skvserver_def new_SRaft_def)
  have b: "example_servers ''b'' = example_server" by (simp add: example_servers_def)
  have s: "solo_server (example_servers ''b'')" "receiving (example_servers ''b'')"
    "logs (node (example_servers ''b'')) = []" "queued (example_servers ''b'') = []" unfolding b
    by (simp_all add: solo_server_def solo_def receiving_def queued_def example_server_def new_Skvserver_def new_SRaft_def
        Run_def Load_def get_current_ms_def get_ranged_random_def)
  have w: "word_string ''k''" "word_string ''v''" by (simp_all add: word_string_def isspace_def)
  show ?thesis
    using client_reads_its_write [where n = 3 and servers = example_servers and leader = "''b''" and c = example_client,
        OF n l o s(1,2) w] s(3,4) by auto
qed

text \<open>A write replicated to a follower and read back through the client (\<open>write_is_read\<close>), on an example.\<close>

definition example_cluster :: "string \<Rightarrow> Skvserver" where
  "example_cluster k = (if k = ''b'' then example_server\<lparr>node := five_nodes_leader\<lparr>logs := []\<rparr>\<rparr>
     else new_Skvserver ''A'' ''R'' (\<lambda>k. of_nat k) (\<lambda>k lo hi. lo) None)"

lemma write_is_read_example:
  "\<exists>served fs' l sv. serve_puts (Skvclient_Put ''k'' ''v'' example_client) example_cluster = Inr served \<and>
     append_round [example_follower] (node (served ''b'')) = Inr (fs', l) \<and>
     run_steps kv_step (replicate 3 Recieve) ((served ''b'')\<lparr>node := l\<rparr>) = Inr sv \<and>
     fst (Skvclient_Get (serve_get (served(''b'' := sv))) ''k'' example_client) = ''v''"
proof -
  let ?l = "five_nodes_leader\<lparr>logs := []\<rparr>"
  have m: "''b'' \<in> fst ` set (kv_servers example_client)"
    by (simp add: example_client_def AddServers_def new_Skvclient_def)
  have n: "named_servers example_client" unfolding example_client_def by (rule named_servers_new)
  have o: "state (node (example_cluster k)) \<noteq> LEADER" if "k \<in> fst ` set (kv_servers example_client)" "k \<noteq> ''b''" for k
    using that(2) by (simp add: example_cluster_def new_Skvserver_def new_SRaft_def)
  have b: "node (example_cluster ''b'') = ?l" "tobeDestroy (example_cluster ''b'') = False"
      "recieveMsgThread (example_cluster ''b'') = LoopTest"
    by (simp_all add: example_cluster_def example_server_def new_Skvserver_def)
  have s: "leading ?l" "channel ?l = Some []" "logs ?l = []" "length (peers ?l) = 4"
    by (auto simp: leading_def five_nodes_leader_def example_leader_def new_SRaft_def log_room_def all_live_def sle_i64)
  have f: "in_sync (node (example_cluster ''b'')) f" if "f \<in> set [example_follower]" for f
    using that b(1) by (simp add: in_sync_def five_nodes_leader_def example_leader_def example_follower_def new_SRaft_def)
  have l: "leading (node (example_cluster ''b''))" "receiving (example_cluster ''b'')" "queued (example_cluster ''b'') = []"
    using b s by (simp_all add: receiving_def queued_def)
  have w: "word_string ''k''" "word_string ''v''" by (simp_all add: word_string_def isspace_def)
  show ?thesis
    using write_is_read [where n = 3 and servers = example_cluster and leader = "''b''" and c = example_client
        and fs = "[example_follower]", OF n m o l(1,2) _ f _ _ w] l(3) b(1) s(3,4) by auto
qed

text \<open>
  Claim C4. The whole service, from nothing. \<open>MakeServers\<close> and \<open>RunServerRaft\<close> build and start two or more
  servers that find no persisted file, \<open>InitClient\<close> a client of them. When the timer of one server passes its due time first and
  enough of the others (one at least) answer, it becomes the leader; a value the client then puts, key and value not empty and without
  white space, reaches the logs of these servers, on disk, is committed and applied by the leader, whose receiving
  thread makes three steps or more, and is what the client's \<open>Get\<close> returns.
\<close>
theorem fresh_cluster_serves:
  assumes "n < 2 ^ 63" "i < n" and svs: "svs = RunServerRaft (MakeServers n clk rnd (\<lambda>_. None))"
    and c: "c = InitClient svs new_Skvclient" and leader: "leader = local_addr basePort i"
    and js: "distinct js" "set js \<subseteq> {..<n} - {i}" "js \<noteq> []" "(n - 1) div 2 < 1 + length js"
    and clk: "clk i 0 + rnd i 0 interval_election_low interval_election_high < clk i 1"
      "\<not> clk i 2 + interval_election_fail < clk i 1"
    and w: "word_string key" "word_string v" and m: "3 \<le> m"
  shows "\<exists>l0 fs l served fs' l' sv.
    OnTimer (node (svs ! i)) = Inr l0 \<and> vote_round (map (\<lambda>j. node (svs ! j)) js) l0 = (fs, l) \<and>
    serve_puts (Skvclient_Put key v c) (server_at (put_back (i # js) (l # fs) svs)) = Inr served \<and>
    append_round fs (node (served leader)) = Inr (fs', l') \<and>
    (\<forall>f \<in> set fs'. le_data (last (logs f)) = ''put '' @ key @ '' '' @ v \<and> log_saved f) \<and>
    run_steps kv_step (replicate m Recieve) ((served leader)\<lparr>node := l'\<rparr>) = Inr sv \<and>
    Skvclient_Get (serve_get (served(leader := sv))) key c = (v, c\<lparr>leaderName := leader\<rparr>)"
proof -
  obtain l0 fs l where e: "OnTimer (node (svs ! i)) = Inr l0" "vote_round (map (\<lambda>j. node (svs ! j)) js) l0 = (fs, l)"
      "leading l" "same_store (node (svs ! i)) l" "\<forall>f \<in> set fs. in_sync l f \<and> state f \<noteq> LEADER"
      "length fs = length js" "distinct (map addrStr fs)"
    using fresh_election [OF assms(1,2) svs js clk] by blast
  define servers where "servers = server_at (put_back (i # js) (l # fs) svs)"
  note T = started_table [OF assms(1) svs]
  note F = fresh_table [OF assms(1,2) svs js(1,2) e(6), where l = l, folded servers_def]
  have lead: "servers leader = (svs ! i)\<lparr>node := l\<rparr>" unfolding leader by (rule F(1)) (use e(5) in simp)
  have keys: "fst ` set (kv_servers c) = local_addr basePort ` {..<n}"
    using InitClient_named(2) [of svs] T(3) by (metis c atLeast_upt list.set_map)
  have others: "state (node (servers k)) \<noteq> LEADER" if k: "k \<in> fst ` set (kv_servers c)" "k \<noteq> leader" for k
  proof -
    obtain j where j: "j < n" "k = local_addr basePort j" "j \<noteq> i" using k keys leader by auto
    show ?thesis unfolding j(2) by (rule F(2) [OF _ j(1,3)]) (use e(5) in simp)
  qed
  have ch: "channel l = Some []" "logs l = []" "length (peers l) = n - 1"
    using e(4) assms(2) fresh_peers(3) [OF assms(1,2)] by (simp_all add: same_store_def T(2) started_node)
  have "named_servers c" unfolding c by (rule InitClient_named(1))
  moreover have "leader \<in> fst ` set (kv_servers c)" unfolding keys leader using assms(2) by simp
  moreover have "leading (node (servers leader))" "receiving (servers leader)"
    using e(3) ch assms(2) by (simp_all add: lead receiving_def T(2) started_node)
  moreover have "in_sync (node (servers leader)) f" if "f \<in> set fs" for f using e(5) that by (simp add: lead)
  moreover have "fs \<noteq> []" "length (peers (node (servers leader))) div 2 \<le> 1 + length fs"
    using js(3,4) e(6) ch(3) by (auto simp: lead)
  moreover have "2 * (length (queued (servers leader)) + length (logs (node (servers leader))) + 1) + 1 \<le> m"
    using m ch by (simp add: lead queued_def)
  ultimately have "\<exists>served fs' l' sv. serve_puts (Skvclient_Put key v c) servers = Inr served \<and>
     append_round fs (node (served leader)) = Inr (fs', l') \<and>
     (\<forall>f \<in> set fs'. le_data (last (logs f)) = ''put '' @ key @ '' '' @ v \<and> log_saved f) \<and>
     run_steps kv_step (replicate m Recieve) ((served leader)\<lparr>node := l'\<rparr>) = Inr sv \<and>
     Skvclient_Get (serve_get (served(leader := sv))) key c = (v, c\<lparr>leaderName := leader\<rparr>)"
    using others e(7) w by (intro write_is_read [where fs = fs])
  then show ?thesis using e(1,2) unfolding servers_def by blast
qed

theorem fresh_cluster_serves_witness:
  "let svs = RunServerRaft (MakeServers 3 (\<lambda>_ k. of_nat (1000 * k)) (\<lambda>_ _ lo _. lo) (\<lambda>_. None));
       c = InitClient svs new_Skvclient; leader = local_addr basePort 0
   in \<exists>l0 fs l served fs' l' sv.
    OnTimer (node (svs ! 0)) = Inr l0 \<and> vote_round (map (\<lambda>j. node (svs ! j)) [1]) l0 = (fs, l) \<and>
    serve_puts (Skvclient_Put ''k'' ''v'' c) (server_at (put_back [0, 1] (l # fs) svs)) = Inr served \<and>
    append_round fs (node (served leader)) = Inr (fs', l') \<and>
    (\<forall>f \<in> set fs'. le_data (last (logs f)) = ''put '' @ ''k'' @ '' '' @ ''v'' \<and> log_saved f) \<and>
    run_steps kv_step (replicate 3 Recieve) ((served leader)\<lparr>node := l'\<rparr>) = Inr sv \<and>
    Skvclient_Get (serve_get (served(leader := sv))) ''k'' c = (''v'', c\<lparr>leaderName := leader\<rparr>)"
proof -
  have w: "word_string ''k''" "word_string ''v''" by (simp_all add: word_string_def isspace_def)
  have c: "of_nat (1000 * 0) + interval_election_low < (of_nat (1000 * 1) :: u64)"
    "\<not> of_nat (1000 * 2) + interval_election_fail < (of_nat (1000 * 1) :: u64)"
    by (simp_all add: interval_election_low_def interval_election_fail_def)
  have j: "(3 :: nat) < 2 ^ 63" "(0 :: nat) < 3" "distinct [1 :: nat]" "set [1] \<subseteq> {..<3} - {0 :: nat}" "[1 :: nat] \<noteq> []"
    "(3 - 1 :: nat) div 2 < 1 + length [1 :: nat]" by auto
  show ?thesis unfolding Let_def
    by (rule fresh_cluster_serves [where clk = "\<lambda>_ k. of_nat (1000 * k)" and rnd = "\<lambda>_ _ lo _. lo" and m = 3,
      OF j(1,2) refl refl refl j(3-6) c w order_refl])
qed

end
